theory Spec2Isabelle
  imports Main "HOL-Library.Word"
begin

unbundle bit_operations_syntax

section \<open>Data model\<close>

text \<open>
  A \<open>union gcm_block\<close> is sixteen bytes of memory; the model keeps the bytes in
  memory order.  The integer views of the union (\<open>word[]\<close>, \<open>dword[]\<close>,
  \<open>len.add\<close>, \<open>len.data\<close>, \<open>ctr.value\<close>) read and write these bytes in
  the byte order of the CPU, which is a parameter of every operation.
  Pointers are addresses (\<open>0\<close> is \<open>NULL\<close>), \<open>size_t\<close> lengths are natural
  numbers.
\<close>

type_synonym u8 = "8 word"
type_synonym u16 = "16 word"
type_synonym u32 = "32 word"
type_synonym u64 = "64 word"
type_synonym block = "u8 list"
type_synonym addr = nat

datatype endian = LittleEndian | BigEndian

subsection \<open>Byte order\<close>

text \<open>
  Modelled from the spec: the platform byte-swap intrinsics of \<open>byteswap.h\<close>
  (\<open>cpu_to_be16/32/64\<close>, \<open>be16/32_to_cpu\<close>) are not part of the sources; the
  spec names them as external and fixes their meaning through "big-endian".
  \<open>be_bytes n w\<close> are the \<open>n\<close> low bytes of \<open>w\<close>, most significant first;
  \<open>be_word\<close> reads such a sequence back; \<open>bswap n\<close> reverses the \<open>n\<close> bytes
  of a value.
\<close>

definition be_bytes :: "nat \<Rightarrow> 'a::len word \<Rightarrow> u8 list" where
  "be_bytes n w = map (\<lambda>i. ucast (drop_bit (8 * i) w)) (rev [0..<n])"

definition be_word :: "u8 list \<Rightarrow> 'a::len word" where
  "be_word bs = foldl (\<lambda>acc b. push_bit 8 acc OR ucast b) 0 bs"

definition bswap :: "nat \<Rightarrow> 'a::len word \<Rightarrow> 'a word" where
  "bswap n w = be_word (rev (be_bytes n w))"

definition cpu_to_be16 :: "endian \<Rightarrow> u16 \<Rightarrow> u16" where
  "cpu_to_be16 e w = (case e of BigEndian \<Rightarrow> w | LittleEndian \<Rightarrow> bswap 2 w)"

definition be16_to_cpu :: "endian \<Rightarrow> u16 \<Rightarrow> u16" where
  "be16_to_cpu e w = (case e of BigEndian \<Rightarrow> w | LittleEndian \<Rightarrow> bswap 2 w)"

definition cpu_to_be32 :: "endian \<Rightarrow> u32 \<Rightarrow> u32" where
  "cpu_to_be32 e w = (case e of BigEndian \<Rightarrow> w | LittleEndian \<Rightarrow> bswap 4 w)"

definition be32_to_cpu :: "endian \<Rightarrow> u32 \<Rightarrow> u32" where
  "be32_to_cpu e w = (case e of BigEndian \<Rightarrow> w | LittleEndian \<Rightarrow> bswap 4 w)"

definition cpu_to_be64 :: "endian \<Rightarrow> u64 \<Rightarrow> u64" where
  "cpu_to_be64 e w = (case e of BigEndian \<Rightarrow> w | LittleEndian \<Rightarrow> bswap 8 w)"

text \<open>Reading and writing an \<open>n\<close>-byte integer object in the CPU's byte order.\<close>

definition load_native :: "endian \<Rightarrow> u8 list \<Rightarrow> 'a::len word" where
  "load_native e bs = (case e of BigEndian \<Rightarrow> be_word bs | LittleEndian \<Rightarrow> be_word (rev bs))"

definition store_native :: "endian \<Rightarrow> nat \<Rightarrow> 'a::len word \<Rightarrow> u8 list" where
  "store_native e n w = (case e of BigEndian \<Rightarrow> be_bytes n w | LittleEndian \<Rightarrow> rev (be_bytes n w))"

subsection \<open>Views of a block\<close>

text \<open>
  Modelled from the spec: \<open>union gcm_block\<close> is declared in \<open>ipxe/gcm.h\<close>, which is
  not part of the sources.  The spec gives its views: sixteen bytes, eight 16-bit
  words, four 32-bit words, the lengths block (\<open>add\<close> in bytes 0..7, \<open>data\<close> in
  bytes 8..15) and the counter block (\<open>iv\<close> in bytes 0..11, \<open>value\<close> in bytes
  12..15).
\<close>

definition zero_block :: block where
  "zero_block = replicate 16 0"

definition get_word0 :: "endian \<Rightarrow> block \<Rightarrow> u16" where
  "get_word0 e b = load_native e (take 2 b)"

definition set_word0 :: "endian \<Rightarrow> block \<Rightarrow> u16 \<Rightarrow> block" where
  "set_word0 e b w = store_native e 2 w @ drop 2 b"

definition get_dword :: "endian \<Rightarrow> block \<Rightarrow> nat \<Rightarrow> u32" where
  "get_dword e b k = load_native e (take 4 (drop (4 * k) b))"

definition set_dword :: "endian \<Rightarrow> block \<Rightarrow> nat \<Rightarrow> u32 \<Rightarrow> block" where
  "set_dword e b k w = take (4 * k) b @ store_native e 4 w @ drop (4 * k + 4) b"

definition set_len_add :: "endian \<Rightarrow> block \<Rightarrow> u64 \<Rightarrow> block" where
  "set_len_add e b w = store_native e 8 w @ drop 8 b"

definition set_len_data :: "endian \<Rightarrow> block \<Rightarrow> u64 \<Rightarrow> block" where
  "set_len_data e b w = take 8 b @ store_native e 8 w @ drop 16 b"

definition get_ctr_value :: "endian \<Rightarrow> block \<Rightarrow> u32" where
  "get_ctr_value e b = load_native e (take 4 (drop 12 b))"

definition set_ctr_value :: "endian \<Rightarrow> block \<Rightarrow> u32 \<Rightarrow> block" where
  "set_ctr_value e b w = take 12 b @ store_native e 4 w @ drop 16 b"

definition set_ctr_iv :: "block \<Rightarrow> u8 list \<Rightarrow> block" where
  "set_ctr_iv b iv = iv @ drop (length iv) b"

section \<open>Field arithmetic\<close>

definition GCM_POLY :: u8 where
  "GCM_POLY = 0xe1"

text \<open>
  \<open>gcm_reverse\<close>: the loop runs while \<open>mask\<close> (here \<open>msk\<close>), an 8-bit value
  shifted left each round, is nonzero.  The local \<open>etyb\<close> starts uninitialised in the source; its
  starting value is the third argument of the loop.
\<close>

function gcm_reverse_loop :: "u8 \<Rightarrow> u8 \<Rightarrow> u8 \<Rightarrow> u8" where
  "gcm_reverse_loop byte msk etyb =
     (if msk = 0 then etyb
      else (let etyb1 = push_bit 1 etyb;
                etyb2 = (if byte AND msk \<noteq> 0 then etyb1 OR 1 else etyb1)
            in gcm_reverse_loop byte (push_bit 1 msk) etyb2))"
  by pat_completeness auto
termination
proof (relation "measure (\<lambda>(byte, msk, etyb). LEAST n. push_bit n msk = 0)")
  show "wf (measure (\<lambda>(byte, msk, etyb). LEAST n. push_bit n msk = (0::u8)))"
    by simp
next
  fix byte msk etyb etyb1 etyb2 :: u8
  assume nz: "msk \<noteq> 0"
  let ?k = "LEAST n. push_bit n msk = 0"
  have z: "push_bit ?k msk = 0"
    by (rule LeastI [of _ 8]) simp
  have "?k \<noteq> 0"
    using z nz by (cases "?k = 0") simp_all
  then obtain j where j: "?k = Suc j"
    by (auto simp: gr0_conv_Suc)
  have "push_bit j (push_bit 1 msk) = 0"
    using z j by (simp add: push_bit_push_bit)
  then have "(LEAST n. push_bit n (push_bit 1 msk) = 0) \<le> j"
    by (rule Least_le)
  then show "((byte, push_bit 1 msk, etyb2), (byte, msk, etyb)) \<in>
      measure (\<lambda>(byte, msk, etyb). LEAST n. push_bit n msk = 0)"
    using j by simp
qed

declare gcm_reverse_loop.simps [simp del]

definition gcm_reverse :: "u8 \<Rightarrow> u8" where
  "gcm_reverse byte = gcm_reverse_loop byte 1 0"

text \<open>\<open>gcm_count\<close>: add \<open>delta\<close> to the counter field, modulo \<open>2^32\<close>.\<close>

definition gcm_count :: "endian \<Rightarrow> block \<Rightarrow> u32 \<Rightarrow> block" where
  "gcm_count e ctr delta =
     set_ctr_value e ctr (cpu_to_be32 e (be32_to_cpu e (get_ctr_value e ctr) + delta))"

text \<open>
  \<open>gcm_xor\<close>: the arguments are the bytes found at \<open>src1\<close>, \<open>src2\<close> and \<open>dst\<close>;
  the result is the bytes at \<open>dst\<close> afterwards.  Every caller passes buffers of at
  least \<open>len\<close> bytes.
\<close>

fun gcm_xor :: "u8 list \<Rightarrow> u8 list \<Rightarrow> u8 list \<Rightarrow> nat \<Rightarrow> u8 list" where
  "gcm_xor (a # src1) (b # src2) (d # dst) (Suc len) = (a XOR b) # gcm_xor src1 src2 dst len"
| "gcm_xor src1 src2 dst len = dst"

definition gcm_xor_block :: "endian \<Rightarrow> block \<Rightarrow> block \<Rightarrow> block" where
  "gcm_xor_block e src dst =
     (let dst0 = set_dword e dst 0 (get_dword e dst 0 XOR get_dword e src 0);
          dst1 = set_dword e dst0 1 (get_dword e dst0 1 XOR get_dword e src 1);
          dst2 = set_dword e dst1 2 (get_dword e dst1 2 XOR get_dword e src 2);
          dst3 = set_dword e dst2 3 (get_dword e dst2 3 XOR get_dword e src 3)
      in dst3)"

text \<open>\<open>gcm_multiply_x\<close>: the loop over the sixteen bytes, then the reduction.\<close>

function gcm_multiply_x_loop :: "block \<Rightarrow> block \<Rightarrow> nat \<Rightarrow> u8 \<Rightarrow> block \<times> u8" where
  "gcm_multiply_x_loop mult res i carry =
     (if i < 16
      then (let byte = mult ! i;
                res' = res[i := push_bit 7 carry OR drop_bit 1 byte];
                carry' = byte AND 0x01
            in gcm_multiply_x_loop mult res' (i + 1) carry')
      else (res, carry))"
  by pat_completeness auto
termination
  by (relation "measure (\<lambda>(mult, res, i, carry). 16 - i)") auto

declare gcm_multiply_x_loop.simps [simp del]

definition gcm_multiply_x :: "block \<Rightarrow> block \<Rightarrow> block" where
  "gcm_multiply_x mult res =
     (let (res1, carry) = gcm_multiply_x_loop mult res 0 0
      in if carry \<noteq> 0 then res1[0 := res1 ! 0 XOR GCM_POLY] else res1)"

subsection \<open>The cached tables\<close>

text \<open>
  The file-scope variables \<open>gcm_cached_key\<close>, \<open>gcm_cached_mult[256]\<close> and
  \<open>gcm_cached_reduce[256]\<close>.  They live in \<open>.bss\<close>, so they start as zero.
\<close>

record gcm_statics =
  gcm_cached_key :: addr
  gcm_cached_mult :: "block list"
  gcm_cached_reduce :: "u16 list"

definition initial_statics :: gcm_statics where
  "initial_statics =
     \<lparr>gcm_cached_key = 0, gcm_cached_mult = replicate 256 zero_block,
      gcm_cached_reduce = replicate 256 0\<rparr>"

text \<open>One round of the loop of \<open>gcm_cache\<close>, for the loop variable \<open>i\<close>.\<close>

definition gcm_cache_step :: "endian \<Rightarrow> block \<Rightarrow> gcm_statics \<Rightarrow> nat \<Rightarrow> gcm_statics" where
  "gcm_cache_step e key st i =
     (let this = (ucast (gcm_reverse (of_nat i)) :: u32)
      in if this AND 0x80 \<noteq> 0
         then (let other = this AND 0x7f;
                   mult = gcm_xor key (gcm_cached_mult st ! unat other)
                            (gcm_cached_mult st ! unat this) 16;
                   reduce = gcm_cached_reduce st ! unat other;
                   reduce' = reduce XOR be16_to_cpu e (push_bit 8 (ucast GCM_POLY))
               in st\<lparr>gcm_cached_mult := (gcm_cached_mult st)[unat this := mult],
                      gcm_cached_reduce := (gcm_cached_reduce st)[unat this := reduce']\<rparr>)
         else (let other = push_bit 1 this;
                   mult = gcm_multiply_x (gcm_cached_mult st ! unat other)
                            (gcm_cached_mult st ! unat this);
                   reduce = be16_to_cpu e (gcm_cached_reduce st ! unat other);
                   reduce' = drop_bit 1 reduce
               in st\<lparr>gcm_cached_mult := (gcm_cached_mult st)[unat this := mult],
                      gcm_cached_reduce := (gcm_cached_reduce st)[unat this := cpu_to_be16 e reduce']\<rparr>))"

function gcm_cache_loop :: "endian \<Rightarrow> block \<Rightarrow> gcm_statics \<Rightarrow> nat \<Rightarrow> gcm_statics" where
  "gcm_cache_loop e key st i =
     (if i < 256 then gcm_cache_loop e key (gcm_cache_step e key st i) (i + 1) else st)"
  by pat_completeness auto
termination
  by (relation "measure (\<lambda>(e, key, st, i). 256 - i)") auto

declare gcm_cache_loop.simps [simp del]

text \<open>\<open>gcm_cache\<close>: \<open>kp\<close> is the pointer \<open>key\<close>, \<open>key\<close> the block it points to.\<close>

definition gcm_cache :: "endian \<Rightarrow> addr \<Rightarrow> block \<Rightarrow> gcm_statics \<Rightarrow> gcm_statics" where
  "gcm_cache e kp key st = (gcm_cache_loop e key st 1)\<lparr>gcm_cached_key := kp\<rparr>"

text \<open>
  \<open>gcm_multiply_x_8\<close>.  The assertion that the tables have been built only
  reports; it does not change what the function computes.
\<close>

fun gcm_shift_bytes :: "block \<Rightarrow> nat \<Rightarrow> block" where
  "gcm_shift_bytes poly 0 = poly[0 := 0]"
| "gcm_shift_bytes poly (Suc i) = gcm_shift_bytes (poly[Suc i := poly ! i]) i"

definition gcm_multiply_x_8 :: "endian \<Rightarrow> gcm_statics \<Rightarrow> block \<Rightarrow> block" where
  "gcm_multiply_x_8 e st poly =
     (let msb = poly ! 15;
          poly1 = gcm_shift_bytes poly 15
      in set_word0 e poly1 (get_word0 e poly1 XOR gcm_cached_reduce st ! unat msb))"

text \<open>\<open>gcm_multiply_key\<close>: Shoup's method, rebuilding the tables when the cached
  pointer is not \<open>kp\<close>.  The result is the new \<open>poly\<close> and the statics.\<close>

fun gcm_shoup_loop :: "endian \<Rightarrow> gcm_statics \<Rightarrow> block \<Rightarrow> block \<Rightarrow> nat \<Rightarrow> block" where
  "gcm_shoup_loop e st poly res 0 = res"
| "gcm_shoup_loop e st poly res (Suc i) =
     (let res1 = gcm_multiply_x_8 e st res;
          res2 = gcm_xor_block e (gcm_cached_mult st ! unat (poly ! i)) res1
      in gcm_shoup_loop e st poly res2 i)"

definition gcm_multiply_key ::
  "endian \<Rightarrow> gcm_statics \<Rightarrow> addr \<Rightarrow> block \<Rightarrow> block \<Rightarrow> block \<times> gcm_statics" where
  "gcm_multiply_key e st kp key poly =
     (let st1 = (if gcm_cached_key st \<noteq> kp then gcm_cache e kp key st else st);
          res = gcm_cached_mult st1 ! unat (poly ! 15)
      in (gcm_shoup_loop e st1 poly res 15, st1))"

section \<open>The context, the cipher and the caller's memory\<close>

text \<open>
  Modelled from the spec: \<open>struct cipher_algorithm\<close> and the wrappers
  \<open>cipher_setkey\<close> and \<open>cipher_encrypt\<close> are declared in \<open>ipxe/crypto.h\<close>,
  which is not part of the sources.  The spec gives the two operations the core
  consumes: \<open>set_key\<close> initialises the opaque key schedule from the key bytes and
  returns a status (0 on success), \<open>encrypt_block\<close> is a deterministic function of
  the key schedule and the input block.
\<close>

record cipher_algorithm =
  cipher_setkey :: "u8 list \<Rightarrow> u8 list \<Rightarrow> int \<times> u8 list"
  cipher_encrypt :: "u8 list \<Rightarrow> block \<Rightarrow> block"

text \<open>
  Modelled from the spec: \<open>struct gcm_context\<close> is declared in \<open>ipxe/gcm.h\<close>,
  which is not part of the sources.  The fields are those of the spec's table;
  the two counters of \<open>len\<close> are kept as the 64-bit values the code reads and
  writes through \<open>len.len.add\<close> and \<open>len.len.data\<close>.  The layout assertions of
  \<open>gcm_setiv\<close> put \<open>key\<close> three blocks after the start of the context.
\<close>

record gcm_context =
  ctx_hash :: block
  ctx_len_add :: u64
  ctx_len_data :: u64
  ctx_ctr :: block
  ctx_key :: block
  raw_cipher :: cipher_algorithm
  raw_ctx :: "u8 list"

definition key_ptr :: "addr \<Rightarrow> addr" where
  "key_ptr context = context + 48"

text \<open>
  The caller's buffers live in a byte-addressed memory.  The context, the statics and
  the locals of the functions are taken not to overlap the caller's buffers.
\<close>

type_synonym memory = "addr \<Rightarrow> u8"

definition read_bytes :: "memory \<Rightarrow> addr \<Rightarrow> nat \<Rightarrow> u8 list" where
  "read_bytes mem p n = map (\<lambda>i. mem (p + i)) [0..<n]"

definition write_bytes :: "memory \<Rightarrow> addr \<Rightarrow> u8 list \<Rightarrow> memory" where
  "write_bytes mem p bs = (\<lambda>a. if p \<le> a \<and> a < p + length bs then bs ! (a - p) else mem a)"

text \<open>
  \<open>gcm_xor\<close> where \<open>src1\<close> and \<open>dst\<close> point into the caller's memory and \<open>src2\<close>
  is a local block: one byte at a time, in the order of the source, so that
  overlapping buffers behave as they do in the code.
\<close>

fun gcm_xor_mem :: "memory \<Rightarrow> addr \<Rightarrow> u8 list \<Rightarrow> addr \<Rightarrow> nat \<Rightarrow> memory" where
  "gcm_xor_mem mem src1 (b # src2) dst (Suc len) =
     gcm_xor_mem (mem(dst := mem src1 XOR b)) (src1 + 1) src2 (dst + 1) len"
| "gcm_xor_mem mem src1 src2 dst len = mem"

section \<open>Processing\<close>

text \<open>
  The state threaded through the operations is the context, the statics and the
  caller's memory.  \<open>context\<close> is the address of the context (it decides only
  whether the cached tables are reused).  The debug-only block number is left out.
\<close>

type_synonym gcm_state = "gcm_context \<times> gcm_statics \<times> memory"

function gcm_process_loop ::
  "endian \<Rightarrow> addr \<Rightarrow> gcm_state \<Rightarrow> addr \<Rightarrow> addr \<Rightarrow> addr \<Rightarrow> nat \<Rightarrow> gcm_state" where
  "gcm_process_loop e context (ctx, st, mem) src dst hash len =
     (if len = 0 then (ctx, st, mem)
      else (let frag_len = (if len > 16 then 16 else len);
                (ctx1, mem1, src1, dst1) =
                  (if dst \<noteq> 0
                   then (let ctr1 = gcm_count e (ctx_ctr ctx) 1;
                             tmp = cipher_encrypt (raw_cipher ctx) (raw_ctx ctx) ctr1
                         in (ctx\<lparr>ctx_ctr := ctr1\<rparr>, gcm_xor_mem mem src tmp dst frag_len,
                             src + frag_len, dst + frag_len))
                   else (ctx, mem, src, dst));
                h1 = gcm_xor (read_bytes mem1 hash frag_len) (ctx_hash ctx1) (ctx_hash ctx1)
                       frag_len;
                (h2, st1) = gcm_multiply_key e st (key_ptr context) (ctx_key ctx1) h1
            in gcm_process_loop e context (ctx1\<lparr>ctx_hash := h2\<rparr>, st1, mem1) src1 dst1
                 (hash + frag_len) (len - frag_len)))"
  by pat_completeness auto
termination
  by (relation "measure (\<lambda>(e, context, s, src, dst, hash, len). len)") auto

declare gcm_process_loop.simps [simp del]

text \<open>
  \<open>size_t\<close> is as wide as the build makes it: \<open>sz\<close> bits, 32 on i386 and 64 on
  x86_64.  A length is a natural number below \<open>2 ^ sz\<close>, and a product of two
  \<open>size_t\<close> values is taken modulo \<open>2 ^ sz\<close>.
\<close>

definition size_t_mult :: "nat \<Rightarrow> nat \<Rightarrow> nat \<Rightarrow> nat" where
  "size_t_mult sz a b = (a * b) mod 2 ^ sz"

text \<open>
  \<open>gcm_process\<close>.  The bit count \<open>len * 8\<close> is computed in \<open>size_t\<close> and only then
  added to the 64-bit total.
\<close>

definition gcm_process ::
  "endian \<Rightarrow> nat \<Rightarrow> addr \<Rightarrow> gcm_state \<Rightarrow> addr \<Rightarrow> addr \<Rightarrow> addr \<Rightarrow> nat \<Rightarrow> gcm_state" where
  "gcm_process e sz context s src dst hash len =
     (case s of (ctx, st, mem) \<Rightarrow>
        (let ctx1 = (if src \<noteq> 0
                     then ctx\<lparr>ctx_len_data := ctx_len_data ctx + of_nat (size_t_mult sz len 8)\<rparr>
                     else ctx\<lparr>ctx_len_add := ctx_len_add ctx + of_nat (size_t_mult sz len 8)\<rparr>)
         in gcm_process_loop e context (ctx1, st, mem) src dst hash len))"

text \<open>\<open>gcm_hash\<close>: \<open>hash\<close> is the block to fill in; the result is its new value.\<close>

definition gcm_hash ::
  "endian \<Rightarrow> addr \<Rightarrow> gcm_context \<times> gcm_statics \<Rightarrow> block \<Rightarrow> gcm_context \<times> gcm_statics \<times> block" where
  "gcm_hash e context s hash =
     (case s of (ctx, st) \<Rightarrow>
        (let hash1 = set_len_add e hash (cpu_to_be64 e (ctx_len_add ctx));
             hash2 = set_len_data e hash1 (cpu_to_be64 e (ctx_len_data ctx));
             hash3 = gcm_xor_block e (ctx_hash ctx) hash2;
             (hash4, st1) = gcm_multiply_key e st (key_ptr context) (ctx_key ctx) hash3
         in (ctx, st1, hash4)))"

text \<open>\<open>gcm_tag\<close>: \<open>tag\<close> is the caller's tag buffer, a block of its own.\<close>

definition gcm_tag ::
  "endian \<Rightarrow> addr \<Rightarrow> gcm_context \<times> gcm_statics \<Rightarrow> block \<Rightarrow> gcm_context \<times> gcm_statics \<times> block" where
  "gcm_tag e context s tag =
     (case gcm_hash e context s tag of (ctx, st, tag1) \<Rightarrow>
        (let tmp = ctx_ctr ctx;
             offset = (ucast ((- ctx_len_data ctx) div 128) :: u32);
             tmp1 = gcm_count e tmp offset;
             tmp2 = cipher_encrypt (raw_cipher ctx) (raw_ctx ctx) tmp1;
             tag2 = gcm_xor_block e tmp2 tag1
         in (ctx, st, tag2)))"

text \<open>
  \<open>gcm_setkey\<close>: \<open>key\<close> is the \<open>keylen\<close> bytes of the key.  The \<open>memset\<close> covers
  the fixed part of the context; the key schedule keeps what it held until the
  cipher initialises it.
\<close>

definition gcm_setkey ::
  "endian \<Rightarrow> addr \<Rightarrow> gcm_context \<times> gcm_statics \<Rightarrow> u8 list \<Rightarrow> cipher_algorithm
     \<Rightarrow> int \<times> gcm_context \<times> gcm_statics" where
  "gcm_setkey e context s key cipher =
     (case s of (ctx, st) \<Rightarrow>
        (let ctx0 = \<lparr>ctx_hash = zero_block, ctx_len_add = 0, ctx_len_data = 0,
                     ctx_ctr = zero_block, ctx_key = zero_block, raw_cipher = cipher,
                     raw_ctx = raw_ctx ctx\<rparr>;
             (rc, rctx) = cipher_setkey cipher (raw_ctx ctx0) key;
             ctx1 = ctx0\<lparr>raw_ctx := rctx\<rparr>
         in if rc \<noteq> 0 then (rc, ctx1, st)
            else (let ctx2 = ctx1\<lparr>ctx_key := cipher_encrypt cipher (raw_ctx ctx1) (ctx_ctr ctx1)\<rparr>;
                      ctx3 = ctx2\<lparr>ctx_ctr := set_ctr_value e (ctx_ctr ctx2) (cpu_to_be32 e 1)\<rparr>;
                      st1 = gcm_cache e (key_ptr context) (ctx_key ctx3) st
                  in (0, ctx3, st1))))"

text \<open>\<open>gcm_setiv\<close>: \<open>iv\<close> points to \<open>ivlen\<close> bytes of the caller's memory.\<close>

definition gcm_setiv :: "endian \<Rightarrow> nat \<Rightarrow> addr \<Rightarrow> gcm_state \<Rightarrow> addr \<Rightarrow> nat \<Rightarrow> gcm_state" where
  "gcm_setiv e sz context s iv ivlen =
     (case s of (ctx, st, mem) \<Rightarrow>
        (let ctx1 = ctx\<lparr>ctx_hash := zero_block, ctx_len_add := 0, ctx_len_data := 0,
                        ctx_ctr := zero_block\<rparr>;
             ctx2 = ctx1\<lparr>ctx_ctr := set_ctr_value e (ctx_ctr ctx1) (cpu_to_be32 e 1)\<rparr>
         in if ivlen = 12
            then (ctx2\<lparr>ctx_ctr := set_ctr_iv (ctx_ctr ctx2) (read_bytes mem iv ivlen)\<rparr>, st, mem)
            else (case gcm_process e sz context (ctx2, st, mem) iv 0 iv ivlen of
                    (ctx3, st3, mem3) \<Rightarrow>
                      (case gcm_hash e context (ctx3, st3) (ctx_ctr ctx3) of
                         (ctx4, st4, ctr4) \<Rightarrow>
                           (ctx4\<lparr>ctx_ctr := ctr4, ctx_hash := zero_block, ctx_len_add := 0,
                                 ctx_len_data := 0\<rparr>, st4, mem3)))))"

definition gcm_encrypt :: "endian \<Rightarrow> nat \<Rightarrow> addr \<Rightarrow> gcm_state \<Rightarrow> addr \<Rightarrow> addr \<Rightarrow> nat \<Rightarrow> gcm_state" where
  "gcm_encrypt e sz context s src dst len =
     (let (hash, src1) = (if dst \<noteq> 0 then (dst, src) else (src, 0))
      in gcm_process e sz context s src1 dst hash len)"

definition gcm_decrypt :: "endian \<Rightarrow> nat \<Rightarrow> addr \<Rightarrow> gcm_state \<Rightarrow> addr \<Rightarrow> addr \<Rightarrow> nat \<Rightarrow> gcm_state" where
  "gcm_decrypt e sz context s src dst len =
     (let hash = src;
          src1 = (if dst = 0 then 0 else src)
      in gcm_process e sz context s src1 dst hash len)"

section \<open>A small cipher for concrete runs\<close>

text \<open>
  A stand-in for the underlying block cipher, used where a statement is run on
  concrete data: the key schedule is the bytewise complement of the 16-byte key, a
  key of any other length is refused with a nonzero status, and a block is encrypted
  by reversing its bytes and XORing the complement of the schedule.
\<close>

definition toy_cipher :: cipher_algorithm where
  "toy_cipher =
     \<lparr>cipher_setkey =
        (\<lambda>ctx k. if length k = 16 then (0, map (\<lambda>b. b XOR 0xff) k) else (- 22, ctx)),
      cipher_encrypt = (\<lambda>ctx b. map2 (XOR) (map (\<lambda>b. b XOR 0xff) ctx) (rev b))\<rparr>"

definition toy_context :: gcm_context where
  "toy_context =
     \<lparr>ctx_hash = zero_block, ctx_len_add = 0, ctx_len_data = 0, ctx_ctr = zero_block,
      ctx_key = zero_block, raw_cipher = toy_cipher, raw_ctx = zero_block\<rparr>"

definition toy_key :: "u8 list" where
  "toy_key = [0x80, 1, 2, 3, 4, 5, 6, 7, 8, 9, 10, 11, 12, 13, 14, 15]"

definition toy_schedule :: "u8 list" where
  "toy_schedule =
     [0x7f, 0xfe, 0xfd, 0xfc, 0xfb, 0xfa, 0xf9, 0xf8, 0xf7, 0xf6, 0xf5, 0xf4, 0xf3, 0xf2, 0xf1, 0xf0]"

text \<open>
  A memory whose byte at address \<open>a\<close> is \<open>a mod 256\<close>, a memory of zero bytes, and the
  context and statics that \<open>gcm_setkey\<close> leaves for the small cipher at address 4096.
\<close>

definition toy_memory :: memory where
  "toy_memory = (\<lambda>a. of_nat a)"

definition zero_memory :: memory where
  "zero_memory = (\<lambda>a. 0)"

definition toy_keyed :: "gcm_context \<times> gcm_statics" where
  "toy_keyed = snd (gcm_setkey LittleEndian 4096 (toy_context, initial_statics) toy_key toy_cipher)"

section \<open>The field arithmetic as the spec words it\<close>

text \<open>
  \<open>mul_x\<close> follows the spec's description of multiplication by \<open>x\<close>: a right shift
  by one bit across the bytes, the bit shifted out of each byte entering the next one
  at the top, and \<open>0xE1\<close> XORed into byte 0 when the last byte's low bit was set.
\<close>

fun shift_right_bytes :: "u8 \<Rightarrow> u8 list \<Rightarrow> u8 list" where
  "shift_right_bytes c [] = []"
| "shift_right_bytes c (b # bs) = (push_bit 7 c OR drop_bit 1 b) # shift_right_bytes (b AND 1) bs"

fun carry_out :: "u8 \<Rightarrow> u8 list \<Rightarrow> u8" where
  "carry_out c [] = c"
| "carry_out c (b # bs) = carry_out (b AND 1) bs"

definition mul_x :: "block \<Rightarrow> block" where
  "mul_x b = (let r = shift_right_bytes 0 b
              in if carry_out 0 b \<noteq> 0 then r[0 := r ! 0 XOR 0xe1] else r)"

definition xor_bytes :: "u8 list \<Rightarrow> u8 list \<Rightarrow> u8 list" where
  "xor_bytes a b = map2 (XOR) a b"

text \<open>
  The product \<open>B \<cdot> H\<close> in the field.  The coefficient of \<open>x^i\<close> in a block is bit
  \<open>i mod 8\<close> of byte \<open>i div 8\<close>, counting bits from the top of the byte, so the
  coefficients in order of falling degree are the bytes from last to first, each read
  from its lowest bit up.  The product is evaluated by Horner's rule over these
  coefficients with \<open>mul_x\<close> as the multiplication by \<open>x\<close> modulo the field polynomial.
\<close>

definition coefficients :: "u8 \<Rightarrow> bool list" where
  "coefficients b = map (bit b) [0..<8]"

definition horner_step :: "block \<Rightarrow> block \<Rightarrow> bool \<Rightarrow> block" where
  "horner_step h acc c = xor_bytes (mul_x acc) (if c then h else zero_block)"

definition gf_mult_byte :: "block \<Rightarrow> u8 \<Rightarrow> block" where
  "gf_mult_byte h b = foldl (horner_step h) zero_block (coefficients b)"

definition gf_mult :: "block \<Rightarrow> block \<Rightarrow> block" where
  "gf_mult h b = foldl (horner_step h) zero_block (concat (map coefficients (rev b)))"

text \<open>The number a byte sequence denotes, most significant byte first.\<close>

fun be_nat :: "u8 list \<Rightarrow> nat" where
  "be_nat [] = 0"
| "be_nat (b # bs) = unat b * 256 ^ length bs + be_nat bs"

text \<open>
  The reduction table as the spec defines it: \<open>R[i]\<close> is \<open>x^128 \<cdot> P(i)\<close> modulo the
  field polynomial, of which only the top 16 bits can be nonzero.  \<open>x^128\<close> reduces
  to \<open>0xE1\<close> in the top byte, and the coefficient of \<open>x^j\<close> in \<open>P(i)\<close> is bit
  \<open>7 - j\<close> of \<open>i\<close>, which contributes \<open>0xE100\<close> shifted right by \<open>j\<close>; so bit \<open>k\<close>
  of \<open>i\<close> contributes \<open>0xE100\<close> shifted right by \<open>7 - k\<close>.  The value is the 16-bit
  number read big-endian from the top two bytes.
\<close>

fun reduce_bits :: "nat \<Rightarrow> u8 \<Rightarrow> u16" where
  "reduce_bits 0 i = 0"
| "reduce_bits (Suc k) i =
     reduce_bits k i XOR (if bit i k then drop_bit (7 - k) 0xe100 else 0)"

definition reduce_spec :: "u8 \<Rightarrow> u16" where
  "reduce_spec i = reduce_bits 8 i"

text \<open>The table index written and the index read in round \<open>i\<close> of \<open>gcm_cache\<close>.\<close>

definition cache_this :: "nat \<Rightarrow> u32" where
  "cache_this i = ucast (gcm_reverse (of_nat i))"

definition cache_other :: "nat \<Rightarrow> u32" where
  "cache_other i =
     (if cache_this i AND 0x80 \<noteq> 0 then cache_this i AND 0x7f else push_bit 1 (cache_this i))"

text \<open>
  The statics are well formed when both tables have 256 entries, entry 0 of each is
  zero and every block of the multiplication table has sixteen bytes.  The initial
  statics are, and \<open>gcm_cache\<close>, the only writer, never writes entry 0.
\<close>

definition statics_wf :: "gcm_statics \<Rightarrow> bool" where
  "statics_wf st \<longleftrightarrow>
     length (gcm_cached_mult st) = 256 \<and> length (gcm_cached_reduce st) = 256
     \<and> gcm_cached_mult st ! 0 = zero_block \<and> gcm_cached_reduce st ! 0 = 0
     \<and> list_all (\<lambda>b. length b = 16) (gcm_cached_mult st)"

text \<open>What round \<open>i\<close> of \<open>gcm_cache\<close> stores in the two tables, from the entry it reads
  (and, for the multiplication table, the block it overwrites).\<close>

definition reduce_step :: "endian \<Rightarrow> nat \<Rightarrow> u16 \<Rightarrow> u16" where
  "reduce_step e i x =
     (if cache_this i AND 0x80 \<noteq> 0
      then x XOR be16_to_cpu e (push_bit 8 (ucast GCM_POLY))
      else cpu_to_be16 e (drop_bit 1 (be16_to_cpu e x)))"

definition mult_step :: "block \<Rightarrow> nat \<Rightarrow> block \<Rightarrow> block \<Rightarrow> block" where
  "mult_step key i x d =
     (if cache_this i AND 0x80 \<noteq> 0 then gcm_xor key x d 16 else gcm_multiply_x x d)"

text \<open>The byte whose bits are those of \<open>b\<close> in the opposite order.\<close>

definition reversed_bits :: "u8 \<Rightarrow> u8" where
  "reversed_bits b =
     push_bit 1 (push_bit 1 (push_bit 1 (push_bit 1 (push_bit 1 (push_bit 1 (push_bit 1
       (of_bool (bit b 0)) OR of_bool (bit b 1)) OR of_bool (bit b 2)) OR of_bool (bit b 3))
       OR of_bool (bit b 4)) OR of_bool (bit b 5)) OR of_bool (bit b 6)) OR of_bool (bit b 7)"

text \<open>
  The tables hold what the spec prescribes for the hash key \<open>key\<close>: \<open>M0[i] = H \<cdot> P(i)\<close>
  and \<open>R[i]\<close> in the byte order of the CPU.  The statics serve a context whose key
  block lies at \<open>kp\<close> when they are well formed and, if they are marked as built for
  \<open>kp\<close>, hold the tables of that context's key.
\<close>

definition tables_for :: "endian \<Rightarrow> block \<Rightarrow> gcm_statics \<Rightarrow> bool" where
  "tables_for e key st \<longleftrightarrow>
     gcm_cached_mult st = map (\<lambda>n. gf_mult_byte key (of_nat n)) [0..<256]
     \<and> gcm_cached_reduce st = map (\<lambda>n. cpu_to_be16 e (reduce_spec (of_nat n))) [0..<256]"

definition cache_ok :: "endian \<Rightarrow> addr \<Rightarrow> block \<Rightarrow> gcm_statics \<Rightarrow> bool" where
  "cache_ok e kp key st \<longleftrightarrow>
     statics_wf st \<and> (if gcm_cached_key st = kp then tables_for e key st else True)"

section \<open>GHASH and counter mode as the spec words them\<close>

text \<open>
  \<open>inc32\<close>: the last four bytes, read as a big-endian integer, plus one modulo
  \<open>2^32\<close>; the first twelve bytes stay.
\<close>

definition inc32 :: "block \<Rightarrow> block" where
  "inc32 ctr = take 12 ctr @ be_bytes 4 ((be_word (drop 12 ctr) :: u32) + 1)"

text \<open>
  The GHASH accumulator: each block of sixteen bytes \<open>B\<close> turns \<open>Y\<close> into
  \<open>(Y \<oplus> B) \<cdot> H\<close>; a shorter last block is padded with zero bytes on the right.
\<close>

definition pad_block :: "u8 list \<Rightarrow> block" where
  "pad_block bs = bs @ replicate (16 - length bs) 0"

function ghash_bytes :: "block \<Rightarrow> block \<Rightarrow> u8 list \<Rightarrow> block" where
  "ghash_bytes h y bs =
     (if bs = [] then y
      else ghash_bytes h (gf_mult h (xor_bytes y (pad_block (take 16 bs)))) (drop 16 bs))"
  by pat_completeness auto
termination
  by (relation "measure (\<lambda>(h, y, bs). length bs)") auto

declare ghash_bytes.simps [simp del]

text \<open>
  The counter-mode keystream: for each block of up to sixteen bytes the counter is
  incremented and encrypted, and as many bytes of the result as the block has are
  XORed into it.
\<close>

function ctr_crypt :: "cipher_algorithm \<Rightarrow> u8 list \<Rightarrow> block \<Rightarrow> u8 list \<Rightarrow> u8 list" where
  "ctr_crypt c k ctr bs =
     (if bs = [] then []
      else xor_bytes (take 16 bs) (cipher_encrypt c k (inc32 ctr))
             @ ctr_crypt c k (inc32 ctr) (drop 16 bs))"
  by pat_completeness auto
termination
  by (relation "measure (\<lambda>(c, k, ctr, bs). length bs)") auto

declare ctr_crypt.simps [simp del]

text \<open>
  What the operations keep true of a context that has been through \<open>gcm_setkey\<close>
  with a cipher whose \<open>encrypt\<close> maps blocks to blocks: its three blocks have sixteen
  bytes each, and the statics serve it.
\<close>

definition block_cipher :: "cipher_algorithm \<Rightarrow> u8 list \<Rightarrow> bool" where
  "block_cipher c k \<longleftrightarrow> (\<forall>b. length b = 16 \<longrightarrow> length (cipher_encrypt c k b) = 16)"

definition context_wf :: "gcm_context \<Rightarrow> bool" where
  "context_wf ctx \<longleftrightarrow>
     length (ctx_hash ctx) = 16 \<and> length (ctx_ctr ctx) = 16 \<and> length (ctx_key ctx) = 16
     \<and> block_cipher (raw_cipher ctx) (raw_ctx ctx)"

definition session_ok :: "endian \<Rightarrow> addr \<Rightarrow> gcm_context \<Rightarrow> gcm_statics \<Rightarrow> bool" where
  "session_ok e context ctx st \<longleftrightarrow>
     context_wf ctx \<and> cache_ok e (key_ptr context) (ctx_key ctx) st"

text \<open>Zero bytes appended up to the next multiple of sixteen.\<close>

definition zero_pad :: "u8 list \<Rightarrow> u8 list" where
  "zero_pad bs = bs @ replicate ((16 - length bs mod 16) mod 16) 0"

text \<open>
  \<open>GHASH(H, X)\<close> for a byte string \<open>X\<close>, starting from the zero block.
\<close>

definition GHASH :: "block \<Rightarrow> u8 list \<Rightarrow> block" where
  "GHASH h x = ghash_bytes h zero_block x"

section \<open>Sequences of calls on one context\<close>

text \<open>
  What a caller does between \<open>gcm_setiv\<close> and \<open>gcm_tag\<close>: calls of \<open>gcm_encrypt\<close> and
  \<open>gcm_decrypt\<close> (source, destination, length; a null destination makes the call
  one of additional data) and writes of its own into its buffers.
\<close>

datatype gcm_call = Encrypt addr addr nat | Decrypt addr addr nat | Caller_Writes addr "u8 list"

fun gcm_step :: "endian \<Rightarrow> nat \<Rightarrow> addr \<Rightarrow> gcm_state \<Rightarrow> gcm_call \<Rightarrow> gcm_state" where
  "gcm_step e sz context s (Encrypt src dst len) = gcm_encrypt e sz context s src dst len"
| "gcm_step e sz context s (Decrypt src dst len) = gcm_decrypt e sz context s src dst len"
| "gcm_step e sz context s (Caller_Writes p bs) =
     (case s of (ctx, st, mem) \<Rightarrow> (ctx, st, write_bytes mem p bs))"

definition gcm_run :: "endian \<Rightarrow> nat \<Rightarrow> addr \<Rightarrow> gcm_state \<Rightarrow> gcm_call list \<Rightarrow> gcm_state" where
  "gcm_run e sz context s calls = foldl (gcm_step e sz context) s calls"

fun is_data :: "gcm_call \<Rightarrow> bool" where
  "is_data (Encrypt src dst len) = (dst \<noteq> 0)"
| "is_data (Decrypt src dst len) = (dst \<noteq> 0)"
| "is_data (Caller_Writes p bs) = False"

fun has_source :: "gcm_call \<Rightarrow> bool" where
  "has_source (Encrypt src dst len) = (src \<noteq> 0)"
| "has_source (Decrypt src dst len) = (src \<noteq> 0)"
| "has_source (Caller_Writes p bs) = True"

fun data_bytes :: "gcm_call \<Rightarrow> nat" where
  "data_bytes (Encrypt src dst len) = (if dst \<noteq> 0 then len else 0)"
| "data_bytes (Decrypt src dst len) = (if dst \<noteq> 0 then len else 0)"
| "data_bytes (Caller_Writes p bs) = 0"

fun aad_bytes :: "gcm_call \<Rightarrow> nat" where
  "aad_bytes (Encrypt src dst len) = (if dst = 0 then len else 0)"
| "aad_bytes (Decrypt src dst len) = (if dst = 0 then len else 0)"
| "aad_bytes (Caller_Writes p bs) = 0"

definition data_length :: "gcm_call list \<Rightarrow> nat" where
  "data_length calls = sum_list (map data_bytes calls)"

definition aad_length :: "gcm_call list \<Rightarrow> nat" where
  "aad_length calls = sum_list (map aad_bytes calls)"

text \<open>
  The sequences the tag is specified for: every data call has a source, and a data call
  whose length is not a multiple of sixteen is the last data call.
\<close>

fun well_formed_calls :: "gcm_call list \<Rightarrow> bool" where
  "well_formed_calls [] = True"
| "well_formed_calls (c # cs) =
     ((if is_data c then has_source c \<and> (16 dvd data_bytes c \<or> \<not> list_ex is_data cs) else True)
      \<and> well_formed_calls cs)"

text \<open>The calls whose length in bits fits a \<open>size_t\<close> of \<open>sz\<close> bits.\<close>

definition calls_fit :: "nat \<Rightarrow> gcm_call list \<Rightarrow> bool" where
  "calls_fit sz calls = list_all (\<lambda>c. (data_bytes c + aad_bytes c) * 8 < 2 ^ sz) calls"

text \<open>
  A session: \<open>gcm_setkey\<close>, \<open>gcm_setiv\<close>, then the calls.  \<open>gcm_started\<close> is the state
  the calls start from.
\<close>

definition gcm_started ::
  "endian \<Rightarrow> nat \<Rightarrow> addr \<Rightarrow> gcm_context \<times> gcm_statics \<Rightarrow> memory \<Rightarrow> u8 list \<Rightarrow> cipher_algorithm
     \<Rightarrow> addr \<Rightarrow> nat \<Rightarrow> gcm_state" where
  "gcm_started e sz context s0 mem key cipher iv ivlen =
     (case gcm_setkey e context s0 key cipher of
        (rc, ctx, st) \<Rightarrow> gcm_setiv e sz context (ctx, st, mem) iv ivlen)"

definition gcm_session ::
  "endian \<Rightarrow> nat \<Rightarrow> addr \<Rightarrow> gcm_context \<times> gcm_statics \<Rightarrow> memory \<Rightarrow> u8 list \<Rightarrow> cipher_algorithm
     \<Rightarrow> addr \<Rightarrow> nat \<Rightarrow> gcm_call list \<Rightarrow> gcm_state" where
  "gcm_session e sz context s0 mem key cipher iv ivlen calls =
     gcm_run e sz context (gcm_started e sz context s0 mem key cipher iv ivlen) calls"

text \<open>The tag that \<open>gcm_tag\<close> writes in a state, into a buffer holding \<open>buf\<close>.\<close>

definition gcm_tag_of :: "endian \<Rightarrow> addr \<Rightarrow> gcm_state \<Rightarrow> block \<Rightarrow> block" where
  "gcm_tag_of e context s buf =
     (case s of (ctx, st, mem) \<Rightarrow> snd (snd (gcm_tag e context (ctx, st) buf)))"

section \<open>The effect of a call\<close>

text \<open>
  What a call does to the context and to the memory, written with \<open>ctr_crypt\<close> and
  \<open>ghash_bytes\<close>: the bytes it writes, where it writes them, and the bytes it hashes.
\<close>

fun call_output :: "gcm_context \<Rightarrow> memory \<Rightarrow> gcm_call \<Rightarrow> u8 list" where
  "call_output ctx mem (Encrypt src dst len) =
     (if dst \<noteq> 0
      then ctr_crypt (raw_cipher ctx) (raw_ctx ctx) (ctx_ctr ctx) (read_bytes mem src len) else [])"
| "call_output ctx mem (Decrypt src dst len) =
     (if dst \<noteq> 0
      then ctr_crypt (raw_cipher ctx) (raw_ctx ctx) (ctx_ctr ctx) (read_bytes mem src len) else [])"
| "call_output ctx mem (Caller_Writes p bs) = bs"

fun call_target :: "gcm_call \<Rightarrow> addr" where
  "call_target (Encrypt src dst len) = dst"
| "call_target (Decrypt src dst len) = dst"
| "call_target (Caller_Writes p bs) = p"

fun call_hashed :: "gcm_context \<Rightarrow> memory \<Rightarrow> gcm_call \<Rightarrow> u8 list" where
  "call_hashed ctx mem (Encrypt src dst len) =
     (if dst \<noteq> 0
      then ctr_crypt (raw_cipher ctx) (raw_ctx ctx) (ctx_ctr ctx) (read_bytes mem src len)
      else read_bytes mem src len)"
| "call_hashed ctx mem (Decrypt src dst len) = read_bytes mem src len"
| "call_hashed ctx mem (Caller_Writes p bs) = []"

definition call_effect :: "nat \<Rightarrow> gcm_context \<times> memory \<Rightarrow> gcm_call \<Rightarrow> gcm_context \<times> memory" where
  "call_effect sz s c =
     (case s of (ctx, mem) \<Rightarrow>
        (ctx\<lparr>ctx_len_add := ctx_len_add ctx + of_nat (size_t_mult sz (aad_bytes c) 8),
             ctx_len_data := ctx_len_data ctx + of_nat (size_t_mult sz (data_bytes c) 8),
             ctx_ctr := (inc32 ^^ ((data_bytes c + 15) div 16)) (ctx_ctr ctx),
             ctx_hash := ghash_bytes (ctx_key ctx) (ctx_hash ctx) (call_hashed ctx mem c)\<rparr>,
         write_bytes mem (call_target c) (call_output ctx mem c)))"

text \<open>
  The buffers for which that holds: an encrypting call may work in place or on
  buffers that do not overlap with the destination ahead of the source; a decrypting
  call reads its hash input from the source after writing the destination, so its
  buffers must not overlap at all.
\<close>

fun buffers_ok :: "gcm_call \<Rightarrow> bool" where
  "buffers_ok (Encrypt src dst len) = (dst = 0 \<or> (src \<noteq> 0 \<and> (dst \<le> src \<or> src + len \<le> dst)))"
| "buffers_ok (Decrypt src dst len) =
     (dst = 0 \<or> (src \<noteq> 0 \<and> (src + len \<le> dst \<or> dst + len \<le> src)))"
| "buffers_ok (Caller_Writes p bs) = True"

text \<open>
  One input delivered as successive calls of the given lengths, each call starting
  where the one before it stopped.
\<close>

fun fragments :: "(addr \<Rightarrow> addr \<Rightarrow> nat \<Rightarrow> gcm_call) \<Rightarrow> addr \<Rightarrow> addr \<Rightarrow> nat list \<Rightarrow> gcm_call list" where
  "fragments mk src dst [] = []"
| "fragments mk src dst (n # ns) =
     mk src dst n # fragments mk (src + n) (if dst = 0 then 0 else dst + n) ns"

text \<open>
  The context that \<open>gcm_setkey\<close> and \<open>gcm_setiv\<close> leave, from the key schedule \<open>rk\<close> and
  the bytes of the initialisation vector.
\<close>

definition started_context :: "nat \<Rightarrow> cipher_algorithm \<Rightarrow> u8 list \<Rightarrow> u8 list \<Rightarrow> gcm_context" where
  "started_context sz cipher rk ivb =
     \<lparr>ctx_hash = zero_block, ctx_len_add = 0, ctx_len_data = 0,
      ctx_ctr =
        (if length ivb = 12 then ivb @ [0, 0, 0, 1]
         else GHASH (cipher_encrypt cipher rk zero_block)
                (zero_pad ivb @ replicate 8 0
                   @ be_bytes 8 (of_nat (size_t_mult sz (length ivb) 8) :: u64))),
      ctx_key = cipher_encrypt cipher rk zero_block, raw_cipher = cipher, raw_ctx = rk\<rparr>"

text \<open>
  One round of the loop of \<open>gcm_process\<close> on a fragment of \<open>frag_len\<close> bytes, as a
  function of its own.
\<close>

definition gcm_process_round ::
  "endian \<Rightarrow> addr \<Rightarrow> gcm_state \<Rightarrow> addr \<Rightarrow> addr \<Rightarrow> addr \<Rightarrow> nat \<Rightarrow> gcm_state" where
  "gcm_process_round e context s src dst hash frag_len =
     (case s of (ctx, st, mem) \<Rightarrow>
        (let (ctx1, mem1) =
               (if dst \<noteq> 0
                then (let ctr1 = gcm_count e (ctx_ctr ctx) 1;
                          tmp = cipher_encrypt (raw_cipher ctx) (raw_ctx ctx) ctr1
                      in (ctx\<lparr>ctx_ctr := ctr1\<rparr>, gcm_xor_mem mem src tmp dst frag_len))
                else (ctx, mem));
             h1 = gcm_xor (read_bytes mem1 hash frag_len) (ctx_hash ctx1) (ctx_hash ctx1) frag_len;
             (h2, st1) = gcm_multiply_key e st (key_ptr context) (ctx_key ctx1) h1
         in (ctx1\<lparr>ctx_hash := h2\<rparr>, st1, mem1)))"

text \<open>Setting the two lengths of the context of a state.\<close>

definition with_lengths :: "u64 \<Rightarrow> u64 \<Rightarrow> gcm_state \<Rightarrow> gcm_state" where
  "with_lengths a d s =
     (case s of (ctx, st, mem) \<Rightarrow> (ctx\<lparr>ctx_len_add := a, ctx_len_data := d\<rparr>, st, mem))"

section \<open>Concrete sessions\<close>

text \<open>
  The small cipher keyed with \<open>toy_key\<close> and started with the twelve bytes at address 16 as
  initialisation vector, on a little-endian build with a 32-bit \<open>size_t\<close>; and the same after
  one call encrypting 2^29 bytes.
\<close>

definition toy_started :: gcm_state where
  "toy_started =
     gcm_started LittleEndian 32 4096 (toy_context, initial_statics) toy_memory toy_key toy_cipher 16 12"

definition toy_long_session :: gcm_state where
  "toy_long_session = gcm_run LittleEndian 32 4096 toy_started [Encrypt 65536 1073741824 536870912]"

text \<open>
  Sixteen bytes at address 64 encrypted to address 256; then a new session with the same
  key and initialisation vector over the memory that holds the ciphertext, decrypting it
  to address 512, or in place.
\<close>

definition toy_encrypted :: gcm_state where
  "toy_encrypted = gcm_run LittleEndian 32 4096 toy_started [Encrypt 64 256 16]"

definition toy_restarted :: gcm_state where
  "toy_restarted =
     gcm_started LittleEndian 32 4096 (toy_context, initial_statics) (snd (snd toy_encrypted))
       toy_key toy_cipher 16 12"

definition toy_decrypted :: gcm_state where
  "toy_decrypted = gcm_run LittleEndian 32 4096 toy_restarted [Decrypt 256 512 16]"

definition toy_decrypted_in_place :: gcm_state where
  "toy_decrypted_in_place = gcm_run LittleEndian 32 4096 toy_restarted [Decrypt 256 256 16]"

text \<open>
  The counter block these sessions start from, the sixteen bytes at address 64, their
  ciphertext, and the context after sixteen bytes of data whose hash input was \<open>x\<close>.
\<close>

definition toy_j0 :: block where
  "toy_j0 = [16, 17, 18, 19, 20, 21, 22, 23, 24, 25, 26, 27, 0, 0, 0, 1]"

definition toy_plain :: "u8 list" where
  "toy_plain = [64, 65, 66, 67, 68, 69, 70, 71, 72, 73, 74, 75, 76, 77, 78, 79]"

definition toy_cipher_text :: "u8 list" where
  "toy_cipher_text = [194, 64, 64, 64, 91, 90, 89, 88, 87, 86, 85, 84, 83, 82, 81, 80]"

definition toy_after :: "u8 list \<Rightarrow> gcm_context" where
  "toy_after x =
     (fst toy_started)\<lparr>ctx_len_add := 0, ctx_len_data := 128,
        ctx_ctr := (inc32 ^^ ((16 + 15) div 16)) toy_j0,
        ctx_hash := ghash_bytes toy_key zero_block x\<rparr>"

section \<open>Byte order: basic facts\<close>

lemma be_word_snoc: "be_word (bs @ [b]) = push_bit 8 (be_word bs) OR ucast b"
  by (simp add: be_word_def)

lemma bit_be_word:
  "bit (be_word bs :: 'a::len word) k \<longleftrightarrow>
     k < LENGTH('a) \<and> k < 8 * length bs \<and> bit (bs ! (length bs - 1 - k div 8)) (k mod 8)"
proof (induction bs arbitrary: k rule: rev_induct)
  case Nil
  show ?case by (simp add: be_word_def)
next
  case (snoc b bs)
  show ?case
  proof (cases "k < 8")
    case True
    then show ?thesis
      by (auto simp: be_word_snoc bit_simps nth_append dest: bit_imp_le_length)
  next
    case False
    then have k8: "8 \<le> k" by simp
    have d: "k div 8 = Suc ((k - 8) div 8)" "k mod 8 = (k - 8) mod 8"
      using k8 by (simp_all add: le_div_geq le_mod_geq)
    have nb: "\<not> bit (ucast b :: 'a word) k"
      using k8 by (auto simp: bit_simps dest: bit_imp_le_length)
    have l: "bit (be_word (bs @ [b]) :: 'a word) k \<longleftrightarrow>
        k < LENGTH('a) \<and> bit (be_word bs :: 'a word) (k - 8)"
      using k8 nb by (auto simp: be_word_snoc bit_simps)
    show ?thesis
    proof (cases "k - 8 < 8 * length bs")
      case True
      then have lt: "length bs - 1 - (k - 8) div 8 < length bs"
        by (cases bs) auto
      have ix: "length (bs @ [b]) - 1 - k div 8 = length bs - 1 - (k - 8) div 8"
        by (simp add: d)
      have kk: "k < 8 * length (bs @ [b])" using True k8 by simp
      show ?thesis
        unfolding l snoc.IH ix using True kk lt
        by (auto simp: nth_append d dest: bit_imp_le_length)
    next
      case False
      then have "\<not> k < 8 * length (bs @ [b])" using k8 by simp
      then show ?thesis
        unfolding l snoc.IH using False by simp
    qed
  qed
qed

lemma length_be_bytes [simp]: "length (be_bytes n w) = n"
  by (simp add: be_bytes_def)

lemma nth_be_bytes: "i < n \<Longrightarrow> be_bytes n w ! i = ucast (drop_bit (8 * (n - 1 - i)) w)"
  by (simp add: be_bytes_def rev_nth)

lemma be_word_be_bytes:
  fixes w :: "'a::len word"
  assumes "LENGTH('a) \<le> 8 * n"
  shows "be_word (be_bytes n w) = w"
proof (rule bit_word_eqI)
  fix k assume k: "k < LENGTH('a)"
  then have kn: "k < 8 * n" using assms by simp
  then have i: "n - 1 - k div 8 < n" by (cases n) auto
  have e: "n - 1 - (n - 1 - k div 8) = k div 8"
    using kn by (cases n) auto
  show "bit (be_word (be_bytes n w) :: 'a word) k = bit w k"
    using k kn by (simp add: bit_be_word nth_be_bytes i e bit_simps)
qed

lemma be_bytes_be_word:
  assumes "length bs = n" "8 * n \<le> LENGTH('a::len)"
  shows "be_bytes n (be_word bs :: 'a word) = bs"
proof (rule nth_equalityI)
  show "length (be_bytes n (be_word bs :: 'a word)) = length bs" using assms by simp
next
  fix i assume "i < length (be_bytes n (be_word bs :: 'a word))"
  then have i: "i < n" by simp
  show "be_bytes n (be_word bs :: 'a word) ! i = bs ! i"
  proof (rule bit_word_eqI)
    fix k assume k: "k < LENGTH(8)"
    have a: "(8 * (n - 1 - i) + k) div 8 = n - 1 - i" "(8 * (n - 1 - i) + k) mod 8 = k"
      using k by simp_all
    have b: "8 * (n - 1 - i) + k < 8 * n" using i k by (cases n) auto
    have c: "n - 1 - (n - 1 - i) = i" using i by (cases n) auto
    show "bit (be_bytes n (be_word bs :: 'a word) ! i) k = bit (bs ! i) k"
      using i k assms b
      by (simp add: nth_be_bytes bit_simps bit_be_word a c)
  qed
qed

lemma be_bytes_xor:
  "be_bytes n (a XOR b) = map2 (XOR) (be_bytes n a) (be_bytes n b)"
  by (rule nth_equalityI) (auto simp: nth_be_bytes intro!: bit_word_eqI simp: bit_simps)

lemma bswap_be_word:
  "length bs = n \<Longrightarrow> 8 * n \<le> LENGTH('a::len) \<Longrightarrow> bswap n (be_word bs :: 'a word) = be_word (rev bs)"
  by (simp add: bswap_def be_bytes_be_word)

lemma be_bytes_bswap:
  "8 * n \<le> LENGTH('a::len) \<Longrightarrow> be_bytes n (bswap n (w :: 'a word)) = rev (be_bytes n w)"
  by (simp add: bswap_def be_bytes_be_word)

lemma store_native_cpu_to_be16: "store_native e 2 (cpu_to_be16 e w) = be_bytes 2 w"
  by (cases e) (simp_all add: store_native_def cpu_to_be16_def be_bytes_bswap)

lemma store_native_cpu_to_be32: "store_native e 4 (cpu_to_be32 e w) = be_bytes 4 w"
  by (cases e) (simp_all add: store_native_def cpu_to_be32_def be_bytes_bswap)

lemma store_native_cpu_to_be64: "store_native e 8 (cpu_to_be64 e w) = be_bytes 8 w"
  by (cases e) (simp_all add: store_native_def cpu_to_be64_def be_bytes_bswap)

lemma be16_to_cpu_load_native:
  "length bs = 2 \<Longrightarrow> be16_to_cpu e (load_native e bs) = be_word bs"
  by (cases e) (simp_all add: load_native_def be16_to_cpu_def bswap_be_word)

lemma be32_to_cpu_load_native:
  "length bs = 4 \<Longrightarrow> be32_to_cpu e (load_native e bs) = be_word bs"
  by (cases e) (simp_all add: load_native_def be32_to_cpu_def bswap_be_word)

lemma length_store_native [simp]: "length (store_native e n w) = n"
  by (cases e) (simp_all add: store_native_def)

lemma load_native_store_native:
  "LENGTH('a::len) \<le> 8 * n \<Longrightarrow> load_native e (store_native e n (w :: 'a word)) = w"
  by (cases e) (simp_all add: load_native_def store_native_def be_word_be_bytes)

lemma store_native_load_native:
  "length bs = n \<Longrightarrow> 8 * n \<le> LENGTH('a::len) \<Longrightarrow>
     store_native e n (load_native e bs :: 'a word) = bs"
  by (cases e) (simp_all add: load_native_def store_native_def be_bytes_be_word)

lemma store_native_xor:
  "store_native e n (a XOR b) = map2 (XOR) (store_native e n a) (store_native e n b)"
  by (cases e) (simp_all add: store_native_def be_bytes_xor zip_rev rev_map)

lemma gcm_count_bytes:
  assumes "16 \<le> length ctr"
  shows "gcm_count e ctr delta =
           take 12 ctr @ be_bytes 4 ((be_word (take 4 (drop 12 ctr)) :: u32) + delta) @ drop 16 ctr"
  using assms
  by (simp add: gcm_count_def set_ctr_value_def get_ctr_value_def store_native_cpu_to_be32
      be32_to_cpu_load_native)

section \<open>The counter\<close>

text \<open>
  C8: for every counter block and every \<open>delta\<close>, \<open>gcm_count\<close> adds \<open>delta\<close> to the last
  four bytes read as a big-endian 32-bit integer, modulo \<open>2^32\<close>, and leaves the first
  twelve bytes as they are, on either byte order of the CPU.
\<close>

theorem gcm_count_adds_mod_2_32:
  assumes "length ctr = 16"
  shows "take 12 (gcm_count e ctr delta) = take 12 ctr
       \<and> length (gcm_count e ctr delta) = 16
       \<and> (be_word (drop 12 (gcm_count e ctr delta)) :: u32) = be_word (drop 12 ctr) + delta
       \<and> unat (be_word (drop 12 (gcm_count e ctr delta)) :: u32)
           = (unat (be_word (drop 12 ctr) :: u32) + unat delta) mod 2 ^ 32"
  using assms
  by (simp add: gcm_count_bytes be_word_be_bytes unat_word_ariths)

theorem gcm_count_adds_mod_2_32_witness:
  "length [1, 2, 3, 4, 5, 6, 7, 8, 9, 10, 11, 12, 0xff, 0xff, 0xff, 0xfe :: u8] = 16
   \<and> gcm_count LittleEndian [1, 2, 3, 4, 5, 6, 7, 8, 9, 10, 11, 12, 0xff, 0xff, 0xff, 0xfe] 3
       = [1, 2, 3, 4, 5, 6, 7, 8, 9, 10, 11, 12, 0, 0, 0, 1]
   \<and> take 12 (gcm_count LittleEndian [1, 2, 3, 4, 5, 6, 7, 8, 9, 10, 11, 12, 0xff, 0xff, 0xff, 0xfe] 3)
       = [1, 2, 3, 4, 5, 6, 7, 8, 9, 10, 11, 12]
   \<and> unat (be_word (drop 12 (gcm_count LittleEndian
         [1, 2, 3, 4, 5, 6, 7, 8, 9, 10, 11, 12, 0xff, 0xff, 0xff, 0xfe] 3)) :: u32) = 1"
  using gcm_count_adds_mod_2_32 [of "[1, 2, 3, 4, 5, 6, 7, 8, 9, 10, 11, 12, 0xff, 0xff, 0xff, 0xfe]"
      LittleEndian 3]
  by (simp add: be_word_def) code_simp

section \<open>Key and initialisation vector\<close>

lemma replicate_12: "replicate 12 x = [x, x, x, x, x, x, x, x, x, x, x, x]"
  by (simp add: numeral_eq_Suc)

lemma replicate_14: "replicate 14 x = [x, x, x, x, x, x, x, x, x, x, x, x, x, x]"
  by (simp add: numeral_eq_Suc)

lemma replicate_15: "replicate 15 x = [x, x, x, x, x, x, x, x, x, x, x, x, x, x, x]"
  by (simp add: numeral_eq_Suc)

lemma replicate_16: "replicate 16 x = [x, x, x, x, x, x, x, x, x, x, x, x, x, x, x, x]"
  by (simp add: numeral_eq_Suc)

lemma be_bytes_4_1: "be_bytes 4 (1 :: u32) = [0, 0, 0, 1]"
  by (simp add: be_bytes_def upt_rec)

lemma gcm_setkey_rc:
  "fst (gcm_setkey e context (ctx, st) k cipher) = fst (cipher_setkey cipher (raw_ctx ctx) k)"
  by (simp add: gcm_setkey_def Let_def split: prod.splits)

lemma gcm_setkey_ctx:
  assumes "cipher_setkey cipher (raw_ctx ctx) k = (0, rctx)"
  shows "fst (snd (gcm_setkey e context (ctx, st) k cipher)) =
           \<lparr>ctx_hash = zero_block, ctx_len_add = 0, ctx_len_data = 0,
            ctx_ctr = replicate 12 0 @ [0, 0, 0, 1],
            ctx_key = cipher_encrypt cipher rctx zero_block,
            raw_cipher = cipher, raw_ctx = rctx\<rparr>"
  using assms
  by (simp add: gcm_setkey_def Let_def set_ctr_value_def store_native_cpu_to_be32 be_bytes_4_1
      zero_block_def)

lemma gcm_setkey_statics:
  assumes "cipher_setkey cipher (raw_ctx ctx) k = (0, rctx)"
  shows "snd (snd (gcm_setkey e context (ctx, st) k cipher)) =
           gcm_cache e (key_ptr context) (cipher_encrypt cipher rctx zero_block) st"
  using assms by (simp add: gcm_setkey_def Let_def)

text \<open>
  C9: the status returned by \<open>gcm_setkey\<close> is the status returned by the underlying
  cipher's \<open>setkey\<close>, whatever it is: zero exactly when the cipher accepted the key,
  and otherwise the cipher's own nonzero code.  The other four operations return no
  status at all; in the model they are total functions into the state.
\<close>

theorem gcm_setkey_propagates_status:
  "fst (gcm_setkey e context (ctx, st) k cipher) = fst (cipher_setkey cipher (raw_ctx ctx) k)"
  by (simp add: gcm_setkey_def Let_def split: prod.splits)

text \<open>
  C5: after a successful \<open>gcm_setkey\<close> the context holds the key schedule that the
  cipher's \<open>setkey\<close> made of the key \<open>k\<close>, the hash key of the context is the cipher's
  encryption of the all-zero block under that schedule, and the counter block is zero
  except for its last byte, which is 1.
\<close>

theorem gcm_setkey_hash_key_and_counter:
  assumes "fst (gcm_setkey e context (ctx, st) k cipher) = 0"
  shows "raw_ctx (fst (snd (gcm_setkey e context (ctx, st) k cipher)))
           = snd (cipher_setkey cipher (raw_ctx ctx) k)
       \<and> raw_cipher (fst (snd (gcm_setkey e context (ctx, st) k cipher))) = cipher
       \<and> ctx_key (fst (snd (gcm_setkey e context (ctx, st) k cipher)))
           = cipher_encrypt cipher (snd (cipher_setkey cipher (raw_ctx ctx) k)) (replicate 16 0)
       \<and> ctx_key (fst (snd (gcm_setkey e context (ctx, st) k cipher)))
           = cipher_encrypt cipher (raw_ctx (fst (snd (gcm_setkey e context (ctx, st) k cipher))))
               (replicate 16 0)
       \<and> ctx_ctr (fst (snd (gcm_setkey e context (ctx, st) k cipher)))
           = [0, 0, 0, 0, 0, 0, 0, 0, 0, 0, 0, 0, 0, 0, 0, 1]"
proof -
  obtain rc rctx where r: "cipher_setkey cipher (raw_ctx ctx) k = (rc, rctx)"
    by (cases "cipher_setkey cipher (raw_ctx ctx) k")
  with assms have "rc = 0" by (simp add: gcm_setkey_rc)
  with r show ?thesis
    by (simp add: gcm_setkey_ctx zero_block_def replicate_12)
qed

theorem gcm_setkey_hash_key_and_counter_witness:
  "fst (gcm_setkey LittleEndian 4096 (toy_context, initial_statics) toy_key toy_cipher) = 0
   \<and> raw_ctx (fst (snd (gcm_setkey LittleEndian 4096 (toy_context, initial_statics) toy_key
         toy_cipher))) = toy_schedule
   \<and> ctx_key (fst (snd (gcm_setkey LittleEndian 4096 (toy_context, initial_statics) toy_key
         toy_cipher))) = toy_key
   \<and> ctx_ctr (fst (snd (gcm_setkey LittleEndian 4096 (toy_context, initial_statics) toy_key
         toy_cipher))) = [0, 0, 0, 0, 0, 0, 0, 0, 0, 0, 0, 0, 0, 0, 0, 1]"
proof -
  have rc: "fst (gcm_setkey LittleEndian 4096 (toy_context, initial_statics) toy_key toy_cipher) = 0"
    by (simp add: gcm_setkey_rc toy_cipher_def toy_key_def)
  have sk: "snd (cipher_setkey toy_cipher (raw_ctx toy_context) toy_key) = toy_schedule"
    by (simp add: toy_cipher_def toy_key_def toy_schedule_def)
  have en: "cipher_encrypt toy_cipher toy_schedule (replicate 16 0) = toy_key"
    by (simp add: toy_cipher_def toy_key_def toy_schedule_def replicate_16)
  show ?thesis
    using gcm_setkey_hash_key_and_counter [OF rc] rc
    by (simp add: sk en)
qed

text \<open>
  C6: for a 12-byte initialisation vector, \<open>gcm_setiv\<close> leaves the counter block
  equal to the twelve bytes of the vector followed by the big-endian counter 1, and
  the hash and both lengths zero.
\<close>

theorem gcm_setiv_96_bit:
  "ctx_ctr (fst (gcm_setiv e sz context (ctx, st, mem) iv 12)) = read_bytes mem iv 12 @ [0, 0, 0, 1]
   \<and> ctx_hash (fst (gcm_setiv e sz context (ctx, st, mem) iv 12)) = replicate 16 0
   \<and> ctx_len_add (fst (gcm_setiv e sz context (ctx, st, mem) iv 12)) = 0
   \<and> ctx_len_data (fst (gcm_setiv e sz context (ctx, st, mem) iv 12)) = 0"
  by (simp add: gcm_setiv_def Let_def set_ctr_value_def set_ctr_iv_def store_native_cpu_to_be32
      be_bytes_4_1 zero_block_def read_bytes_def)

section \<open>Multiplication by \<open>x\<close>\<close>

lemma list16:
  assumes "length (xs :: 'a list) = 16"
  obtains x0 x1 x2 x3 x4 x5 x6 x7 x8 x9 x10 x11 x12 x13 x14 x15
  where "xs = [x0, x1, x2, x3, x4, x5, x6, x7, x8, x9, x10, x11, x12, x13, x14, x15]"
proof -
  from assms have "\<exists>x0 x1 x2 x3 x4 x5 x6 x7 x8 x9 x10 x11 x12 x13 x14 x15.
      xs = [x0, x1, x2, x3, x4, x5, x6, x7, x8, x9, x10, x11, x12, x13, x14, x15]"
    by (simp add: numeral_eq_Suc length_Suc_conv) blast
  then show ?thesis using that by blast
qed

lemma gcm_multiply_x_eq_mul_x:
  assumes "length mult = 16" "length res = 16"
  shows "gcm_multiply_x mult res = mul_x mult"
proof -
  obtain x0 x1 x2 x3 x4 x5 x6 x7 x8 x9 x10 x11 x12 x13 x14 x15
    where m: "mult = [x0, x1, x2, x3, x4, x5, x6, x7, x8, x9, x10, x11, x12, x13, x14, x15]"
    using assms(1) by (rule list16)
  obtain r0 r1 r2 r3 r4 r5 r6 r7 r8 r9 r10 r11 r12 r13 r14 r15
    where r: "res = [r0, r1, r2, r3, r4, r5, r6, r7, r8, r9, r10, r11, r12, r13, r14, r15]"
    using assms(2) by (rule list16)
  show ?thesis
    unfolding m r
    by (simp add: gcm_multiply_x_def mul_x_def gcm_multiply_x_loop.simps GCM_POLY_def)
qed

lemma length_shift_right_bytes [simp]: "length (shift_right_bytes c bs) = length bs"
  by (induction bs arbitrary: c) simp_all

lemma length_mul_x [simp]: "length (mul_x b) = length b"
  by (simp add: mul_x_def Let_def)

lemma length_xor_bytes [simp]: "length (xor_bytes a b) = min (length a) (length b)"
  by (simp add: xor_bytes_def)


lemma byte_shift_xor:
  "(push_bit 7 c XOR push_bit 7 c') OR (drop_bit (Suc 0) a XOR drop_bit (Suc 0) b) =
     (push_bit 7 c OR drop_bit (Suc 0) a) XOR (push_bit 7 c' OR drop_bit (Suc 0) (b :: u8))"
  by (rule bit_word_eqI) (auto simp: bit_simps dest: bit_imp_le_length)

lemma and_1_xor: "(a XOR b) AND 1 = (a AND 1) XOR (b AND (1 :: u8))"
  by (rule bit_word_eqI) (auto simp: bit_simps)

lemma shift_right_bytes_xor:
  "length a = length b \<Longrightarrow>
     shift_right_bytes (c XOR c') (xor_bytes a b) =
       xor_bytes (shift_right_bytes c a) (shift_right_bytes c' b)"
proof (induction a b arbitrary: c c' rule: list_induct2)
  case Nil
  show ?case by (simp add: xor_bytes_def)
next
  case (Cons x xs y ys)
  from Cons.IH [of "x AND 1" "y AND 1"] show ?case
    by (simp add: xor_bytes_def byte_shift_xor and_1_xor)
qed

lemma carry_out_xor:
  "length a = length b \<Longrightarrow>
     carry_out (c XOR c') (xor_bytes a b) = carry_out c a XOR carry_out c' b"
proof (induction a b arbitrary: c c' rule: list_induct2)
  case Nil
  show ?case by (simp add: xor_bytes_def)
next
  case (Cons x xs y ys)
  from Cons.IH [of "x AND 1" "y AND 1"] show ?case
    by (simp add: xor_bytes_def and_1_xor)
qed

lemma carry_out_le_1: "c AND 1 = c \<Longrightarrow> carry_out c bs AND 1 = carry_out c bs"
  by (induction bs arbitrary: c) (simp_all add: and.assoc)

lemma carry_out_cases: "carry_out 0 bs = 0 \<or> carry_out 0 bs = 1"
proof -
  have "carry_out 0 bs AND 1 = carry_out 0 bs"
    by (rule carry_out_le_1) simp
  then show ?thesis
    by (metis and_one_eq even_iff_mod_2_eq_zero not_mod_2_eq_0_eq_1)
qed

lemma xor_bytes_Nil [simp]: "xor_bytes [] b = []" "xor_bytes a [] = []"
  by (simp_all add: xor_bytes_def)

lemma xor_bytes_Cons [simp]: "xor_bytes (x # xs) (y # ys) = (x XOR y) # xor_bytes xs ys"
  by (simp add: xor_bytes_def)

lemma xor_bytes_commute: "xor_bytes a b = xor_bytes b a"
  unfolding xor_bytes_def
  by (induction a arbitrary: b) (auto simp: xor.commute split: list.splits, case_tac b, auto simp: xor.commute)

lemma xor_bytes_assoc: "xor_bytes (xor_bytes a b) c = xor_bytes a (xor_bytes b c)"
proof (induction a arbitrary: b c)
  case Nil show ?case by simp
next
  case (Cons x xs)
  show ?case by (cases b; cases c) (simp_all add: Cons.IH xor.assoc)
qed

lemma xor_bytes_zero_right: "length a = n \<Longrightarrow> xor_bytes a (replicate n 0) = a"
  by (induction a arbitrary: n) auto

lemma xor_bytes_zero_left: "length a = n \<Longrightarrow> xor_bytes (replicate n 0) a = a"
  by (induction a arbitrary: n) auto

lemma xor_bytes_self: "xor_bytes a a = replicate (length a) 0"
  by (induction a) auto

lemma mul_x_xor:
  assumes "length a = length b"
  shows "mul_x (xor_bytes a b) = xor_bytes (mul_x a) (mul_x b)"
proof (cases a)
  case Nil
  then show ?thesis using assms by (simp add: mul_x_def)
next
  case (Cons x xs)
  then obtain y ys where b: "b = y # ys" using assms by (cases b) auto
  have s: "shift_right_bytes 0 (xor_bytes a b) =
      xor_bytes (shift_right_bytes 0 a) (shift_right_bytes 0 b)"
    using shift_right_bytes_xor [OF assms, of 0 0] by simp
  have c: "carry_out 0 (xor_bytes a b) = carry_out 0 a XOR carry_out 0 b"
    using carry_out_xor [OF assms, of 0 0] by simp
  from carry_out_cases [of a] carry_out_cases [of b] show ?thesis
    unfolding mul_x_def Let_def s c
    by (auto simp: Cons b) (simp_all add: xor.assoc xor.commute xor.left_commute)
qed

lemma mul_x_zero: "mul_x (replicate n 0) = replicate n 0"
proof -
  have a: "shift_right_bytes 0 (replicate n 0) = replicate n 0"
    by (induction n) simp_all
  have b: "carry_out 0 (replicate n 0) = 0"
    by (induction n) simp_all
  show ?thesis by (simp add: mul_x_def a b)
qed

lemma length_funpow_mul_x [simp]: "length ((mul_x ^^ k) b) = length b"
  by (induction k) simp_all

lemma funpow_mul_x_xor:
  "length a = length b \<Longrightarrow>
     (mul_x ^^ k) (xor_bytes a b) = xor_bytes ((mul_x ^^ k) a) ((mul_x ^^ k) b)"
  by (induction k) (simp_all add: mul_x_xor)

lemma funpow_mul_x_zero: "(mul_x ^^ k) (replicate n 0) = replicate n 0"
  by (induction k) (simp_all add: mul_x_zero)

lemma be_nat_snoc: "be_nat (bs @ [b]) = 256 * be_nat bs + unat b"
  by (induction bs) (simp_all add: algebra_simps)

lemma be_nat_less: "be_nat bs < 256 ^ length bs"
proof (induction bs)
  case Nil show ?case by simp
next
  case (Cons b bs)
  define P :: nat where "P = 256 ^ length bs"
  have "unat b < 2 ^ LENGTH(8)" by (rule unsigned_less)
  then have "unat b \<le> 255" by simp
  then have "unat b * P \<le> 255 * P"
    by (rule mult_le_mono1)
  moreover have "be_nat bs < P" using Cons by (simp add: P_def)
  ultimately have "unat b * P + be_nat bs < 256 * P" by linarith
  then show ?case by (simp add: P_def)
qed

lemma be_nat_inj: "length a = length b \<Longrightarrow> be_nat a = be_nat b \<Longrightarrow> a = b"
proof (induction a b rule: list_induct2)
  case Nil show ?case by simp
next
  case (Cons x xs y ys)
  let ?P = "256 ^ length xs :: nat"
  have lx: "be_nat xs < ?P" by (rule be_nat_less)
  have ly: "be_nat ys < ?P" using be_nat_less [of ys] Cons.hyps by simp
  from Cons.prems have e: "unat x * ?P + be_nat xs = unat y * ?P + be_nat ys"
    using Cons.hyps by simp
  have "(unat x * ?P + be_nat xs) div ?P = unat x" using lx by simp
  moreover have "(unat y * ?P + be_nat ys) div ?P = unat y" using ly by simp
  ultimately have u: "unat x = unat y" using e by simp
  with e have "be_nat xs = be_nat ys" by simp
  with Cons.IH u show ?case by (simp add: word_unat_eq_iff)
qed

lemma unat_shift_byte:
  assumes "c AND 1 = c"
  shows "unat (push_bit 7 c OR drop_bit 1 (b :: u8)) = unat c * 128 + unat b div 2"
proof -
  define x where "x = drop_bit 1 b"
  from assms have c: "c = 0 \<or> c = 1"
    by (metis and_one_eq even_iff_mod_2_eq_zero not_mod_2_eq_0_eq_1)
  have d: "unat x = unat b div 2"
    unfolding x_def unat_drop_bit_eq by (simp add: drop_bit_eq_div)
  have "unat b < 2 ^ LENGTH(8)" by (rule unsigned_less)
  then have lt: "unat b div 2 < 128" by simp
  have nb: "\<not> bit x 7"
    unfolding x_def by (auto simp: bit_simps dest: bit_imp_le_length)
  have b128: "bit (128 :: u8) n \<longleftrightarrow> n = 7" for n
  proof -
    have "(128 :: u8) = push_bit 7 1" by simp
    then show ?thesis by (simp only: bit_simps) auto
  qed
  have o: "(128 :: u8) OR x = 128 + x"
    by (rule disjunctive_add [symmetric]) (use nb b128 in auto)
  have "unat (128 :: u8) + unat x < 2 ^ LENGTH(8)"
    using lt by (simp add: d)
  then have "unat (128 + x) = unat (128 :: u8) + unat x"
    by (simp only: unat_add_lem)
  then have u: "unat (128 + x) = 128 + unat b div 2"
    by (simp add: d)
  from c show ?thesis
  proof
    assume "c = 0" then show ?thesis using d by (simp add: x_def)
  next
    assume c1: "c = 1"
    have "push_bit 7 c OR drop_bit 1 b = 128 OR x" by (simp add: c1 x_def)
    then show ?thesis using u o c1 by simp
  qed
qed

lemma unat_and_1: "unat ((b :: u8) AND 1) = unat b mod 2"
  by (simp add: and_one_eq unat_mod)

lemma and_1_idem: "((b :: u8) AND 1) AND 1 = b AND 1"
  by (simp add: and.assoc)

lemma be_nat_shift_right_bytes:
  "c AND 1 = c \<Longrightarrow>
     be_nat (shift_right_bytes c bs) = (unat c * 256 ^ length bs + be_nat bs) div 2"
proof (induction bs arbitrary: c)
  case Nil
  then have "c = 0 \<or> c = 1"
    by (metis and_one_eq even_iff_mod_2_eq_zero not_mod_2_eq_0_eq_1)
  then show ?case by auto
next
  case (Cons b bs)
  define P :: nat where "P = 256 ^ length bs"
  define v where "v = be_nat bs"
  define ub where "ub = unat b"
  define uc where "uc = unat c"
  have ih: "be_nat (shift_right_bytes (b AND 1) bs) = (ub mod 2 * P + v) div 2"
    using Cons.IH [of "b AND 1"] by (simp add: and_1_idem unat_and_1 P_def v_def ub_def)
  have hd: "unat (push_bit 7 c OR drop_bit 1 b) = uc * 128 + ub div 2"
    using unat_shift_byte [OF Cons.prems] by (simp add: uc_def ub_def)
  have "be_nat (shift_right_bytes c (b # bs)) = (uc * 128 + ub div 2) * P + (ub mod 2 * P + v) div 2"
    using ih hd by (simp add: P_def)
  also have "\<dots> = (2 * ((uc * 128 + ub div 2) * P) + (ub mod 2 * P + v)) div 2"
    by simp
  also have "2 * ((uc * 128 + ub div 2) * P) + (ub mod 2 * P + v) = uc * (256 * P) + (ub * P + v)"
  proof -
    have "ub * P = (2 * (ub div 2) + ub mod 2) * P" by simp
    also have "\<dots> = 2 * ((ub div 2) * P) + ub mod 2 * P" 
      by (simp only: add_mult_distrib mult.assoc)
    finally show ?thesis by (simp add: add_mult_distrib)
  qed
  finally show ?case by (simp add: P_def v_def ub_def uc_def)
qed

lemma carry_out_odd:
  "bs \<noteq> [] \<Longrightarrow> carry_out c bs \<noteq> 0 \<longleftrightarrow> odd (be_nat bs)"
proof (induction bs arbitrary: c)
  case Nil then show ?case by simp
next
  case (Cons b bs)
  show ?case
  proof (cases bs)
    case Nil
    have "b AND 1 \<noteq> 0 \<longleftrightarrow> odd (unat b)"
      by (simp add: and_one_eq word_eq_iff_unsigned [where ?'a = nat] unat_mod) presburger
    then show ?thesis using Nil by simp
  next
    case (Cons y ys)
    then show ?thesis using Cons.IH [of "b AND 1"] by simp
  qed
qed

lemma mul_x_even:
  assumes "even (be_nat b)"
  shows "be_nat (mul_x b) = be_nat b div 2"
proof (cases b)
  case Nil then show ?thesis by (simp add: mul_x_def)
next
  case (Cons y ys)
  then have "carry_out 0 b = 0" using carry_out_odd [of b 0] assms by auto
  then show ?thesis
    using be_nat_shift_right_bytes [of 0 b] by (simp add: mul_x_def)
qed

lemma funpow_mul_x_dvd:
  "2 ^ k dvd be_nat b \<Longrightarrow> be_nat ((mul_x ^^ k) b) = be_nat b div 2 ^ k"
proof (induction k)
  case 0 show ?case by simp
next
  case (Suc k)
  from Suc.prems have d: "2 ^ k dvd be_nat b"
    by (metis dvd_mult_right power_Suc2 dvd_trans dvd_triv_left power_Suc)
  then have v: "be_nat ((mul_x ^^ k) b) = be_nat b div 2 ^ k" by (rule Suc.IH)
  from Suc.prems obtain q where q: "be_nat b = 2 ^ Suc k * q" by (auto elim: dvdE)
  then have "be_nat b div 2 ^ k = 2 * q" by simp
  then have ev: "even (be_nat ((mul_x ^^ k) b))" using v by simp
  have "be_nat ((mul_x ^^ Suc k) b) = be_nat ((mul_x ^^ k) b) div 2"
    using mul_x_even [OF ev] by simp
  also have "\<dots> = be_nat b div (2 ^ k * 2)"
    unfolding v by (rule div_mult2_eq [symmetric])
  finally show ?case by (simp add: mult.commute)
qed

lemma funpow_mul_x_high:
  "(mul_x ^^ 8) (bs @ [0]) = 0 # bs"
proof (rule be_nat_inj)
  show "length ((mul_x ^^ 8) (bs @ [0])) = length (0 # bs)" by simp
next
  have "be_nat ((mul_x ^^ 8) (bs @ [0])) = be_nat (bs @ [0]) div 2 ^ 8"
    by (rule funpow_mul_x_dvd) (simp add: be_nat_snoc)
  then show "be_nat ((mul_x ^^ 8) (bs @ [0])) = be_nat (0 # bs)"
    by (simp add: be_nat_snoc)
qed

section \<open>Bit reversal\<close>

lemma and_mask_bit:
  "((b :: u8) AND 1 \<noteq> 0) = bit b 0" "(b AND 2 \<noteq> 0) = bit b 1" "(b AND 4 \<noteq> 0) = bit b 2"
  "(b AND 8 \<noteq> 0) = bit b 3" "(b AND 16 \<noteq> 0) = bit b 4" "(b AND 32 \<noteq> 0) = bit b 5"
  "(b AND 64 \<noteq> 0) = bit b 6" "(b AND 128 \<noteq> 0) = bit b 7"
  using and_exp_eq_0_iff_not_bit [of b 0] and_exp_eq_0_iff_not_bit [of b 1]
    and_exp_eq_0_iff_not_bit [of b 2] and_exp_eq_0_iff_not_bit [of b 3]
    and_exp_eq_0_iff_not_bit [of b 4] and_exp_eq_0_iff_not_bit [of b 5]
    and_exp_eq_0_iff_not_bit [of b 6] and_exp_eq_0_iff_not_bit [of b 7]
  by simp_all

lemma gcm_reverse_loop_steps:
  "gcm_reverse_loop b 1 acc = gcm_reverse_loop b 2 (push_bit 1 acc OR of_bool (bit b 0))"
  "gcm_reverse_loop b 2 acc = gcm_reverse_loop b 4 (push_bit 1 acc OR of_bool (bit b 1))"
  "gcm_reverse_loop b 4 acc = gcm_reverse_loop b 8 (push_bit 1 acc OR of_bool (bit b 2))"
  "gcm_reverse_loop b 8 acc = gcm_reverse_loop b 16 (push_bit 1 acc OR of_bool (bit b 3))"
  "gcm_reverse_loop b 16 acc = gcm_reverse_loop b 32 (push_bit 1 acc OR of_bool (bit b 4))"
  "gcm_reverse_loop b 32 acc = gcm_reverse_loop b 64 (push_bit 1 acc OR of_bool (bit b 5))"
  "gcm_reverse_loop b 64 acc = gcm_reverse_loop b 128 (push_bit 1 acc OR of_bool (bit b 6))"
  "gcm_reverse_loop b 128 acc = gcm_reverse_loop b 0 (push_bit 1 acc OR of_bool (bit b 7))"
  "gcm_reverse_loop b 0 acc = acc"
  by (subst gcm_reverse_loop.simps, simp add: and_mask_bit)+

lemma gcm_reverse_bits: "gcm_reverse b = reversed_bits b"
  unfolding gcm_reverse_def reversed_bits_def
  by (simp only: gcm_reverse_loop_steps) simp

lemma less_8_cases: "k < 8 \<Longrightarrow> k = 0 \<or> k = 1 \<or> k = 2 \<or> k = 3 \<or> k = 4 \<or> k = 5 \<or> k = 6 \<or> k = (7::nat)"
  by arith

lemma bit_gcm_reverse: "bit (gcm_reverse b) k \<longleftrightarrow> k < 8 \<and> bit b (7 - k)"
proof (cases "k < 8")
  case False
  then show ?thesis by (auto dest: bit_imp_le_length)
next
  case True
  from less_8_cases [OF True] show ?thesis
    unfolding gcm_reverse_bits reversed_bits_def
    by (elim disjE) (simp_all add: bit_simps)
qed

lemma gcm_reverse_involution: "gcm_reverse (gcm_reverse b) = b"
  by (rule bit_word_eqI) (auto simp: bit_gcm_reverse)

lemma gcm_reverse_0: "gcm_reverse 0 = 0"
  by (rule bit_word_eqI) (simp add: bit_gcm_reverse)

lemma gcm_reverse_eq_0: "gcm_reverse b = 0 \<longleftrightarrow> b = 0"
  by (metis gcm_reverse_involution gcm_reverse_0)

lemma byte_eqI:
  assumes "bit a 0 = bit b 0" "bit a 1 = bit b 1" "bit a 2 = bit b 2" "bit a 3 = bit b 3"
    "bit a 4 = bit b 4" "bit a 5 = bit b 5" "bit a 6 = bit b 6" "bit a 7 = bit b 7"
  shows "a = (b :: u8)"
proof (rule bit_word_eqI)
  fix n assume "n < LENGTH(8)"
  then have "n < 8" by simp
  from less_8_cases [OF this] assms show "bit a n = bit b n" by auto
qed

lemma gcm_reverse_clear_low: "gcm_reverse (b AND 0xfe) = gcm_reverse b AND 0x7f"
  by (rule byte_eqI) (simp_all add: bit_gcm_reverse bit_simps)

lemma gcm_reverse_drop_bit: "gcm_reverse (drop_bit 1 b) = push_bit 1 (gcm_reverse b)"
  by (rule byte_eqI; simp only: bit_push_bit_iff bit_drop_bit_eq bit_gcm_reverse)
    (auto simp: eval_nat_numeral dest: bit_imp_le_length)

lemma bit_7_gcm_reverse: "bit (gcm_reverse b) 7 = bit b 0"
  by (simp add: bit_gcm_reverse)

lemma unat_of_nat_u8: "i < 256 \<Longrightarrow> unat (of_nat i :: u8) = i"
  by (simp add: unat_of_nat)

lemma unat_ucast_u8_u32: "unat (ucast (b :: u8) :: u32) = unat b"
proof -
  have "unat b < 2 ^ LENGTH(8)" by (rule unsigned_less)
  then have "unat b < 2 ^ 32" by simp
  then show ?thesis
    by (simp add: unsigned_ucast_eq take_bit_nat_eq_self)
qed

lemma cache_this_unat: "unat (cache_this i) = unat (gcm_reverse (of_nat i))"
  by (simp add: cache_this_def unat_ucast_u8_u32)

lemma cache_this_odd: "cache_this i AND 0x80 \<noteq> 0 \<longleftrightarrow> bit (of_nat i :: u8) 0"
proof -
  have "cache_this i AND 0x80 \<noteq> 0 \<longleftrightarrow> bit (cache_this i) 7"
    using and_exp_eq_0_iff_not_bit [of "cache_this i" 7] by simp
  then show ?thesis
    by (simp add: cache_this_def bit_simps bit_gcm_reverse)
qed

lemma ucast_and_7f: "(ucast (b :: u8) :: u32) AND 0x7f = ucast (b AND 0x7f)"
proof -
  have m: "(0x7f :: u32) = mask 7" "(0x7f :: u8) = mask 7"
    by (simp_all add: mask_eq_exp_minus_1)
  show ?thesis
    unfolding m by (rule bit_word_eqI) (auto simp: bit_simps)
qed

lemma ucast_push_bit_1:
  "\<not> bit (b :: u8) 7 \<Longrightarrow> push_bit 1 (ucast b :: u32) = ucast (push_bit 1 b)"
proof (rule bit_word_eqI)
  fix n assume b7: "\<not> bit b 7" and "n < LENGTH(32)"
  have l: "bit (push_bit 1 (ucast b :: u32)) n \<longleftrightarrow> 1 \<le> n \<and> n < 32 \<and> n - 1 < 8 \<and> bit b (n - 1)"
    by (simp only: bit_push_bit_iff bit_ucast_iff) (auto simp: possible_bit_word dest: bit_imp_le_length)
  have r: "bit (ucast (push_bit 1 b) :: u32) n \<longleftrightarrow> n < 32 \<and> 1 \<le> n \<and> n < 8 \<and> bit b (n - 1)"
    by (simp only: bit_push_bit_iff bit_ucast_iff) (auto simp: possible_bit_word dest: bit_imp_le_length)
  show "bit (push_bit 1 (ucast b :: u32)) n = bit (ucast (push_bit 1 b) :: u32) n"
    unfolding l r using b7 by (cases "n = 8") auto
qed

lemma cache_other_unat:
  "unat (cache_other i) =
     (if bit (of_nat i :: u8) 0 then unat (gcm_reverse (of_nat i) AND 0x7f)
      else unat (push_bit 1 (gcm_reverse (of_nat i))))"
proof (cases "bit (of_nat i :: u8) 0")
  case True
  then show ?thesis
    by (simp add: cache_other_def cache_this_odd)
      (simp add: cache_this_def ucast_and_7f unat_ucast_u8_u32)
next
  case False
  then have n7: "\<not> bit (gcm_reverse (of_nat i)) 7" by (simp add: bit_gcm_reverse)
  have "cache_other i = push_bit 1 (cache_this i)"
    using False by (simp only: cache_other_def cache_this_odd if_False)
  also have "\<dots> = ucast (push_bit 1 (gcm_reverse (of_nat i)))"
    by (simp only: cache_this_def ucast_push_bit_1 [OF n7])
  finally show ?thesis
    using False by (simp only: unat_ucast_u8_u32 if_False)
qed

section \<open>The cached tables\<close>

text \<open>
  Filling a table in rounds, each round writing one entry computed from an entry
  written earlier (or from entry 0): if every round computes the value a function
  \<open>S\<close> prescribes from the value \<open>S\<close> prescribes for the entry it reads, the
  filled table is the table of \<open>S\<close>, whatever the table held before.
\<close>

lemma fill_table:
  fixes F :: "nat \<Rightarrow> 'a \<Rightarrow> 'a \<Rightarrow> 'a" and S :: "nat \<Rightarrow> 'a"
  assumes len: "length tab = 256"
    and P0: "\<forall>n<256. P (tab ! n)"
    and S0: "tab ! 0 = S 0"
    and T: "\<forall>i\<in>{1..<256}. T i < 256 \<and> T i \<noteq> 0"
    and dep: "\<forall>i\<in>{1..<256}. G i = 0 \<or> (\<exists>j\<in>{1..<i}. T j = G i)"
    and step: "\<forall>i\<in>{1..<256}. \<forall>d. P d \<longrightarrow> F i (S (G i)) d = S (T i)"
    and PS: "\<forall>n<256. P (S n)"
    and surj: "\<forall>n\<in>{1..<256}. \<exists>i\<in>{1..<256}. T i = n"
  shows "fold (\<lambda>i tab. tab[T i := F i (tab ! G i) (tab ! T i)]) [1..<256] tab = map S [0..<256]"
proof -
  let ?f = "\<lambda>i tab. tab[T i := F i (tab ! G i) (tab ! T i)]"
  have inv: "n \<le> 255 \<Longrightarrow>
      length (fold ?f [1..<Suc n] tab) = 256
      \<and> (\<forall>k<256. P (fold ?f [1..<Suc n] tab ! k))
      \<and> fold ?f [1..<Suc n] tab ! 0 = S 0
      \<and> (\<forall>j\<in>{1..<Suc n}. fold ?f [1..<Suc n] tab ! T j = S (T j))" for n
  proof (induction n)
    case 0
    show ?case using len P0 S0 by simp
  next
    case (Suc n)
    define t where "t = fold ?f [1..<Suc n] tab"
    define i where "i = Suc n"
    from Suc have ih: "length t = 256" "\<forall>k<256. P (t ! k)" "t ! 0 = S 0"
      "\<forall>j\<in>{1..<i}. t ! T j = S (T j)" by (simp_all add: t_def i_def)
    have i: "i \<in> {1..<256}" using Suc.prems by (simp add: i_def)
    have Ti: "T i < 256" "T i \<noteq> 0" using T i by blast+
    have rd: "t ! G i = S (G i)"
      using dep i ih(3,4) by (metis (no_types, lifting))
    have Pd: "P (t ! T i)" using ih(2) Ti by blast
    have val: "F i (t ! G i) (t ! T i) = S (T i)"
      using step i Pd rd by simp
    have "fold ?f [1..<Suc i] tab = ?f i t"
      by (simp add: t_def i_def)
    then have e: "fold ?f [1..<Suc i] tab = t[T i := S (T i)]"
      using val by simp
    have PSi: "P (S (T i))" using PS Ti by blast
    have "length (t[T i := S (T i)]) = 256" using ih(1) by simp
    moreover have "\<forall>k<256. P (t[T i := S (T i)] ! k)"
      using ih(1,2) PSi Ti(1) by (auto simp: nth_list_update)
    moreover have "t[T i := S (T i)] ! 0 = S 0" using ih(3) Ti by simp
    moreover have "\<forall>j\<in>{1..<Suc i}. t[T i := S (T i)] ! T j = S (T j)"
    proof
      fix j assume j: "j \<in> {1..<Suc i}"
      show "t[T i := S (T i)] ! T j = S (T j)"
      proof (cases "T j = T i")
        case True
        then show ?thesis using ih(1) Ti by simp
      next
        case False
        then have "j \<noteq> i" by auto
        with j have "j \<in> {1..<i}" by auto
        with ih(4) False show ?thesis by simp
      qed
    qed
    ultimately show ?case
      unfolding e [unfolded i_def] i_def by blast
  qed
  have fin: "length (fold ?f [1..<256] tab) = 256"
      "fold ?f [1..<256] tab ! 0 = S 0"
      "\<forall>j\<in>{1..<256}. fold ?f [1..<256] tab ! T j = S (T j)"
    using inv [of 255] by simp_all
  show ?thesis
  proof (rule nth_equalityI)
    show "length (fold ?f [1..<256] tab) = length (map S [0..<256])" using fin(1) by simp
  next
    fix n assume "n < length (fold ?f [1..<256] tab)"
    then have n: "n < 256" using fin(1) by simp
    show "fold ?f [1..<256] tab ! n = map S [0..<256] ! n"
    proof (cases "n = 0")
      case True then show ?thesis using fin(2) by simp
    next
      case False
      then have "n \<in> {1..<256}" using n by simp
      then obtain i where "i \<in> {1..<256}" "T i = n" using surj by blast
      then show ?thesis using fin(3) n by (auto simp del: upt_Suc)
    qed
  qed
qed

lemma gcm_cache_loop_fold:
  "i \<le> 256 \<Longrightarrow>
     gcm_cache_loop e key st i = fold (\<lambda>i st. gcm_cache_step e key st i) [i..<256] st"
proof (induction e key st i rule: gcm_cache_loop.induct)
  case (1 e key st i)
  show ?case
  proof (cases "i < 256")
    case True
    then have "[i..<256] = i # [i + 1..<256]" by (simp add: upt_conv_Cons)
    with True "1.IH" show ?thesis
      by (subst gcm_cache_loop.simps) simp
  next
    case False
    with "1.prems" show ?thesis by (subst gcm_cache_loop.simps) simp
  qed
qed

lemma gcm_cache_step_reduce:
  "gcm_cached_reduce (gcm_cache_step e key st i) =
     (gcm_cached_reduce st)[unat (cache_this i) :=
        reduce_step e i (gcm_cached_reduce st ! unat (cache_other i))]"
  by (simp add: gcm_cache_step_def Let_def cache_this_def cache_other_def reduce_step_def)

lemma gcm_cache_step_mult:
  "gcm_cached_mult (gcm_cache_step e key st i) =
     (gcm_cached_mult st)[unat (cache_this i) :=
        mult_step key i (gcm_cached_mult st ! unat (cache_other i))
          (gcm_cached_mult st ! unat (cache_this i))]"
  by (simp add: gcm_cache_step_def Let_def cache_this_def cache_other_def mult_step_def)

lemma gcm_cache_step_key [simp]:
  "gcm_cached_key (gcm_cache_step e key st i) = gcm_cached_key st"
  by (simp add: gcm_cache_step_def Let_def)

lemma fold_cache_step_reduce:
  "gcm_cached_reduce (fold (\<lambda>i st. gcm_cache_step e key st i) is st) =
     fold (\<lambda>i tab. tab[unat (cache_this i) :=
             reduce_step e i (tab ! unat (cache_other i)) ]) is (gcm_cached_reduce st)"
  by (induction "is" arbitrary: st) (simp_all add: gcm_cache_step_reduce)

lemma fold_cache_step_mult:
  "gcm_cached_mult (fold (\<lambda>i st. gcm_cache_step e key st i) is st) =
     fold (\<lambda>i tab. tab[unat (cache_this i) :=
             mult_step key i (tab ! unat (cache_other i)) (tab ! unat (cache_this i))])
       is (gcm_cached_mult st)"
  by (induction "is" arbitrary: st) (simp_all add: gcm_cache_step_mult)

lemma statics_key_update [simp]:
  "gcm_cached_reduce (s\<lparr>gcm_cached_key := k\<rparr>) = gcm_cached_reduce s"
  "gcm_cached_mult (s\<lparr>gcm_cached_key := k\<rparr>) = gcm_cached_mult s"
  by simp_all

lemma gcm_cache_reduce:
  "gcm_cached_reduce (gcm_cache e kp key st) =
     fold (\<lambda>i tab. tab[unat (cache_this i) :=
             reduce_step e i (tab ! unat (cache_other i)) ]) [1..<256] (gcm_cached_reduce st)"
proof -
  have "gcm_cache_loop e key st 1 = fold (\<lambda>i st. gcm_cache_step e key st i) [1..<256] st"
    by (rule gcm_cache_loop_fold) simp
  then show ?thesis
    unfolding gcm_cache_def by (simp only: fold_cache_step_reduce statics_key_update)
qed

lemma gcm_cache_mult:
  "gcm_cached_mult (gcm_cache e kp key st) =
     fold (\<lambda>i tab. tab[unat (cache_this i) :=
             mult_step key i (tab ! unat (cache_other i)) (tab ! unat (cache_this i))])
       [1..<256] (gcm_cached_mult st)"
proof -
  have "gcm_cache_loop e key st 1 = fold (\<lambda>i st. gcm_cache_step e key st i) [1..<256] st"
    by (rule gcm_cache_loop_fold) simp
  then show ?thesis
    unfolding gcm_cache_def by (simp only: fold_cache_step_mult statics_key_update)
qed

lemma gcm_cache_key [simp]: "gcm_cached_key (gcm_cache e kp key st) = kp"
  by (simp add: gcm_cache_def)

lemma unat_u8_less: "unat (b :: u8) < 256"
  using unsigned_less [of b, where ?'a = nat] by simp

lemma cache_this_range:
  "\<forall>i\<in>{1..<256}. unat (cache_this i) < 256 \<and> unat (cache_this i) \<noteq> 0"
proof
  fix i :: nat assume i: "i \<in> {1..<256}"
  then have "unat (of_nat i :: u8) = i" by (simp add: unat_of_nat_u8)
  then have "(of_nat i :: u8) \<noteq> 0" using i by (metis atLeastLessThan_iff not_one_le_zero unsigned_0)
  then have "gcm_reverse (of_nat i) \<noteq> 0" by (simp add: gcm_reverse_eq_0)
  then show "unat (cache_this i) < 256 \<and> unat (cache_this i) \<noteq> 0"
    by (simp add: cache_this_unat unat_u8_less unat_0_iff)
qed

lemma cache_this_surj: "\<forall>n\<in>{1..<256}. \<exists>i\<in>{1..<256}. unat (cache_this i) = n"
proof
  fix n :: nat assume n: "n \<in> {1..<256}"
  define i where "i = unat (gcm_reverse (of_nat n))"
  have un: "unat (of_nat n :: u8) = n" using n by (simp add: unat_of_nat_u8)
  then have "(of_nat n :: u8) \<noteq> 0" using n by (metis atLeastLessThan_iff not_one_le_zero unsigned_0)
  then have "gcm_reverse (of_nat n) \<noteq> 0" by (simp add: gcm_reverse_eq_0)
  then have i: "i \<in> {1..<256}"
    using unat_u8_less [of "gcm_reverse (of_nat n)"] by (simp add: i_def unat_gt_0 Suc_le_eq)
  have "unat (cache_this i) = n"
    by (simp add: cache_this_unat i_def gcm_reverse_involution un)
  with i show "\<exists>i\<in>{1..<256}. unat (cache_this i) = n" by blast
qed

lemma cache_other_written:
  "\<forall>i\<in>{1..<256}. unat (cache_other i) = 0
      \<or> (\<exists>j\<in>{1..<i}. unat (cache_this j) = unat (cache_other i))"
proof
  fix i :: nat assume i: "i \<in> {1..<256}"
  define w :: u8 where "w = of_nat i"
  have uw: "unat w = i" using i by (simp add: w_def unat_of_nat_u8)
  show "unat (cache_other i) = 0 \<or> (\<exists>j\<in>{1..<i}. unat (cache_this j) = unat (cache_other i))"
  proof (cases "bit w 0")
    case True
    define j where "j = unat (w AND 0xfe)"
    have o: "unat (cache_other i) = unat (gcm_reverse w AND 0x7f)"
      using True by (simp add: cache_other_unat w_def)
    have t: "unat (cache_this j) = unat (gcm_reverse w AND 0x7f)"
      by (simp add: cache_this_unat j_def gcm_reverse_clear_low)
    have "\<not> bit (w AND 0xfe) 0" by (simp add: bit_simps)
    then have "w AND 0xfe \<noteq> w"
      using True by metis
    moreover have "unat (w AND 0xfe) \<le> unat w"
      by (simp add: word_le_nat_alt [symmetric] word_and_le2)
    ultimately have lt: "j < i"
      using uw by (simp add: j_def) (metis le_neq_implies_less word_unat_eq_iff)
    show ?thesis
    proof (cases "j = 0")
      case True
      then have "w AND 0xfe = 0" by (simp add: j_def unat_0_iff)
      then have "gcm_reverse w AND 0x7f = 0"
        using gcm_reverse_clear_low [of w] by (simp add: gcm_reverse_0)
      then show ?thesis by (simp add: o)
    next
      case False
      then have "j \<in> {1..<i}" using lt by simp
      then show ?thesis using o t by auto
    qed
  next
    case False
    define j where "j = unat (drop_bit 1 w)"
    have o: "unat (cache_other i) = unat (push_bit 1 (gcm_reverse w))"
      using False by (simp only: cache_other_unat w_def if_False)
    have t: "unat (cache_this j) = unat (push_bit 1 (gcm_reverse w))"
      by (simp only: cache_this_unat j_def of_nat_unat ucast_id gcm_reverse_drop_bit)
    have jd: "j = i div 2"
      unfolding j_def unat_drop_bit_eq by (simp add: drop_bit_eq_div uw)
    have "even i" using False uw
      by (metis bit_0 even_of_nat mod_by_0 unat_mod word_arith_nat_mod)
    moreover have "1 \<le> i" using i by simp
    ultimately have "j \<in> {1..<i}" unfolding jd by auto
    then show ?thesis using o t by auto
  qed
qed

lemma bswap_bswap: "8 * n = LENGTH('a::len) \<Longrightarrow> bswap n (bswap n (w :: 'a word)) = w"
  by (simp add: bswap_def be_bytes_be_word be_word_be_bytes)

lemma bswap_xor:
  assumes "8 * n = LENGTH('a::len)"
  shows "bswap n (a XOR b :: 'a word) = bswap n a XOR bswap n b"
proof -
  have "be_bytes n (bswap n (a XOR b)) = be_bytes n (bswap n a XOR bswap n b)"
    using assms by (simp add: be_bytes_bswap be_bytes_xor zip_rev rev_map)
  then have "be_word (be_bytes n (bswap n (a XOR b))) = (be_word (be_bytes n (bswap n a XOR bswap n b)) :: 'a word)"
    by simp
  then show ?thesis using assms by (simp add: be_word_be_bytes)
qed

lemma be16_to_cpu_cpu_to_be16 [simp]: "be16_to_cpu e (cpu_to_be16 e w) = w"
  by (cases e) (simp_all add: be16_to_cpu_def cpu_to_be16_def bswap_bswap)

lemma cpu_to_be16_xor: "cpu_to_be16 e (a XOR b) = cpu_to_be16 e a XOR cpu_to_be16 e b"
  by (cases e) (simp_all add: cpu_to_be16_def bswap_xor)

lemma be16_to_cpu_eq: "be16_to_cpu e w = cpu_to_be16 e w"
  by (simp add: be16_to_cpu_def cpu_to_be16_def)

lemma cpu_to_be16_0 [simp]: "cpu_to_be16 e 0 = 0"
  using cpu_to_be16_xor [of e 0 0] by simp

lemma reduce_spec_unfold:
  "reduce_spec b =
     (if bit b 0 then drop_bit 7 0xe100 else 0) XOR (if bit b 1 then drop_bit 6 0xe100 else 0) XOR
     (if bit b 2 then drop_bit 5 0xe100 else 0) XOR (if bit b 3 then drop_bit 4 0xe100 else 0) XOR
     (if bit b 4 then drop_bit 3 0xe100 else 0) XOR (if bit b 5 then drop_bit 2 0xe100 else 0) XOR
     (if bit b 6 then drop_bit 1 0xe100 else 0) XOR (if bit b 7 then 0xe100 else 0)"
  by (simp add: reduce_spec_def eval_nat_numeral xor.assoc)

lemma reduce_spec_0 [simp]: "reduce_spec 0 = 0"
  by (simp add: reduce_spec_unfold)

lemma reduce_spec_odd:
  "bit b 7 \<Longrightarrow> reduce_spec b = reduce_spec (b AND 0x7f) XOR 0xe100"
  unfolding reduce_spec_unfold by (simp add: bit_simps xor.assoc)

lemma reduce_spec_even:
  "\<not> bit b 7 \<Longrightarrow> reduce_spec b = drop_bit 1 (reduce_spec (push_bit 1 b))"
  unfolding reduce_spec_unfold
  by (simp only: bit_simps) (simp add: bit_simps if_distrib [of "drop_bit 1"])

lemma of_nat_cache_this: "(of_nat (unat (cache_this i)) :: u8) = gcm_reverse (of_nat i)"
  by (simp only: cache_this_unat of_nat_unat ucast_id)

lemma of_nat_cache_other:
  "(of_nat (unat (cache_other i)) :: u8) =
     (if bit (of_nat i :: u8) 0 then gcm_reverse (of_nat i) AND 0x7f
      else push_bit 1 (gcm_reverse (of_nat i)))"
  by (simp only: cache_other_unat of_nat_unat ucast_id if_distrib [of of_nat])

lemma poly_shifted: "push_bit 8 (ucast GCM_POLY) = (0xe100 :: u16)"
  by (simp add: GCM_POLY_def)

lemma reduce_step_spec:
  "reduce_step e i (cpu_to_be16 e (reduce_spec (of_nat (unat (cache_other i))))) =
     cpu_to_be16 e (reduce_spec (of_nat (unat (cache_this i))))"
proof (cases "bit (of_nat i :: u8) 0")
  case True
  then have b7: "bit (gcm_reverse (of_nat i)) 7" by (simp add: bit_gcm_reverse)
  show ?thesis
    using True reduce_spec_odd [OF b7]
    by (simp only: reduce_step_def cache_this_odd if_True of_nat_cache_this of_nat_cache_other
        poly_shifted be16_to_cpu_eq cpu_to_be16_xor)
next
  case False
  then have b7: "\<not> bit (gcm_reverse (of_nat i)) 7" by (simp add: bit_gcm_reverse)
  show ?thesis
    using False reduce_spec_even [OF b7]
    by (simp only: reduce_step_def cache_this_odd if_False of_nat_cache_this of_nat_cache_other
        be16_to_cpu_cpu_to_be16)
qed

lemma gcm_cache_reduce_table:
  assumes "statics_wf st"
  shows "gcm_cached_reduce (gcm_cache e kp key st) =
           map (\<lambda>n. cpu_to_be16 e (reduce_spec (of_nat n))) [0..<256]"
  unfolding gcm_cache_reduce
proof (rule fill_table [where P = "\<lambda>_. True" and F = "\<lambda>i x d. reduce_step e i x"
      and T = "\<lambda>i. unat (cache_this i)" and G = "\<lambda>i. unat (cache_other i)"
      and S = "\<lambda>n. cpu_to_be16 e (reduce_spec (of_nat n))"])
  show "length (gcm_cached_reduce st) = 256" using assms by (simp add: statics_wf_def)
  show "gcm_cached_reduce st ! 0 = cpu_to_be16 e (reduce_spec (of_nat 0))"
    using assms by (simp add: statics_wf_def)
  show "\<forall>i\<in>{1..<256}. unat (cache_this i) < 256 \<and> unat (cache_this i) \<noteq> 0"
    by (rule cache_this_range)
  show "\<forall>i\<in>{1..<256}. unat (cache_other i) = 0
      \<or> (\<exists>j\<in>{1..<i}. unat (cache_this j) = unat (cache_other i))"
    by (rule cache_other_written)
  show "\<forall>n\<in>{1..<256}. \<exists>i\<in>{1..<256}. unat (cache_this i) = n"
    by (rule cache_this_surj)
  show "\<forall>i\<in>{1..<256}. \<forall>d. True \<longrightarrow>
      reduce_step e i (cpu_to_be16 e (reduce_spec (of_nat (unat (cache_other i))))) =
      cpu_to_be16 e (reduce_spec (of_nat (unat (cache_this i))))"
    using reduce_step_spec by blast
qed simp_all

lemma gcm_cached_reduce_nth:
  assumes "statics_wf st"
  shows "gcm_cached_reduce (gcm_cache e kp key st) ! unat (b :: u8) = cpu_to_be16 e (reduce_spec b)"
proof -
  have "unat b < 256" by (rule unat_u8_less)
  then show ?thesis
    unfolding gcm_cache_reduce_table [OF assms] by (simp del: upt_Suc)
qed

section \<open>Multiplication by \<open>x^8\<close>\<close>

lemma funpow_8: "(f ^^ 8) x = f (f (f (f (f (f (f (f x)))))))"
  by (simp add: eval_nat_numeral)

lemma be_bytes_2: "be_bytes 2 (w :: u16) = [ucast (drop_bit 8 w), ucast w]"
  by (simp add: be_bytes_def upt_rec)

lemma mul_x_8_basis:
  "(mul_x ^^ 8) (replicate 15 0 @ [1]) = be_bytes 2 (drop_bit 7 (0xe100 :: u16)) @ replicate 14 0"
  "(mul_x ^^ 8) (replicate 15 0 @ [2]) = be_bytes 2 (drop_bit 6 (0xe100 :: u16)) @ replicate 14 0"
  "(mul_x ^^ 8) (replicate 15 0 @ [4]) = be_bytes 2 (drop_bit 5 (0xe100 :: u16)) @ replicate 14 0"
  "(mul_x ^^ 8) (replicate 15 0 @ [8]) = be_bytes 2 (drop_bit 4 (0xe100 :: u16)) @ replicate 14 0"
  "(mul_x ^^ 8) (replicate 15 0 @ [16]) = be_bytes 2 (drop_bit 3 (0xe100 :: u16)) @ replicate 14 0"
  "(mul_x ^^ 8) (replicate 15 0 @ [32]) = be_bytes 2 (drop_bit 2 (0xe100 :: u16)) @ replicate 14 0"
  "(mul_x ^^ 8) (replicate 15 0 @ [64]) = be_bytes 2 (drop_bit 1 (0xe100 :: u16)) @ replicate 14 0"
  "(mul_x ^^ 8) (replicate 15 0 @ [128]) = be_bytes 2 (0xe100 :: u16) @ replicate 14 0"
  by (simp_all add: funpow_8 mul_x_def replicate_15 replicate_14 be_bytes_2)


lemma take_bit_Suc_xor:
  "take_bit (Suc k) (b :: u8) = take_bit k b XOR (if bit b k then push_bit k 1 else 0)"
  by (rule bit_word_eqI) (auto simp: bit_simps less_Suc_eq)

lemma low_block_xor:
  "replicate 15 0 @ [x XOR y] = xor_bytes (replicate 15 0 @ [x]) (replicate 15 0 @ [y])"
  by (simp add: replicate_15)

lemma mul_x_8_push_bit:
  assumes "k < 8"
  shows "(mul_x ^^ 8) (replicate 15 0 @ [push_bit k 1]) =
           be_bytes 2 (drop_bit (7 - k) (0xe100 :: u16)) @ replicate 14 0"
  using less_8_cases [OF assms] mul_x_8_basis by (elim disjE) simp_all

lemma xor_bytes_append:
  "length a = length b \<Longrightarrow> xor_bytes (a @ c) (b @ d) = xor_bytes a b @ xor_bytes c d"
  by (simp add: xor_bytes_def zip_append)

lemma mul_x_8_low_bits:
  "k \<le> 8 \<Longrightarrow>
     (mul_x ^^ 8) (replicate 15 0 @ [take_bit k b]) = be_bytes 2 (reduce_bits k b) @ replicate 14 0"
proof (induction k)
  case 0
  have "(mul_x ^^ 8) (replicate 16 0) = replicate 16 0" by (rule funpow_mul_x_zero)
  then show ?case by (simp add: replicate_16 replicate_15 replicate_14 be_bytes_2)
next
  case (Suc k)
  then have k: "k < 8" and ih: "(mul_x ^^ 8) (replicate 15 0 @ [take_bit k b]) =
      be_bytes 2 (reduce_bits k b) @ replicate 14 0" by simp_all
  show ?case
  proof (cases "bit b k")
    case True
    have "(mul_x ^^ 8) (replicate 15 0 @ [take_bit (Suc k) b]) =
        xor_bytes ((mul_x ^^ 8) (replicate 15 0 @ [take_bit k b]))
          ((mul_x ^^ 8) (replicate 15 0 @ [push_bit k 1]))"
      using True by (simp only: take_bit_Suc_xor if_True low_block_xor) (simp add: funpow_mul_x_xor)
    also have "\<dots> = xor_bytes (be_bytes 2 (reduce_bits k b) @ replicate 14 0)
        (be_bytes 2 (drop_bit (7 - k) (0xe100 :: u16)) @ replicate 14 0)"
      by (simp only: ih mul_x_8_push_bit [OF k])
    also have "\<dots> = be_bytes 2 (reduce_bits (Suc k) b) @ replicate 14 0"
      using True by (simp add: xor_bytes_append be_bytes_xor xor_bytes_self flip: xor_bytes_def)
    finally show ?thesis .
  next
    case False
    then have "take_bit (Suc k) b = take_bit k b"
      by (simp only: take_bit_Suc_xor if_False) simp
    then show ?thesis using False ih by simp
  qed
qed

lemma mul_x_8_low:
  "(mul_x ^^ 8) (replicate 15 0 @ [b]) = be_bytes 2 (reduce_spec b) @ replicate 14 0"
proof -
  have "take_bit 8 b = b" by (simp add: take_bit_word_eq_self)
  then show ?thesis
    using mul_x_8_low_bits [of 8 b] by (simp add: reduce_spec_def)
qed

lemma split_last_byte:
  assumes "length b = 16"
  shows "b = xor_bytes (butlast b @ [0]) (replicate 15 0 @ [last b])"
proof -
  obtain x0 x1 x2 x3 x4 x5 x6 x7 x8 x9 x10 x11 x12 x13 x14 x15
    where "b = [x0, x1, x2, x3, x4, x5, x6, x7, x8, x9, x10, x11, x12, x13, x14, x15]"
    using assms by (rule list16)
  then show ?thesis by (simp add: replicate_15)
qed

lemma mul_x_8_spec:
  assumes "length b = 16"
  shows "(mul_x ^^ 8) b =
           xor_bytes (0 # butlast b) (be_bytes 2 (reduce_spec (last b)) @ replicate 14 0)"
proof -
  have "(mul_x ^^ 8) b = (mul_x ^^ 8) (xor_bytes (butlast b @ [0]) (replicate 15 0 @ [last b]))"
    using split_last_byte [OF assms] by simp
  also have "\<dots> = xor_bytes ((mul_x ^^ 8) (butlast b @ [0])) ((mul_x ^^ 8) (replicate 15 0 @ [last b]))"
    using assms by (simp add: funpow_mul_x_xor)
  finally show ?thesis
    by (simp only: funpow_mul_x_high mul_x_8_low)
qed

lemma gcm_shift_bytes_16:
  assumes "length poly = 16"
  shows "gcm_shift_bytes poly 15 = 0 # butlast poly"
proof -
  obtain x0 x1 x2 x3 x4 x5 x6 x7 x8 x9 x10 x11 x12 x13 x14 x15
    where "poly = [x0, x1, x2, x3, x4, x5, x6, x7, x8, x9, x10, x11, x12, x13, x14, x15]"
    using assms by (rule list16)
  then show ?thesis by (simp add: eval_nat_numeral)
qed

lemma set_word0_xor:
  assumes "2 \<le> length p"
  shows "set_word0 e p (get_word0 e p XOR r) = xor_bytes p (store_native e 2 r @ replicate (length p - 2) 0)"
proof -
  have l: "length (take 2 p) = 2" using assms by simp
  have "store_native e 2 ((load_native e (take 2 p) :: u16) XOR r) = xor_bytes (take 2 p) (store_native e 2 r)"
    using store_native_load_native [OF l, of e, where ?'a = 16]
    by (simp add: store_native_xor xor_bytes_def)
  then have "set_word0 e p (get_word0 e p XOR r) =
      xor_bytes (take 2 p) (store_native e 2 r) @ xor_bytes (drop 2 p) (replicate (length p - 2) 0)"
    by (simp add: set_word0_def get_word0_def xor_bytes_zero_right)
  also have "\<dots> = xor_bytes (take 2 p @ drop 2 p) (store_native e 2 r @ replicate (length p - 2) 0)"
    by (rule xor_bytes_append [symmetric]) (simp add: l del: length_take)
  finally show ?thesis by simp
qed

lemma gcm_multiply_x_8_bytes:
  assumes "length poly = 16"
  shows "gcm_multiply_x_8 e st poly =
           xor_bytes (0 # butlast poly)
             (store_native e 2 (gcm_cached_reduce st ! unat (last poly)) @ replicate 14 0)"
proof -
  have "poly \<noteq> []" using assms by auto
  then have l: "poly ! 15 = last poly" using assms by (simp add: last_conv_nth)
  have "length (0 # butlast poly) = 16" using assms by simp
  then show ?thesis
    using set_word0_xor [of "0 # butlast poly" e]
    by (simp add: gcm_multiply_x_8_def Let_def gcm_shift_bytes_16 [OF assms] l)
qed

lemma length_gcm_multiply_x:
  "length mult = 16 \<Longrightarrow> length res = 16 \<Longrightarrow> length (gcm_multiply_x mult res) = 16"
  by (simp add: gcm_multiply_x_eq_mul_x)

lemma funpow_gcm_multiply_x:
  assumes "length b = 16" "length r = 16"
  shows "((\<lambda>p. gcm_multiply_x p r) ^^ k) b = (mul_x ^^ k) b"
  using assms by (induction k) (simp_all add: gcm_multiply_x_eq_mul_x)

lemma statics_wf_initial: "statics_wf initial_statics"
  by (simp add: statics_wf_def initial_statics_def zero_block_def list_all_iff)

lemma gcm_multiply_x_8_cached:
  assumes "statics_wf st" "length b = 16"
  shows "gcm_multiply_x_8 e (gcm_cache e kp key st) b = (mul_x ^^ 8) b"
  using assms
  by (simp add: gcm_multiply_x_8_bytes gcm_cached_reduce_nth store_native_cpu_to_be16 mul_x_8_spec)

text \<open>
  C7: once \<open>gcm_cache\<close> has built the tables (for any key, on either byte order, from
  any well-formed earlier contents), \<open>gcm_multiply_x_8\<close> maps every 16-byte block to
  the block that eight successive applications of \<open>gcm_multiply_x\<close> produce, whatever
  16-byte result buffer \<open>r\<close> those applications write to.
\<close>

theorem gcm_multiply_x_8_is_eight_multiply_x:
  assumes "statics_wf st" "length b = 16" "length r = 16"
  shows "gcm_multiply_x_8 e (gcm_cache e kp key st) b = ((\<lambda>p. gcm_multiply_x p r) ^^ 8) b"
  using assms by (simp add: gcm_multiply_x_8_cached funpow_gcm_multiply_x)

theorem gcm_multiply_x_8_is_eight_multiply_x_witness:
  "statics_wf initial_statics
   \<and> length [1, 2, 3, 4, 5, 6, 7, 8, 9, 10, 11, 12, 13, 14, 15, 0x87 :: u8] = 16
   \<and> length zero_block = 16
   \<and> gcm_multiply_x_8 LittleEndian (gcm_cache LittleEndian 4144 toy_key initial_statics)
        [1, 2, 3, 4, 5, 6, 7, 8, 9, 10, 11, 12, 13, 14, 15, 0x87]
      = ((\<lambda>p. gcm_multiply_x p zero_block) ^^ 8)
          [1, 2, 3, 4, 5, 6, 7, 8, 9, 10, 11, 12, 13, 14, 15, 0x87]
   \<and> ((\<lambda>p. gcm_multiply_x p zero_block) ^^ 8)
          [1, 2, 3, 4, 5, 6, 7, 8, 9, 10, 11, 12, 13, 14, 15, 0x87]
      = [0xe4, 0x4f, 2, 3, 4, 5, 6, 7, 8, 9, 10, 11, 12, 13, 14, 15]"
proof -
  have w: "statics_wf initial_statics" by (rule statics_wf_initial)
  have l: "length [1, 2, 3, 4, 5, 6, 7, 8, 9, 10, 11, 12, 13, 14, 15, 0x87 :: u8] = 16" by simp
  have z: "length zero_block = 16" by (simp add: zero_block_def)
  have v: "(mul_x ^^ 8) [1, 2, 3, 4, 5, 6, 7, 8, 9, 10, 11, 12, 13, 14, 15, 0x87]
      = [0xe4, 0x4f, 2, 3, 4, 5, 6, 7, 8, 9, 10, 11, 12, 13, 14, 15]"
    by (simp add: funpow_8 mul_x_def)
  show ?thesis
    using gcm_multiply_x_8_is_eight_multiply_x [OF w l z, of LittleEndian 4144 toy_key] w z v
    by (simp add: funpow_gcm_multiply_x [OF l z])
qed

section \<open>Multiplication by the hash key\<close>

lemma gcm_xor_bytes:
  "n \<le> length a \<Longrightarrow> n \<le> length b \<Longrightarrow> n \<le> length d \<Longrightarrow>
     gcm_xor a b d n = xor_bytes (take n a) (take n b) @ drop n d"
proof (induction a b d n rule: gcm_xor.induct)
  case (1 a src1 b src2 d dst len)
  then show ?case by simp
qed simp_all

lemma gcm_xor_16:
  "length a = 16 \<Longrightarrow> length b = 16 \<Longrightarrow> length d = 16 \<Longrightarrow> gcm_xor a b d 16 = xor_bytes a b"
  by (simp add: gcm_xor_bytes)

lemma length_zero_block [simp]: "length zero_block = 16"
  by (simp add: zero_block_def)

lemma xor_zero_block_right [simp]: "length a = 16 \<Longrightarrow> xor_bytes a zero_block = a"
  by (simp add: zero_block_def xor_bytes_zero_right)

lemma xor_zero_block_left [simp]: "length a = 16 \<Longrightarrow> xor_bytes zero_block a = a"
  by (simp add: zero_block_def xor_bytes_zero_left)

lemma mul_x_zero_block [simp]: "mul_x zero_block = zero_block"
  by (simp add: zero_block_def mul_x_zero)

lemma length_horner_step [simp]:
  "length h = 16 \<Longrightarrow> length acc = 16 \<Longrightarrow> length (horner_step h acc c) = 16"
  by (simp add: horner_step_def)

lemma horner_step_False: "length acc = 16 \<Longrightarrow> horner_step h acc False = mul_x acc"
  by (simp add: horner_step_def)

lemma horner_step_True: "horner_step h acc True = xor_bytes (mul_x acc) h"
  by (simp add: horner_step_def)

lemma length_foldl_horner_step [simp]:
  "length h = 16 \<Longrightarrow> length acc = 16 \<Longrightarrow> length (foldl (horner_step h) acc cs) = 16"
  by (induction cs arbitrary: acc) simp_all

lemma coefficients_unfold:
  "coefficients b = [bit b 0, bit b 1, bit b 2, bit b 3, bit b 4, bit b 5, bit b 6, bit b 7]"
  by (simp add: coefficients_def upt_rec eval_nat_numeral)

lemma coefficients_split:
  "coefficients b = [bit b 0, bit b 1, bit b 2, bit b 3, bit b 4, bit b 5, bit b 6] @ [bit b 7]"
  by (simp add: coefficients_unfold)

lemma length_gf_mult_byte [simp]: "length h = 16 \<Longrightarrow> length (gf_mult_byte h b) = 16"
  by (simp add: gf_mult_byte_def)

lemma gf_mult_byte_0 [simp]: "gf_mult_byte h 0 = zero_block"
  by (simp add: gf_mult_byte_def coefficients_unfold horner_step_False)

lemma gf_mult_byte_odd:
  assumes "length h = 16" "bit b 7"
  shows "gf_mult_byte h b = xor_bytes h (gf_mult_byte h (b AND 0x7f))"
proof -
  define X where "X = foldl (horner_step h) zero_block
      [bit b 0, bit b 1, bit b 2, bit b 3, bit b 4, bit b 5, bit b 6]"
  have lX: "length X = 16" using assms(1) by (simp add: X_def)
  have c: "coefficients (b AND 0x7f) =
      [bit b 0, bit b 1, bit b 2, bit b 3, bit b 4, bit b 5, bit b 6] @ [False]"
    by (simp add: coefficients_unfold bit_simps)
  have "gf_mult_byte h b = xor_bytes (mul_x X) h"
    unfolding gf_mult_byte_def coefficients_split foldl_append X_def [symmetric]
    using assms(2) by (simp add: horner_step_True)
  moreover have "gf_mult_byte h (b AND 0x7f) = mul_x X"
    unfolding gf_mult_byte_def c foldl_append X_def [symmetric]
    using lX by (simp add: horner_step_False)
  ultimately show ?thesis by (simp add: xor_bytes_commute)
qed

lemma gf_mult_byte_even:
  assumes "length h = 16" "\<not> bit b 7"
  shows "gf_mult_byte h b = mul_x (gf_mult_byte h (push_bit 1 b))"
proof -
  define X where "X = foldl (horner_step h) zero_block
      [bit b 0, bit b 1, bit b 2, bit b 3, bit b 4, bit b 5, bit b 6]"
  have lX: "length X = 16" using assms(1) by (simp add: X_def)
  have c: "coefficients (push_bit 1 b) =
      False # [bit b 0, bit b 1, bit b 2, bit b 3, bit b 4, bit b 5, bit b 6]"
    unfolding coefficients_unfold by (simp only: bit_push_bit_iff) (simp add: eval_nat_numeral)
  have "gf_mult_byte h b = mul_x X"
    unfolding gf_mult_byte_def coefficients_split foldl_append X_def [symmetric]
    using assms(2) lX by (simp add: horner_step_False)
  moreover have "gf_mult_byte h (push_bit 1 b) = X"
    unfolding gf_mult_byte_def c X_def
    by (simp add: horner_step_False)
  ultimately show ?thesis by simp
qed

lemma mult_step_spec:
  assumes "length key = 16" "length d = 16"
  shows "mult_step key i (gf_mult_byte key (of_nat (unat (cache_other i)))) d =
           gf_mult_byte key (of_nat (unat (cache_this i)))"
proof (cases "bit (of_nat i :: u8) 0")
  case True
  then have b7: "bit (gcm_reverse (of_nat i)) 7" by (simp add: bit_gcm_reverse)
  show ?thesis
    using True gf_mult_byte_odd [OF assms(1) b7] assms
    by (simp only: mult_step_def cache_this_odd if_True of_nat_cache_this of_nat_cache_other)
      (simp add: gcm_xor_16)
next
  case False
  then have b7: "\<not> bit (gcm_reverse (of_nat i)) 7" by (simp add: bit_gcm_reverse)
  show ?thesis
    using False gf_mult_byte_even [OF assms(1) b7] assms
    by (simp only: mult_step_def cache_this_odd if_False of_nat_cache_this of_nat_cache_other)
      (simp add: gcm_multiply_x_eq_mul_x)
qed

lemma gcm_cache_mult_table:
  assumes "statics_wf st" "length key = 16"
  shows "gcm_cached_mult (gcm_cache e kp key st) =
           map (\<lambda>n. gf_mult_byte key (of_nat n)) [0..<256]"
  unfolding gcm_cache_mult
proof (rule fill_table [where P = "\<lambda>d. length d = 16" and F = "mult_step key"
      and T = "\<lambda>i. unat (cache_this i)" and G = "\<lambda>i. unat (cache_other i)"
      and S = "\<lambda>n. gf_mult_byte key (of_nat n)"])
  show "length (gcm_cached_mult st) = 256" using assms by (simp add: statics_wf_def)
  show "\<forall>n<256. length (gcm_cached_mult st ! n) = 16"
    using assms by (simp add: statics_wf_def list_all_length)
  show "gcm_cached_mult st ! 0 = gf_mult_byte key (of_nat 0)"
    using assms by (simp add: statics_wf_def)
  show "\<forall>i\<in>{1..<256}. unat (cache_this i) < 256 \<and> unat (cache_this i) \<noteq> 0"
    by (rule cache_this_range)
  show "\<forall>i\<in>{1..<256}. unat (cache_other i) = 0
      \<or> (\<exists>j\<in>{1..<i}. unat (cache_this j) = unat (cache_other i))"
    by (rule cache_other_written)
  show "\<forall>n\<in>{1..<256}. \<exists>i\<in>{1..<256}. unat (cache_this i) = n"
    by (rule cache_this_surj)
  show "\<forall>i\<in>{1..<256}. \<forall>d. length d = 16 \<longrightarrow>
      mult_step key i (gf_mult_byte key (of_nat (unat (cache_other i)))) d =
      gf_mult_byte key (of_nat (unat (cache_this i)))"
    using mult_step_spec [OF assms(2)] by blast
  show "\<forall>n<256. length (gf_mult_byte key (of_nat n)) = 16"
    using assms(2) by simp
qed

lemma gcm_cached_mult_nth:
  assumes "statics_wf st" "length key = 16"
  shows "gcm_cached_mult (gcm_cache e kp key st) ! unat (b :: u8) = gf_mult_byte key b"
proof -
  have "unat b < 256" by (rule unat_u8_less)
  then show ?thesis
    unfolding gcm_cache_mult_table [OF assms] by (simp del: upt_Suc)
qed

lemma statics_wf_gcm_cache:
  assumes "statics_wf st" "length key = 16"
  shows "statics_wf (gcm_cache e kp key st)"
  unfolding statics_wf_def gcm_cache_mult_table [OF assms] gcm_cache_reduce_table [OF assms(1)]
  using assms(2) by (simp add: list_all_iff del: upt_Suc)

lemma set_dword_xor:
  assumes "length d = 16" "length s = 16" "k < 4"
  shows "set_dword e d k (get_dword e d k XOR get_dword e s k) =
           take (4 * k) d @ xor_bytes (take 4 (drop (4 * k) d)) (take 4 (drop (4 * k) s))
             @ drop (4 * k + 4) d"
proof -
  have ld: "length (take 4 (drop (4 * k) d)) = 4" and ls: "length (take 4 (drop (4 * k) s)) = 4"
    using assms by simp_all
  have "store_native e 4 ((load_native e (take 4 (drop (4 * k) d)) :: u32)
          XOR load_native e (take 4 (drop (4 * k) s))) =
        xor_bytes (take 4 (drop (4 * k) d)) (take 4 (drop (4 * k) s))"
    using store_native_load_native [OF ld, of e, where ?'a = 32]
      store_native_load_native [OF ls, of e, where ?'a = 32]
    by (simp add: store_native_xor xor_bytes_def)
  then show ?thesis by (simp add: set_dword_def get_dword_def)
qed

lemma gcm_xor_block_bytes:
  assumes "length src = 16" "length dst = 16"
  shows "gcm_xor_block e src dst = xor_bytes src dst"
proof -
  obtain x0 x1 x2 x3 x4 x5 x6 x7 x8 x9 x10 x11 x12 x13 x14 x15
    where s: "src = [x0, x1, x2, x3, x4, x5, x6, x7, x8, x9, x10, x11, x12, x13, x14, x15]"
    using assms(1) by (rule list16)
  obtain y0 y1 y2 y3 y4 y5 y6 y7 y8 y9 y10 y11 y12 y13 y14 y15
    where d: "dst = [y0, y1, y2, y3, y4, y5, y6, y7, y8, y9, y10, y11, y12, y13, y14, y15]"
    using assms(2) by (rule list16)
  have l: "length [a0, a1, a2, a3, a4, a5, a6, a7, a8, a9, a10, a11, a12, a13, a14, a15] = 16"
    for a0 a1 a2 a3 a4 a5 a6 a7 a8 a9 a10 a11 a12 a13 a14 a15 :: u8 by simp
  define d0 where "d0 = set_dword e dst 0 (get_dword e dst 0 XOR get_dword e src 0)"
  define d1 where "d1 = set_dword e d0 1 (get_dword e d0 1 XOR get_dword e src 1)"
  define d2 where "d2 = set_dword e d1 2 (get_dword e d1 2 XOR get_dword e src 2)"
  define d3 where "d3 = set_dword e d2 3 (get_dword e d2 3 XOR get_dword e src 3)"
  have e0: "d0 = [y0 XOR x0, y1 XOR x1, y2 XOR x2, y3 XOR x3, y4, y5, y6, y7, y8, y9, y10, y11,
      y12, y13, y14, y15]"
    unfolding d0_def s d by (subst set_dword_xor [OF l l]) simp_all
  have e1: "d1 = [y0 XOR x0, y1 XOR x1, y2 XOR x2, y3 XOR x3, y4 XOR x4, y5 XOR x5, y6 XOR x6,
      y7 XOR x7, y8, y9, y10, y11, y12, y13, y14, y15]"
    unfolding d1_def e0 s by (subst set_dword_xor [OF l l]) simp_all
  have e2: "d2 = [y0 XOR x0, y1 XOR x1, y2 XOR x2, y3 XOR x3, y4 XOR x4, y5 XOR x5, y6 XOR x6,
      y7 XOR x7, y8 XOR x8, y9 XOR x9, y10 XOR x10, y11 XOR x11, y12, y13, y14, y15]"
    unfolding d2_def e1 s by (subst set_dword_xor [OF l l]) simp_all
  have e3: "d3 = [y0 XOR x0, y1 XOR x1, y2 XOR x2, y3 XOR x3, y4 XOR x4, y5 XOR x5, y6 XOR x6,
      y7 XOR x7, y8 XOR x8, y9 XOR x9, y10 XOR x10, y11 XOR x11, y12 XOR x12, y13 XOR x13,
      y14 XOR x14, y15 XOR x15]"
    unfolding d3_def e2 s by (subst set_dword_xor [OF l l]) simp_all
  have "gcm_xor_block e src dst = d3"
    by (simp only: gcm_xor_block_def Let_def d0_def d1_def d2_def d3_def)
  then show ?thesis
    unfolding e3 s d by (simp add: xor.commute)
qed

lemma length_gcm_xor_block:
  "length src = 16 \<Longrightarrow> length dst = 16 \<Longrightarrow> length (gcm_xor_block e src dst) = 16"
  by (simp add: gcm_xor_block_bytes)

lemma foldl_horner_step_from:
  assumes "length h = 16" "length acc = 16"
  shows "foldl (horner_step h) acc cs =
           xor_bytes ((mul_x ^^ length cs) acc) (foldl (horner_step h) zero_block cs)"
proof (induction cs rule: rev_induct)
  case Nil
  show ?case using assms by simp
next
  case (snoc c cs)
  define A where "A = (mul_x ^^ length cs) acc"
  define B where "B = foldl (horner_step h) zero_block cs"
  define C where "C = (if c then h else zero_block)"
  have l: "length A = 16" "length B = 16" "length C = 16"
    using assms by (simp_all add: A_def B_def C_def)
  have hs: "horner_step h a c = xor_bytes (mul_x a) C" for a
    by (simp add: horner_step_def C_def)
  have "foldl (horner_step h) acc (cs @ [c]) = horner_step h (xor_bytes A B) c"
    by (simp add: snoc.IH A_def B_def)
  also have "\<dots> = xor_bytes (mul_x (xor_bytes A B)) C"
    by (rule hs)
  also have "\<dots> = xor_bytes (mul_x A) (xor_bytes (mul_x B) C)"
    using l by (simp add: mul_x_xor xor_bytes_assoc)
  also have "\<dots> = xor_bytes (mul_x A) (horner_step h B c)"
    by (simp only: hs)
  also have "\<dots> = xor_bytes ((mul_x ^^ length (cs @ [c])) acc)
      (foldl (horner_step h) zero_block (cs @ [c]))"
    by (simp add: A_def B_def)
  finally show ?case .
qed

lemma foldl_horner_step_byte:
  assumes "length h = 16" "length acc = 16"
  shows "foldl (horner_step h) acc (coefficients b) = xor_bytes ((mul_x ^^ 8) acc) (gf_mult_byte h b)"
  using foldl_horner_step_from [OF assms, of "coefficients b"]
  by (simp add: gf_mult_byte_def coefficients_def)

lemma gcm_shoup_loop_horner:
  assumes "tables_for e key st" "length key = 16" "length poly = 16" "length res = 16" "n \<le> 16"
  shows "gcm_shoup_loop e st poly res n =
           foldl (horner_step key) res (concat (map coefficients (rev (take n poly))))"
  using assms(4,5)
proof (induction n arbitrary: res)
  case 0
  show ?case by simp
next
  case (Suc n)
  have n: "n < length poly" using Suc.prems assms(3) by simp
  have ub: "unat (poly ! n) < 256" by (rule unat_u8_less)
  have r: "gcm_cached_reduce st ! unat (last res) = cpu_to_be16 e (reduce_spec (last res))"
    using assms(1) unat_u8_less [of "last res"] by (simp add: tables_for_def del: upt_Suc)
  have m: "gcm_cached_mult st ! unat (poly ! n) = gf_mult_byte key (poly ! n)"
    using assms(1) ub by (simp add: tables_for_def del: upt_Suc)
  have x8: "gcm_multiply_x_8 e st res = (mul_x ^^ 8) res"
    using Suc.prems(1)
    by (simp add: gcm_multiply_x_8_bytes r store_native_cpu_to_be16 mul_x_8_spec)
  define res2 where "res2 = xor_bytes (gf_mult_byte key (poly ! n)) ((mul_x ^^ 8) res)"
  have l2: "length res2 = 16" using assms(2) Suc.prems(1) by (simp add: res2_def)
  have st: "gcm_shoup_loop e st poly res (Suc n) = gcm_shoup_loop e st poly res2 n"
    using assms(2) Suc.prems(1)
    by (simp only: gcm_shoup_loop.simps Let_def x8 m res2_def)
      (simp add: gcm_xor_block_bytes)
  have "res2 = foldl (horner_step key) res (coefficients (poly ! n))"
    using foldl_horner_step_byte [OF assms(2) Suc.prems(1)] by (simp add: res2_def xor_bytes_commute)
  then have "gcm_shoup_loop e st poly res (Suc n) =
      foldl (horner_step key) (foldl (horner_step key) res (coefficients (poly ! n)))
        (concat (map coefficients (rev (take n poly))))"
    using Suc.IH [OF l2] Suc.prems(2) by (simp only: st)
  also have "\<dots> = foldl (horner_step key) res
      (concat (map coefficients (rev (take (Suc n) poly))))"
    using n by (simp add: take_Suc_conv_app_nth)
  finally show ?case .
qed

lemma shoup_is_gf_mult:
  assumes "tables_for e key st" "length key = 16" "length poly = 16"
  shows "gcm_shoup_loop e st poly (gcm_cached_mult st ! unat (poly ! 15)) 15 = gf_mult key poly"
proof -
  have m: "gcm_cached_mult st ! unat (poly ! 15) = gf_mult_byte key (poly ! 15)"
    using assms(1) unat_u8_less [of "poly ! 15"] by (simp add: tables_for_def del: upt_Suc)
  have "take (Suc 15) poly = take 15 poly @ [poly ! 15]"
    by (rule take_Suc_conv_app_nth) (simp add: assms(3))
  then have p: "poly = take 15 poly @ [poly ! 15]"
    using assms(3) by simp
  have "gf_mult key poly = foldl (horner_step key) zero_block
      (concat (map coefficients (poly ! 15 # rev (take 15 poly))))"
    unfolding gf_mult_def by (subst p) simp
  moreover have "gcm_shoup_loop e st poly (gf_mult_byte key (poly ! 15)) 15 =
      foldl (horner_step key) (gf_mult_byte key (poly ! 15))
        (concat (map coefficients (rev (take 15 poly))))"
    using assms by (intro gcm_shoup_loop_horner) simp_all
  ultimately show ?thesis
    by (simp add: m gf_mult_byte_def)
qed

lemma tables_for_gcm_cache:
  "statics_wf st \<Longrightarrow> length key = 16 \<Longrightarrow> tables_for e key (gcm_cache e kp key st)"
  by (simp only: tables_for_def gcm_cache_mult_table gcm_cache_reduce_table)

lemma cache_ok_gcm_cache:
  "statics_wf st \<Longrightarrow> length key = 16 \<Longrightarrow> cache_ok e kp key (gcm_cache e kp key st)"
  by (simp add: cache_ok_def statics_wf_gcm_cache tables_for_gcm_cache)

lemma cache_ok_other_gcm_cache:
  assumes "statics_wf st" "length key = 16" "kp' \<noteq> kp"
  shows "cache_ok e kp' key' (gcm_cache e kp key st)"
  using assms by (simp add: cache_ok_def statics_wf_gcm_cache)

lemma length_gf_mult [simp]: "length h = 16 \<Longrightarrow> length (gf_mult h b) = 16"
  by (simp add: gf_mult_def)

lemma gcm_multiply_key_spec:
  assumes "cache_ok e kp key st" "length key = 16" "length poly = 16"
  shows "fst (gcm_multiply_key e st kp key poly) = gf_mult key poly"
    and "cache_ok e kp key (snd (gcm_multiply_key e st kp key poly))"
    and "gcm_cached_key (snd (gcm_multiply_key e st kp key poly)) = kp"
proof -
  define st1 where "st1 = (if gcm_cached_key st \<noteq> kp then gcm_cache e kp key st else st)"
  have wf: "statics_wf st" using assms(1) by (simp add: cache_ok_def)
  have t: "tables_for e key st1"
    using assms(1,2) wf by (auto simp: st1_def cache_ok_def tables_for_gcm_cache)
  have k: "gcm_cached_key st1 = kp" by (simp add: st1_def)
  have w1: "statics_wf st1" using wf assms(2) by (simp add: st1_def statics_wf_gcm_cache)
  have r: "gcm_multiply_key e st kp key poly =
      (gcm_shoup_loop e st1 poly (gcm_cached_mult st1 ! unat (poly ! 15)) 15, st1)"
    by (simp only: gcm_multiply_key_def Let_def st1_def)
  show "fst (gcm_multiply_key e st kp key poly) = gf_mult key poly"
    using shoup_is_gf_mult [OF t assms(2,3)] by (simp only: r fst_conv)
  show "cache_ok e kp key (snd (gcm_multiply_key e st kp key poly))"
    using t w1 by (simp only: r snd_conv) (simp add: cache_ok_def)
  show "gcm_cached_key (snd (gcm_multiply_key e st kp key poly)) = kp"
    using k by (simp only: r snd_conv)
qed

lemma gcm_multiply_key_eq:
  assumes "cache_ok e kp key st" "length key = 16" "length poly = 16"
  obtains st' where "gcm_multiply_key e st kp key poly = (gf_mult key poly, st')"
    and "cache_ok e kp key st'"
  using gcm_multiply_key_spec [OF assms] by (metis prod.collapse)

section \<open>Processing data\<close>

subsection \<open>The caller's memory\<close>

lemma length_read_bytes [simp]: "length (read_bytes mem p n) = n"
  by (simp add: read_bytes_def)

lemma nth_read_bytes [simp]: "i < n \<Longrightarrow> read_bytes mem p n ! i = mem (p + i)"
  by (simp add: read_bytes_def)

lemma read_bytes_0 [simp]: "read_bytes mem p 0 = []"
  by (simp add: read_bytes_def)

lemma read_bytes_Suc: "read_bytes mem p (Suc n) = mem p # read_bytes mem (Suc p) n"
  by (rule nth_equalityI) (auto simp: nth_Cons split: nat.splits)

lemma read_bytes_add: "read_bytes mem p (m + n) = read_bytes mem p m @ read_bytes mem (p + m) n"
  by (rule nth_equalityI) (auto simp: nth_append add.assoc)

lemma take_read_bytes: "take m (read_bytes mem p n) = read_bytes mem p (min m n)"
  by (rule nth_equalityI) auto

lemma drop_read_bytes: "drop m (read_bytes mem p n) = read_bytes mem (p + m) (n - m)"
  by (rule nth_equalityI) (auto simp: add.assoc)

lemma write_bytes_Nil [simp]: "write_bytes mem p [] = mem"
  by (rule ext) (auto simp: write_bytes_def)

lemma write_bytes_Cons: "write_bytes mem p (b # bs) = write_bytes (mem(p := b)) (Suc p) bs"
proof (rule ext)
  fix x
  show "write_bytes mem p (b # bs) x = write_bytes (mem(p := b)) (Suc p) bs x"
  proof (cases "x = p")
    case True then show ?thesis by (simp add: write_bytes_def)
  next
    case False
    then have "p \<le> x \<Longrightarrow> x - p = Suc (x - Suc p)" by simp
    then show ?thesis using False by (auto simp: write_bytes_def)
  qed
qed

lemma read_write_same: "read_bytes (write_bytes mem p bs) p (length bs) = bs"
  by (rule nth_equalityI) (auto simp: write_bytes_def)

lemma read_write_disjoint:
  "q + n \<le> p \<or> p + length bs \<le> q \<Longrightarrow> read_bytes (write_bytes mem p bs) q n = read_bytes mem q n"
  by (rule nth_equalityI) (auto simp: write_bytes_def)

lemma write_bytes_append:
  "write_bytes (write_bytes mem p a) (p + length a) b = write_bytes mem p (a @ b)"
  by (rule ext) (auto simp: write_bytes_def nth_append)

lemma gcm_xor_mem_write:
  "f \<le> length tmp \<Longrightarrow> dst \<le> src \<or> src + f \<le> dst \<Longrightarrow>
     gcm_xor_mem mem src tmp dst f = write_bytes mem dst (xor_bytes (read_bytes mem src f) (take f tmp))"
proof (induction mem src tmp dst f rule: gcm_xor_mem.induct)
  case (1 mem src1 b src2 dst len)
  have r: "read_bytes (mem(dst := mem src1 XOR b)) (Suc src1) len = read_bytes mem (Suc src1) len"
    using "1.prems"(2) by (intro nth_equalityI) auto
  have l: "len \<le> length src2" using "1.prems"(1) by simp
  have c: "dst + 1 \<le> src1 + 1 \<or> src1 + 1 + len \<le> dst + 1" using "1.prems"(2) by auto
  have "gcm_xor_mem mem src1 (b # src2) dst (Suc len) =
      write_bytes (mem(dst := mem src1 XOR b)) (dst + 1)
        (xor_bytes (read_bytes (mem(dst := mem src1 XOR b)) (src1 + 1) len) (take len src2))"
    using "1.IH" [OF l c] by (simp add: fun_upd_def)
  then show ?case
    by (simp add: r read_bytes_Suc write_bytes_Cons)
qed simp_all

subsection \<open>The processing loop\<close>

lemma gcm_count_1_inc32: "length ctr = 16 \<Longrightarrow> gcm_count e ctr 1 = inc32 ctr"
  by (simp add: gcm_count_bytes inc32_def)

lemma length_inc32 [simp]: "length ctr = 16 \<Longrightarrow> length (inc32 ctr) = 16"
  by (simp add: inc32_def)

lemma length_funpow_inc32 [simp]: "length ctr = 16 \<Longrightarrow> length ((inc32 ^^ n) ctr) = 16"
  by (induction n) simp_all

lemma length_pad_block [simp]: "length bs \<le> 16 \<Longrightarrow> length (pad_block bs) = 16"
  by (simp add: pad_block_def)

lemma gcm_xor_pad:
  assumes "length a = n" "n \<le> 16" "length y = 16"
  shows "gcm_xor a y y n = xor_bytes y (pad_block a)"
proof -
  have "gcm_xor a y y n = xor_bytes a (take n y) @ drop n y"
    using assms by (simp add: gcm_xor_bytes)
  also have "\<dots> = xor_bytes (take n y) a @ xor_bytes (drop n y) (replicate (16 - n) 0)"
    using assms by (simp add: xor_bytes_commute xor_bytes_zero_right)
  also have "\<dots> = xor_bytes (take n y @ drop n y) (a @ replicate (16 - n) 0)"
    using assms by (intro xor_bytes_append [symmetric]) simp
  finally show ?thesis using assms by (simp add: pad_block_def)
qed

lemma ghash_bytes_Nil [simp]: "ghash_bytes h y [] = y"
  by (simp add: ghash_bytes.simps)

lemma ghash_bytes_step:
  "bs \<noteq> [] \<Longrightarrow>
     ghash_bytes h y bs = ghash_bytes h (gf_mult h (xor_bytes y (pad_block (take 16 bs)))) (drop 16 bs)"
  by (subst ghash_bytes.simps) simp

lemma length_ghash_bytes [simp]:
  "length h = 16 \<Longrightarrow> length y = 16 \<Longrightarrow> length (ghash_bytes h y bs) = 16"
proof (induction h y bs rule: ghash_bytes.induct)
  case (1 h y bs)
  then show ?case by (cases "bs = []") (simp_all add: ghash_bytes_step)
qed

lemma ctr_crypt_Nil [simp]: "ctr_crypt c k ctr [] = []"
  by (simp add: ctr_crypt.simps)

lemma ctr_crypt_step:
  "bs \<noteq> [] \<Longrightarrow>
     ctr_crypt c k ctr bs =
       xor_bytes (take 16 bs) (cipher_encrypt c k (inc32 ctr)) @ ctr_crypt c k (inc32 ctr) (drop 16 bs)"
  by (subst ctr_crypt.simps) simp

lemma length_ctr_crypt [simp]:
  "block_cipher c k \<Longrightarrow> length ctr = 16 \<Longrightarrow> length (ctr_crypt c k ctr bs) = length bs"
proof (induction c k ctr bs rule: ctr_crypt.induct)
  case (1 c k ctr bs)
  show ?case
  proof (cases "bs = []")
    case True then show ?thesis by simp
  next
    case False
    have "length (cipher_encrypt c k (inc32 ctr)) = 16"
      using "1.prems" by (simp add: block_cipher_def)
    then show ?thesis
      using False "1.IH" "1.prems" by (simp add: ctr_crypt_step)
  qed
qed

lemma gcm_process_loop_0 [simp]: "gcm_process_loop e context (ctx, st, mem) src dst hash 0 = (ctx, st, mem)"
  by (simp add: gcm_process_loop.simps)

lemma session_ok_hash:
  "session_ok e context ctx st \<Longrightarrow> length h = 16 \<Longrightarrow> cache_ok e (key_ptr context) (ctx_key ctx) st'
     \<Longrightarrow> session_ok e context (ctx\<lparr>ctx_hash := h\<rparr>) st'"
  by (simp add: session_ok_def context_wf_def)

lemma gcm_process_loop_hash_only:
  assumes "session_ok e context ctx st"
  shows "\<exists>st'. gcm_process_loop e context (ctx, st, mem) src 0 hash len =
           (ctx\<lparr>ctx_hash := ghash_bytes (ctx_key ctx) (ctx_hash ctx) (read_bytes mem hash len)\<rparr>,
            st', mem)
         \<and> cache_ok e (key_ptr context) (ctx_key ctx) st'"
  using assms
proof (induction len arbitrary: ctx st hash rule: less_induct)
  case (less len)
  show ?case
  proof (cases "len = 0")
    case True
    then show ?thesis using less.prems by (auto simp: session_ok_def)
  next
    case False
    define f where "f = (if len > 16 then 16 else len)"
    have f: "0 < f" "f \<le> 16" "f \<le> len" "f = min 16 len" using False by (auto simp: f_def)
    define key where "key = ctx_key ctx"
    define y where "y = ctx_hash ctx"
    define frag where "frag = read_bytes mem hash f"
    define h1 where "h1 = gcm_xor frag y y f"
    have lk: "length key = 16" and ly: "length y = 16"
      and ok: "cache_ok e (key_ptr context) key st"
      using less.prems by (simp_all add: session_ok_def context_wf_def key_def y_def)
    have h1: "h1 = xor_bytes y (pad_block frag)"
      unfolding h1_def using f ly by (intro gcm_xor_pad) (simp_all add: frag_def)
    have lh1: "length h1 = 16" using f ly by (simp add: h1 frag_def)
    obtain st1 where m: "gcm_multiply_key e st (key_ptr context) key h1 = (gf_mult key h1, st1)"
      and ok1: "cache_ok e (key_ptr context) key st1"
      using gcm_multiply_key_eq [OF ok lk lh1] by blast
    define ctx1 where "ctx1 = ctx\<lparr>ctx_hash := gf_mult key h1\<rparr>"
    have s1: "session_ok e context ctx1 st1"
      unfolding ctx1_def using less.prems ok1 lk by (intro session_ok_hash) (simp_all add: key_def)
    have unfold: "gcm_process_loop e context (ctx, st, mem) src 0 hash len =
        gcm_process_loop e context (ctx1, st1, mem) src 0 (hash + f) (len - f)"
      using False m
      by (subst gcm_process_loop.simps)
        (simp add: Let_def f_def [symmetric] frag_def [symmetric] y_def [symmetric]
          h1_def [symmetric] key_def [symmetric] ctx1_def)
    have lt: "len - f < len" using f by simp
    from less.IH [OF lt s1, of "hash + f"] obtain st' where
      r: "gcm_process_loop e context (ctx1, st1, mem) src 0 (hash + f) (len - f) =
            (ctx1\<lparr>ctx_hash := ghash_bytes (ctx_key ctx1) (ctx_hash ctx1)
               (read_bytes mem (hash + f) (len - f))\<rparr>, st', mem)"
      and ok': "cache_ok e (key_ptr context) (ctx_key ctx1) st'" by blast
    have rd: "read_bytes mem hash len \<noteq> []" using False by (metis length_read_bytes length_0_conv)
    have g: "ghash_bytes key y (read_bytes mem hash len) =
        ghash_bytes key (gf_mult key h1) (read_bytes mem (hash + f) (len - f))"
      using f by (subst ghash_bytes_step [OF rd])
        (simp add: take_read_bytes drop_read_bytes h1 frag_def min.commute;
          cases "len > 16"; simp add: f_def drop_read_bytes)
    show ?thesis
      unfolding unfold r using ok' g
      by (simp add: ctx1_def key_def y_def)
  qed
qed

lemma session_ok_step:
  "session_ok e context ctx st \<Longrightarrow> length h = 16 \<Longrightarrow> length c = 16
     \<Longrightarrow> cache_ok e (key_ptr context) (ctx_key ctx) st'
     \<Longrightarrow> session_ok e context (ctx\<lparr>ctx_ctr := c, ctx_hash := h\<rparr>) st'"
  by (simp add: session_ok_def context_wf_def)

lemma funpow_inc32_blocks:
  "0 < len \<Longrightarrow> (inc32 ^^ ((len + 15) div 16)) ctr =
     (inc32 ^^ ((len - min 16 len + 15) div 16)) (inc32 ctr)"
proof -
  assume l: "0 < len"
  have "(len + 15) div 16 = Suc ((len - min 16 len + 15) div 16)"
  proof (cases "len \<ge> 16")
    case True
    then have "len + 15 = (len - 16 + 15) + 16" by simp
    then have "(len + 15) div 16 = (len - 16 + 15) div 16 + 1" by (metis div_add_self2 zero_neq_numeral)
    then show ?thesis using True by (simp add: min_def)
  next
    case False
    then have "(len + 15) div 16 = 1" using l by simp
    then show ?thesis using False by (simp add: min_def)
  qed
  then show ?thesis by (simp add: funpow_swap1)
qed

lemma xor_bytes_take_right: "length a = n \<Longrightarrow> xor_bytes a (take n b) = xor_bytes a b"
proof (induction a arbitrary: n b)
  case Nil show ?case by simp
next
  case (Cons x xs)
  then obtain m where "n = Suc m" by auto
  with Cons show ?case by (cases b) auto
qed

lemma gcm_process_loop_data:
  assumes "session_ok e context ctx st" "dst \<noteq> 0"
    and "dst \<le> src \<or> src + len \<le> dst"
    and "hash = dst \<or> (hash = src \<and> (src + len \<le> dst \<or> dst + len \<le> src))"
  shows "\<exists>st'. gcm_process_loop e context (ctx, st, mem) src dst hash len =
           (ctx\<lparr>ctx_ctr := (inc32 ^^ ((len + 15) div 16)) (ctx_ctr ctx),
                ctx_hash := ghash_bytes (ctx_key ctx) (ctx_hash ctx)
                  (if hash = dst
                   then ctr_crypt (raw_cipher ctx) (raw_ctx ctx) (ctx_ctr ctx) (read_bytes mem src len)
                   else read_bytes mem src len)\<rparr>,
            st',
            write_bytes mem dst
              (ctr_crypt (raw_cipher ctx) (raw_ctx ctx) (ctx_ctr ctx) (read_bytes mem src len)))
         \<and> cache_ok e (key_ptr context) (ctx_key ctx) st'"
  using assms
proof (induction len arbitrary: ctx st mem src dst hash rule: less_induct)
  case (less len)
  show ?case
  proof (cases "len = 0")
    case True
    then show ?thesis using less.prems by (auto simp: session_ok_def)
  next
    case False
    define f where "f = (if len > 16 then 16 else len)"
    have f: "0 < f" "f \<le> 16" "f \<le> len" "f = min 16 len" using False by (auto simp: f_def)
    define key where "key = ctx_key ctx"
    define y where "y = ctx_hash ctx"
    define c where "c = raw_cipher ctx"
    define k where "k = raw_ctx ctx"
    define ctr where "ctr = ctx_ctr ctx"
    define input where "input = read_bytes mem src len"
    have lk: "length key = 16" and ly: "length y = 16" and lc: "length ctr = 16"
      and bc: "block_cipher c k"
      and ok: "cache_ok e (key_ptr context) key st"
      using less.prems(1)
      by (simp_all add: session_ok_def context_wf_def key_def y_def ctr_def c_def k_def)
    define tmp where "tmp = cipher_encrypt c k (inc32 ctr)"
    have lt: "length tmp = 16" using bc lc by (simp add: tmp_def block_cipher_def)
    define out1 where "out1 = xor_bytes (read_bytes mem src f) (take f tmp)"
    have lo1: "length out1 = f" using f lt by (simp add: out1_def)
    define mem1 where "mem1 = write_bytes mem dst out1"
    have xm: "gcm_xor_mem mem src tmp dst f = mem1"
      unfolding mem1_def out1_def using less.prems(3) f lt
      by (intro gcm_xor_mem_write) auto
    have o1: "out1 = xor_bytes (take 16 input) tmp"
      using f by (simp add: out1_def input_def take_read_bytes xor_bytes_take_right)
    define frag where "frag = read_bytes mem1 hash f"
    have frag: "frag = (if hash = dst then out1 else read_bytes mem src f)"
    proof (cases "hash = dst")
      case True
      then show ?thesis using read_write_same [of mem dst out1] lo1 by (simp add: frag_def mem1_def)
    next
      case False
      with less.prems(4) have h: "hash = src" "src + len \<le> dst \<or> dst + len \<le> src" by auto
      have "read_bytes (write_bytes mem dst out1) src f = read_bytes mem src f"
        using h(2) f lo1 by (intro read_write_disjoint) auto
      then show ?thesis using False h(1) by (simp add: frag_def mem1_def)
    qed
    define h1 where "h1 = gcm_xor frag y y f"
    have lf: "length frag = f" by (simp add: frag_def)
    have h1: "h1 = xor_bytes y (pad_block frag)"
      unfolding h1_def using f ly lf by (intro gcm_xor_pad) simp_all
    have lh1: "length h1 = 16" using f ly lf by (simp add: h1)
    obtain st1 where m: "gcm_multiply_key e st (key_ptr context) key h1 = (gf_mult key h1, st1)"
      and ok1: "cache_ok e (key_ptr context) key st1"
      using gcm_multiply_key_eq [OF ok lk lh1] by blast
    define ctx1 where "ctx1 = ctx\<lparr>ctx_ctr := inc32 ctr, ctx_hash := gf_mult key h1\<rparr>"
    have s1: "session_ok e context ctx1 st1"
      unfolding ctx1_def using less.prems(1) ok1 lk lc
      by (intro session_ok_step) (simp_all add: key_def)
    have unfold: "gcm_process_loop e context (ctx, st, mem) src dst hash len =
        gcm_process_loop e context (ctx1, st1, mem1) (src + f) (dst + f) (hash + f) (len - f)"
      using False m less.prems(2) lc xm
      by (subst gcm_process_loop.simps)
        (simp add: Let_def f_def [symmetric] ctr_def [symmetric] gcm_count_1_inc32
          c_def [symmetric] k_def [symmetric] tmp_def [symmetric] frag_def [symmetric]
          y_def [symmetric] h1_def [symmetric] key_def [symmetric] ctx1_def)
    have lt': "len - f < len" using f by simp
    have p2: "dst + f \<noteq> 0" using less.prems(2) by simp
    have p3: "dst + f \<le> src + f \<or> src + f + (len - f) \<le> dst + f"
      using less.prems(3) f by auto
    have p4: "hash + f = dst + f \<or> (hash + f = src + f
        \<and> (src + f + (len - f) \<le> dst + f \<or> dst + f + (len - f) \<le> src + f))"
      using less.prems(4) f by auto
    have rest: "read_bytes mem1 (src + f) (len - f) = read_bytes mem (src + f) (len - f)"
      unfolding mem1_def using less.prems(3) f lo1 by (intro read_write_disjoint) auto
    define input2 where "input2 = read_bytes mem (src + f) (len - f)"
    define out2 where "out2 = ctr_crypt c k (inc32 ctr) input2"
    from less.IH [OF lt' s1 p2 p3 p4, of mem1] obtain st' where
      r: "gcm_process_loop e context (ctx1, st1, mem1) (src + f) (dst + f) (hash + f) (len - f) =
            (ctx1\<lparr>ctx_ctr := (inc32 ^^ ((len - f + 15) div 16)) (inc32 ctr),
                  ctx_hash := ghash_bytes key (gf_mult key h1)
                    (if hash = dst then out2 else input2)\<rparr>,
             st', write_bytes mem1 (dst + f) out2)"
      and ok': "cache_ok e (key_ptr context) key st'"
      by (auto simp: ctx1_def rest input2_def out2_def key_def c_def k_def)
    have ne: "input \<noteq> []" using False by (metis input_def length_read_bytes length_0_conv)
    have d16: "drop 16 input = input2"
      by (cases "len > 16") (simp_all add: input_def input2_def drop_read_bytes f_def)
    have out: "ctr_crypt c k ctr input = out1 @ out2"
      by (subst ctr_crypt_step [OF ne]) (simp add: o1 tmp_def out2_def d16)
    have w: "write_bytes mem1 (dst + f) out2 = write_bytes mem dst (ctr_crypt c k ctr input)"
      using write_bytes_append [of mem dst out1 out2] lo1 by (simp add: mem1_def out)
    have t16: "take 16 input = read_bytes mem src f"
      using f by (simp add: input_def take_read_bytes)
    have lo: "length (out1 @ out2) = len"
      using bc lc f by (simp add: lo1 out2_def input2_def)
    have t16o: "take 16 (out1 @ out2) = out1" and d16o: "drop 16 (out1 @ out2) = out2"
      using lo1 f bc lc
      by (cases "len > 16"; simp add: f_def out2_def input2_def)+
    have g: "ghash_bytes key y (if hash = dst then ctr_crypt c k ctr input else input) =
        ghash_bytes key (gf_mult key h1) (if hash = dst then out2 else input2)"
    proof (cases "hash = dst")
      case True
      have "out1 @ out2 \<noteq> []" using lo False by auto
      then have "ghash_bytes key y (out1 @ out2) =
          ghash_bytes key (gf_mult key (xor_bytes y (pad_block (take 16 (out1 @ out2)))))
            (drop 16 (out1 @ out2))"
        by (rule ghash_bytes_step)
      then have "ghash_bytes key y (out1 @ out2) =
          ghash_bytes key (gf_mult key (xor_bytes y (pad_block out1))) out2"
        by (simp only: t16o d16o)
      then show ?thesis
        using True by (simp add: out h1 frag)
    next
      case False
      then show ?thesis
        by (simp add: ghash_bytes_step [OF ne] t16 d16 h1 frag)
    qed
    have n: "(inc32 ^^ ((len + 15) div 16)) ctr = (inc32 ^^ ((len - f + 15) div 16)) (inc32 ctr)"
      using funpow_inc32_blocks [of len ctr] False f by simp
    have "gcm_process_loop e context (ctx, st, mem) src dst hash len =
        (ctx\<lparr>ctx_ctr := (inc32 ^^ ((len + 15) div 16)) ctr,
             ctx_hash := ghash_bytes key y
               (if hash = dst then ctr_crypt c k ctr input else input)\<rparr>,
         st', write_bytes mem dst (ctr_crypt c k ctr input))"
      unfolding unfold r w g [symmetric] n [symmetric] by (simp add: ctx1_def)
    then show ?thesis
      using ok' unfolding key_def y_def ctr_def c_def k_def input_def by blast
  qed
qed

lemma session_ok_len:
  "session_ok e context (ctx\<lparr>ctx_len_data := d\<rparr>) st = session_ok e context ctx st"
  "session_ok e context (ctx\<lparr>ctx_len_add := a\<rparr>) st = session_ok e context ctx st"
  by (simp_all add: session_ok_def context_wf_def)

lemma lengths_block:
  "length buf = 16 \<Longrightarrow>
     set_len_data e (set_len_add e buf (cpu_to_be64 e a)) (cpu_to_be64 e d) = be_bytes 8 a @ be_bytes 8 d"
  by (simp add: set_len_add_def set_len_data_def store_native_cpu_to_be64)

lemma gcm_hash_spec:
  assumes "session_ok e context ctx st" "length buf = 16"
  shows "\<exists>st'. gcm_hash e context (ctx, st) buf =
           (ctx, st', gf_mult (ctx_key ctx)
              (xor_bytes (ctx_hash ctx) (be_bytes 8 (ctx_len_add ctx) @ be_bytes 8 (ctx_len_data ctx))))
         \<and> cache_ok e (key_ptr context) (ctx_key ctx) st'"
proof -
  define key where "key = ctx_key ctx"
  define lb where "lb = be_bytes 8 (ctx_len_add ctx) @ be_bytes 8 (ctx_len_data ctx)"
  have lk: "length key = 16" and ly: "length (ctx_hash ctx) = 16"
    and ok: "cache_ok e (key_ptr context) key st"
    using assms(1) by (simp_all add: session_ok_def context_wf_def key_def)
  have ll: "length lb = 16" by (simp add: lb_def)
  have x: "gcm_xor_block e (ctx_hash ctx) lb = xor_bytes (ctx_hash ctx) lb"
    using ly ll by (rule gcm_xor_block_bytes)
  have lx: "length (xor_bytes (ctx_hash ctx) lb) = 16" using ly ll by simp
  obtain st1 where m: "gcm_multiply_key e st (key_ptr context) key (xor_bytes (ctx_hash ctx) lb) =
        (gf_mult key (xor_bytes (ctx_hash ctx) lb), st1)"
      and ok1: "cache_ok e (key_ptr context) key st1"
    using gcm_multiply_key_eq [OF ok lk lx] by blast
  have "gcm_hash e context (ctx, st) buf = (ctx, st1, gf_mult key (xor_bytes (ctx_hash ctx) lb))"
    using m by (simp add: gcm_hash_def Let_def lengths_block [OF assms(2)] lb_def [symmetric] x
        key_def [symmetric])
  then show ?thesis using ok1 unfolding key_def lb_def by blast
qed

lemma gcm_process_hash_only:
  assumes "session_ok e context ctx st"
  shows "\<exists>st'. gcm_process e sz context (ctx, st, mem) 0 0 hash len =
           (ctx\<lparr>ctx_len_add := ctx_len_add ctx + of_nat (size_t_mult sz len 8),
                ctx_hash := ghash_bytes (ctx_key ctx) (ctx_hash ctx) (read_bytes mem hash len)\<rparr>,
            st', mem)
         \<and> cache_ok e (key_ptr context) (ctx_key ctx) st'"
proof -
  define ctx1 where "ctx1 = ctx\<lparr>ctx_len_add := ctx_len_add ctx + of_nat (size_t_mult sz len 8)\<rparr>"
  have s1: "session_ok e context ctx1 st" using assms by (simp add: ctx1_def session_ok_len)
  from gcm_process_loop_hash_only [OF s1, of mem 0 hash len] obtain st' where
    r: "gcm_process_loop e context (ctx1, st, mem) 0 0 hash len =
          (ctx1\<lparr>ctx_hash := ghash_bytes (ctx_key ctx1) (ctx_hash ctx1) (read_bytes mem hash len)\<rparr>,
           st', mem)"
    and ok: "cache_ok e (key_ptr context) (ctx_key ctx1) st'" by blast
  have "gcm_process e sz context (ctx, st, mem) 0 0 hash len =
      gcm_process_loop e context (ctx1, st, mem) 0 0 hash len"
    by (simp add: gcm_process_def ctx1_def)
  then show ?thesis using r ok by (auto simp: ctx1_def)
qed

lemma gcm_process_data:
  assumes "session_ok e context ctx st" "dst \<noteq> 0" "src \<noteq> 0"
    and "dst \<le> src \<or> src + len \<le> dst"
    and "hash = dst \<or> (hash = src \<and> (src + len \<le> dst \<or> dst + len \<le> src))"
  shows "\<exists>st'. gcm_process e sz context (ctx, st, mem) src dst hash len =
           (ctx\<lparr>ctx_len_data := ctx_len_data ctx + of_nat (size_t_mult sz len 8),
                ctx_ctr := (inc32 ^^ ((len + 15) div 16)) (ctx_ctr ctx),
                ctx_hash := ghash_bytes (ctx_key ctx) (ctx_hash ctx)
                  (if hash = dst
                   then ctr_crypt (raw_cipher ctx) (raw_ctx ctx) (ctx_ctr ctx) (read_bytes mem src len)
                   else read_bytes mem src len)\<rparr>,
            st',
            write_bytes mem dst
              (ctr_crypt (raw_cipher ctx) (raw_ctx ctx) (ctx_ctr ctx) (read_bytes mem src len)))
         \<and> cache_ok e (key_ptr context) (ctx_key ctx) st'"
proof -
  define ctx1 where "ctx1 = ctx\<lparr>ctx_len_data := ctx_len_data ctx + of_nat (size_t_mult sz len 8)\<rparr>"
  have s1: "session_ok e context ctx1 st" using assms(1) by (simp add: ctx1_def session_ok_len)
  from gcm_process_loop_data [OF s1 assms(2,4,5), of mem] obtain st' where
    r: "gcm_process_loop e context (ctx1, st, mem) src dst hash len =
          (ctx1\<lparr>ctx_ctr := (inc32 ^^ ((len + 15) div 16)) (ctx_ctr ctx1),
                ctx_hash := ghash_bytes (ctx_key ctx1) (ctx_hash ctx1)
                  (if hash = dst
                   then ctr_crypt (raw_cipher ctx1) (raw_ctx ctx1) (ctx_ctr ctx1) (read_bytes mem src len)
                   else read_bytes mem src len)\<rparr>,
           st',
           write_bytes mem dst
             (ctr_crypt (raw_cipher ctx1) (raw_ctx ctx1) (ctx_ctr ctx1) (read_bytes mem src len)))"
    and ok: "cache_ok e (key_ptr context) (ctx_key ctx1) st'" by blast
  have "gcm_process e sz context (ctx, st, mem) src dst hash len =
      gcm_process_loop e context (ctx1, st, mem) src dst hash len"
    using assms(3) by (simp add: gcm_process_def ctx1_def)
  then show ?thesis using r ok by (auto simp: ctx1_def)
qed

section \<open>GHASH\<close>

lemma pad_block_16 [simp]: "length b = 16 \<Longrightarrow> pad_block b = b"
  by (simp add: pad_block_def)

lemma ghash_bytes_block:
  "length b = 16 \<Longrightarrow> ghash_bytes h y b = gf_mult h (xor_bytes y b)"
  by (subst ghash_bytes.simps) auto

lemma ghash_bytes_append:
  "16 dvd length a \<Longrightarrow> ghash_bytes h y (a @ b) = ghash_bytes h (ghash_bytes h y a) b"
proof (induction h y a rule: ghash_bytes.induct)
  case (1 h y a)
  show ?case
  proof (cases "a = []")
    case True then show ?thesis by simp
  next
    case False
    then have "0 < length a" by simp
    with "1.prems" have l: "16 \<le> length a" by (rule dvd_imp_le)
    then have d: "16 dvd length (drop 16 a)" using "1.prems" by (simp add: dvd_diff_nat)
    have ab: "a @ b \<noteq> []" using False by simp
    have t: "take 16 (a @ b) = take 16 a" "drop 16 (a @ b) = drop 16 a @ b" using l by simp_all
    have "ghash_bytes h y (a @ b) =
        ghash_bytes h (gf_mult h (xor_bytes y (pad_block (take 16 a)))) (drop 16 a @ b)"
      using ghash_bytes_step [OF ab, of h y] by (simp only: t)
    also have "\<dots> = ghash_bytes h
        (ghash_bytes h (gf_mult h (xor_bytes y (pad_block (take 16 a)))) (drop 16 a)) b"
      by (rule "1.IH" [OF False d])
    also have "ghash_bytes h (gf_mult h (xor_bytes y (pad_block (take 16 a)))) (drop 16 a) =
        ghash_bytes h y a"
      by (rule ghash_bytes_step [OF False, symmetric])
    finally show ?thesis .
  qed
qed

lemma ghash_bytes_short:
  "bs \<noteq> [] \<Longrightarrow> length bs \<le> 16 \<Longrightarrow> ghash_bytes h y bs = gf_mult h (xor_bytes y (pad_block bs))"
  by (subst ghash_bytes.simps) simp

lemma ghash_bytes_zero_pad: "ghash_bytes h y (zero_pad bs) = ghash_bytes h y bs"
proof (induction h y bs rule: ghash_bytes.induct)
  case (1 h y bs)
  show ?case
  proof (cases "bs = []")
    case True then show ?thesis by (simp add: zero_pad_def)
  next
    case False
    show ?thesis
    proof (cases "length bs \<ge> 16")
      case True
      then have m: "(length bs - 16) mod 16 = length bs mod 16"
        by (simp add: le_mod_geq)
      have "zero_pad bs = (take 16 bs @ drop 16 bs) @ replicate ((16 - length bs mod 16) mod 16) 0"
        by (simp add: zero_pad_def)
      also have "\<dots> = take 16 bs @ zero_pad (drop 16 bs)"
        unfolding zero_pad_def length_drop m by (rule append_assoc)
      finally have z: "zero_pad bs = take 16 bs @ zero_pad (drop 16 bs)" .
      have l: "length (take 16 bs) = 16" using True by simp
      then have "16 dvd length (take 16 bs)" by (simp del: length_take)
      then have "ghash_bytes h y (zero_pad bs) =
          ghash_bytes h (ghash_bytes h y (take 16 bs)) (zero_pad (drop 16 bs))"
        unfolding z by (rule ghash_bytes_append)
      also have "\<dots> = ghash_bytes h (gf_mult h (xor_bytes y (pad_block (take 16 bs)))) (drop 16 bs)"
        using "1.IH" [OF False] l by (simp add: ghash_bytes_block del: length_take)
      finally show ?thesis by (simp add: ghash_bytes_step [OF False])
    next
      case False
      then have s: "length bs < 16" by simp
      then have z: "zero_pad bs = pad_block bs"
        using \<open>bs \<noteq> []\<close> by (simp add: zero_pad_def pad_block_def)
      have "length (pad_block bs) = 16" using s by simp
      then have "ghash_bytes h y (pad_block bs) = gf_mult h (xor_bytes y (pad_block bs))"
        by (rule ghash_bytes_block)
      then show ?thesis
        using \<open>bs \<noteq> []\<close> s by (simp add: z ghash_bytes_short)
    qed
  qed
qed

lemma pad_arith: "((n::nat) + (16 - n mod 16) mod 16) mod 16 = 0"
proof -
  define r where "r = n mod 16"
  define q where "q = n div 16"
  have n: "n = 16 * q + r" by (simp add: r_def q_def)
  have r: "r < 16" by (simp add: r_def)
  show ?thesis
  proof (cases "r = 0")
    case True
    then show ?thesis unfolding r_def [symmetric] by (simp add: n)
  next
    case False
    then have "(16 - r) mod 16 = 16 - r" using r by (intro mod_less) simp
    then have "n + (16 - r) mod 16 = 16 * (q + 1)" using r by (simp add: n)
    then show ?thesis unfolding r_def [symmetric] by (simp only: mod_mult_self1_is_0)
  qed
qed

lemma length_zero_pad: "16 dvd length (zero_pad bs)"
  using pad_arith [of "length bs"] unfolding zero_pad_def dvd_eq_mod_eq_0 by (simp only: length_append length_replicate)

section \<open>Sessions\<close>

lemma gcm_setkey_session:
  assumes "cipher_setkey cipher (raw_ctx ctx) k = (0, rctx)" "block_cipher cipher rctx"
    "statics_wf st"
  shows "session_ok e context (fst (snd (gcm_setkey e context (ctx, st) k cipher)))
           (snd (snd (gcm_setkey e context (ctx, st) k cipher)))"
proof -
  have lk: "length (cipher_encrypt cipher rctx zero_block) = 16"
    using assms(2) by (simp add: block_cipher_def)
  show ?thesis
    unfolding gcm_setkey_ctx [OF assms(1)] gcm_setkey_statics [OF assms(1)]
    using assms(2,3) lk
    by (simp add: session_ok_def context_wf_def cache_ok_gcm_cache)
qed

lemma gcm_setiv_12:
  "gcm_setiv e sz context (ctx, st, mem) iv 12 =
     (ctx\<lparr>ctx_hash := zero_block, ctx_len_add := 0, ctx_len_data := 0,
          ctx_ctr := read_bytes mem iv 12 @ [0, 0, 0, 1]\<rparr>, st, mem)"
  by (simp add: gcm_setiv_def Let_def set_ctr_value_def set_ctr_iv_def store_native_cpu_to_be32
      be_bytes_4_1 zero_block_def)

lemma be_bytes_8_0: "be_bytes 8 (0 :: u64) = replicate 8 0"
  by (rule nth_equalityI) (simp_all add: nth_be_bytes)

lemma gcm_process_iv:
  assumes "session_ok e context ctx st" "src \<noteq> 0"
  shows "\<exists>st'. gcm_process e sz context (ctx, st, mem) src 0 hash len =
           (ctx\<lparr>ctx_len_data := ctx_len_data ctx + of_nat (size_t_mult sz len 8),
                ctx_hash := ghash_bytes (ctx_key ctx) (ctx_hash ctx) (read_bytes mem hash len)\<rparr>,
            st', mem)
         \<and> cache_ok e (key_ptr context) (ctx_key ctx) st'"
proof -
  define ctx1 where "ctx1 = ctx\<lparr>ctx_len_data := ctx_len_data ctx + of_nat (size_t_mult sz len 8)\<rparr>"
  have s1: "session_ok e context ctx1 st" using assms(1) by (simp add: ctx1_def session_ok_len)
  from gcm_process_loop_hash_only [OF s1, of mem src hash len] obtain st' where
    r: "gcm_process_loop e context (ctx1, st, mem) src 0 hash len =
          (ctx1\<lparr>ctx_hash := ghash_bytes (ctx_key ctx1) (ctx_hash ctx1) (read_bytes mem hash len)\<rparr>,
           st', mem)"
    and ok: "cache_ok e (key_ptr context) (ctx_key ctx1) st'" by blast
  have "gcm_process e sz context (ctx, st, mem) src 0 hash len =
      gcm_process_loop e context (ctx1, st, mem) src 0 hash len"
    using assms(2) by (simp add: gcm_process_def ctx1_def)
  then show ?thesis using r ok by (auto simp: ctx1_def)
qed

lemma session_ok_reset:
  "session_ok e context ctx st \<Longrightarrow> length c = 16 \<Longrightarrow>
     session_ok e context (ctx\<lparr>ctx_hash := zero_block, ctx_len_add := a, ctx_len_data := d,
       ctx_ctr := c\<rparr>) st"
  by (simp add: session_ok_def context_wf_def)

lemma gcm_setiv_hashed_state:
  assumes "session_ok e context ctx st" "ivlen \<noteq> 12" "iv \<noteq> 0"
  shows "\<exists>st'. gcm_setiv e sz context (ctx, st, mem) iv ivlen =
           (ctx\<lparr>ctx_hash := zero_block, ctx_len_add := 0, ctx_len_data := 0,
                ctx_ctr := GHASH (ctx_key ctx)
                  (zero_pad (read_bytes mem iv ivlen) @ replicate 8 0
                     @ be_bytes 8 (of_nat (size_t_mult sz ivlen 8) :: u64))\<rparr>, st', mem)
         \<and> session_ok e context
              (ctx\<lparr>ctx_hash := zero_block, ctx_len_add := 0, ctx_len_data := 0,
                ctx_ctr := GHASH (ctx_key ctx)
                  (zero_pad (read_bytes mem iv ivlen) @ replicate 8 0
                     @ be_bytes 8 (of_nat (size_t_mult sz ivlen 8) :: u64))\<rparr>) st'"
proof -
  define key where "key = ctx_key ctx"
  define c1 where "c1 = set_ctr_value e zero_block (cpu_to_be32 e 1)"
  define ctx2 where "ctx2 = ctx\<lparr>ctx_hash := zero_block, ctx_len_add := 0, ctx_len_data := 0,
      ctx_ctr := c1\<rparr>"
  define ivb where "ivb = read_bytes mem iv ivlen"
  define y where "y = ghash_bytes key zero_block ivb"
  define lb where "lb = replicate 8 0 @ be_bytes 8 (of_nat (size_t_mult sz ivlen 8) :: u64)"
  have lk: "length key = 16" using assms(1) by (simp add: session_ok_def context_wf_def key_def)
  have lc: "length c1 = 16" by (simp add: c1_def set_ctr_value_def zero_block_def)
  have s2: "session_ok e context ctx2 st"
    unfolding ctx2_def using assms(1) lc by (rule session_ok_reset)
  from gcm_process_iv [OF s2 assms(3), of sz mem iv ivlen] obtain st3 where
    p: "gcm_process e sz context (ctx2, st, mem) iv 0 iv ivlen =
          (ctx2\<lparr>ctx_len_data := of_nat (size_t_mult sz ivlen 8), ctx_hash := y\<rparr>, st3, mem)"
    and ok3: "cache_ok e (key_ptr context) key st3"
    by (auto simp: ctx2_def y_def ivb_def key_def)
  define ctx3 where "ctx3 = ctx2\<lparr>ctx_len_data := of_nat (size_t_mult sz ivlen 8), ctx_hash := y\<rparr>"
  have ly: "length y = 16" using lk by (simp add: y_def)
  have s3: "session_ok e context ctx3 st3"
    using s2 ok3 ly by (simp add: session_ok_def context_wf_def ctx3_def ctx2_def key_def)
  have l3: "length (ctx_ctr ctx3) = 16" using lc by (simp add: ctx3_def ctx2_def)
  from gcm_hash_spec [OF s3 l3] obtain st4 where
    h: "gcm_hash e context (ctx3, st3) (ctx_ctr ctx3) = (ctx3, st4, gf_mult key (xor_bytes y lb))"
    and ok4: "cache_ok e (key_ptr context) key st4"
    by (auto simp: ctx3_def ctx2_def key_def lb_def be_bytes_8_0)
  have ll: "length lb = 16" by (simp add: lb_def)
  have "GHASH key (zero_pad ivb @ lb) = ghash_bytes key (ghash_bytes key zero_block (zero_pad ivb)) lb"
    unfolding GHASH_def by (rule ghash_bytes_append) (rule length_zero_pad)
  also have "\<dots> = gf_mult key (xor_bytes y lb)"
    using ll by (simp add: ghash_bytes_zero_pad ghash_bytes_block y_def)
  finally have g: "gf_mult key (xor_bytes y lb) = GHASH key (zero_pad ivb @ lb)" by simp
  have lg: "length (GHASH key (zero_pad ivb @ lb)) = 16"
    using lk by (simp add: GHASH_def)
  have r: "gcm_setiv e sz context (ctx, st, mem) iv ivlen =
      (ctx\<lparr>ctx_hash := zero_block, ctx_len_add := 0, ctx_len_data := 0,
           ctx_ctr := GHASH key (zero_pad ivb @ lb)\<rparr>, st4, mem)"
    using assms(2) p h
    by (simp add: gcm_setiv_def Let_def c1_def [symmetric] ctx2_def [symmetric]
        ctx3_def [symmetric] g) (simp add: ctx3_def ctx2_def)
  have "session_ok e context (ctx\<lparr>ctx_hash := zero_block, ctx_len_add := 0, ctx_len_data := 0,
      ctx_ctr := GHASH key (zero_pad ivb @ lb)\<rparr>) st4"
    using assms(1) ok4 lg by (simp add: session_ok_def context_wf_def key_def)
  with r show ?thesis unfolding key_def ivb_def lb_def by (auto simp del: append_assoc)
qed

section \<open>Initialisation vectors of other lengths\<close>

lemma toy_setkey: "cipher_setkey toy_cipher (raw_ctx toy_context) toy_key = (0, toy_schedule)"
  by (simp add: toy_cipher_def toy_key_def toy_schedule_def)

lemma toy_block_cipher: "block_cipher toy_cipher toy_schedule"
  by (simp add: block_cipher_def toy_cipher_def toy_schedule_def)

lemma toy_keyed_ctx:
  "fst toy_keyed =
     \<lparr>ctx_hash = zero_block, ctx_len_add = 0, ctx_len_data = 0,
      ctx_ctr = replicate 12 0 @ [0, 0, 0, 1], ctx_key = toy_key,
      raw_cipher = toy_cipher, raw_ctx = toy_schedule\<rparr>"
proof -
  have "cipher_encrypt toy_cipher toy_schedule zero_block = toy_key"
    by (simp add: toy_cipher_def toy_key_def toy_schedule_def zero_block_def replicate_16)
  then show ?thesis
    unfolding toy_keyed_def using gcm_setkey_ctx [OF toy_setkey, of LittleEndian 4096 initial_statics]
    by simp
qed

lemma toy_keyed_session: "session_ok LittleEndian 4096 (fst toy_keyed) (snd toy_keyed)"
  unfolding toy_keyed_def
  using gcm_setkey_session [OF toy_setkey toy_block_cipher statics_wf_initial] by simp

text \<open>
  For an initialisation vector whose length is not 12 bytes and whose length in bits fits
  \<open>size_t\<close>, \<open>gcm_setiv\<close> leaves in the counter block the value
  GHASH(H, IV || zero padding || 0^64 || [8 * ivlen]_64), with the hash and both lengths zero
  again; the 32-bit counter field is whatever GHASH produced (it is not reset to 1).
\<close>

lemma gcm_setiv_hashes_other_lengths:
  assumes "session_ok e context ctx st" "ivlen \<noteq> 12" "iv \<noteq> 0" "ivlen * 8 < 2 ^ sz"
  shows "ctx_ctr (fst (gcm_setiv e sz context (ctx, st, mem) iv ivlen))
           = GHASH (ctx_key ctx)
               (zero_pad (read_bytes mem iv ivlen) @ replicate 8 0
                  @ be_bytes 8 (of_nat (ivlen * 8) :: u64))
       \<and> drop 12 (ctx_ctr (fst (gcm_setiv e sz context (ctx, st, mem) iv ivlen)))
           = drop 12 (GHASH (ctx_key ctx)
               (zero_pad (read_bytes mem iv ivlen) @ replicate 8 0
                  @ be_bytes 8 (of_nat (ivlen * 8) :: u64)))
       \<and> ctx_hash (fst (gcm_setiv e sz context (ctx, st, mem) iv ivlen)) = replicate 16 0
       \<and> ctx_len_add (fst (gcm_setiv e sz context (ctx, st, mem) iv ivlen)) = 0
       \<and> ctx_len_data (fst (gcm_setiv e sz context (ctx, st, mem) iv ivlen)) = 0"
proof -
  have m: "size_t_mult sz ivlen 8 = ivlen * 8"
    using assms(4) by (simp add: size_t_mult_def)
  from gcm_setiv_hashed_state [OF assms(1-3), of sz mem] obtain st' where
    "gcm_setiv e sz context (ctx, st, mem) iv ivlen =
           (ctx\<lparr>ctx_hash := zero_block, ctx_len_add := 0, ctx_len_data := 0,
                ctx_ctr := GHASH (ctx_key ctx)
                  (zero_pad (read_bytes mem iv ivlen) @ replicate 8 0
                     @ be_bytes 8 (of_nat (size_t_mult sz ivlen 8) :: u64))\<rparr>, st', mem)" by blast
  then show ?thesis unfolding m by (simp add: zero_block_def)
qed

lemma toy_ghash_iv:
  "GHASH toy_key (zero_pad [7] @ replicate 8 0 @ be_bytes 8 (8 :: u64)) =
     [27, 91, 230, 97, 87, 209, 130, 113, 98, 32, 36, 0, 37, 176, 240, 24]"
proof -
  have b: "zero_pad [7] @ replicate 8 0 @ be_bytes 8 (8 :: u64) =
      [7, 0, 0, 0, 0, 0, 0, 0, 0, 0, 0, 0, 0, 0, 0, 0] @ [0, 0, 0, 0, 0, 0, 0, 0, 0, 0, 0, 0, 0, 0, 0, 8]"
  proof -
    have "be_bytes 8 (8 :: u64) = [0, 0, 0, 0, 0, 0, 0, 8]"
      by (simp add: be_bytes_def upt_rec)
    moreover have "zero_pad [7 :: u8] = [7, 0, 0, 0, 0, 0, 0, 0, 0, 0, 0, 0, 0, 0, 0, 0]"
      by (simp add: zero_pad_def replicate_15)
    moreover have "replicate 8 (0 :: u8) = [0, 0, 0, 0, 0, 0, 0, 0]"
      by (simp add: numeral_eq_Suc)
    ultimately show ?thesis by simp
  qed
  have m1: "gf_mult toy_key [7, 0, 0, 0, 0, 0, 0, 0, 0, 0, 0, 0, 0, 0, 0, 0] =
      [102, 52, 14, 28, 18, 56, 54, 36, 42, 112, 126, 108, 98, 72, 70, 84]"
    by (simp add: gf_mult_def coefficients_unfold horner_step_def mul_x_def toy_key_def
        zero_block_def replicate_16)
  have m2: "gf_mult toy_key [102, 52, 14, 28, 18, 56, 54, 36, 42, 112, 126, 108, 98, 72, 70, 92] =
      [27, 91, 230, 97, 87, 209, 130, 113, 98, 32, 36, 0, 37, 176, 240, 24]"
    by (simp add: gf_mult_def coefficients_unfold horner_step_def mul_x_def toy_key_def
        zero_block_def replicate_16)
  have l: "length [7 :: u8, 0, 0, 0, 0, 0, 0, 0, 0, 0, 0, 0, 0, 0, 0, 0] = 16"
    by simp
  have d: "16 dvd length [7 :: u8, 0, 0, 0, 0, 0, 0, 0, 0, 0, 0, 0, 0, 0, 0, 0]"
    unfolding l by simp
  show ?thesis
    unfolding b GHASH_def ghash_bytes_append [OF d]
    by (simp add: ghash_bytes_block zero_block_def replicate_16 m1 m2)
qed

text \<open>The one-byte vector 07: its counter field ends up 25 b0 f0 18.\<close>

lemma gcm_setiv_one_byte:
  "ctx_ctr (fst (gcm_setiv LittleEndian 32 4096 (fst toy_keyed, snd toy_keyed, toy_memory) 7 1))
       = [27, 91, 230, 97, 87, 209, 130, 113, 98, 32, 36, 0, 37, 176, 240, 24]
   \<and> drop 12 (ctx_ctr (fst (gcm_setiv LittleEndian 32 4096 (fst toy_keyed, snd toy_keyed, toy_memory) 7 1)))
       = [37, 176, 240, 24]
   \<and> ctx_hash (fst (gcm_setiv LittleEndian 32 4096 (fst toy_keyed, snd toy_keyed, toy_memory) 7 1))
       = replicate 16 0"
proof -
  have n: "(1 :: nat) \<noteq> 12" "(7 :: nat) \<noteq> 0" "(1 :: nat) * 8 < 2 ^ 32" by simp_all
  have r: "read_bytes toy_memory 7 (Suc 0) = [7]"
    by (simp add: read_bytes_def toy_memory_def)
  have k: "ctx_key (fst toy_keyed) = toy_key" by (simp add: toy_keyed_ctx)
  show ?thesis
    using gcm_setiv_hashes_other_lengths [OF toy_keyed_session n, of toy_memory]
    by (simp add: r k toy_ghash_iv)
qed

section \<open>The bit count of a long call\<close>

lemma gf_mult_zero_block: "gf_mult h zero_block = zero_block"
proof -
  have "foldl (horner_step h) zero_block (replicate n False) = zero_block" for n
    by (induction n) (simp_all add: horner_step_False)
  moreover have "concat (map coefficients (rev zero_block)) = replicate 128 False"
    by (simp add: zero_block_def replicate_16 coefficients_unfold numeral_eq_Suc)
  ultimately show ?thesis by (simp add: gf_mult_def)
qed

lemma ghash_bytes_zeros: "ghash_bytes h zero_block (replicate n 0) = zero_block"
proof (induction n rule: less_induct)
  case (less n)
  show ?case
  proof (cases "n = 0")
    case True
    then show ?thesis by simp
  next
    case False
    have p: "pad_block (replicate (min 16 n) (0 :: u8)) = zero_block"
      by (simp add: pad_block_def zero_block_def replicate_add [symmetric] min_def)
    have x: "xor_bytes zero_block zero_block = zero_block"
      by (simp add: zero_block_def replicate_16 xor_bytes_def)
    have "n - 16 < n" using False by simp
    from less.IH [OF this] show ?thesis
      using False by (subst ghash_bytes_step) (simp_all add: p x gf_mult_zero_block)
  qed
qed

lemma read_bytes_zero_memory: "read_bytes zero_memory p n = replicate n 0"
  by (simp add: read_bytes_def zero_memory_def map_replicate_const)

lemma be_bytes_8_2_32: "be_bytes 8 (4294967296 :: u64) = [0, 0, 0, 1, 0, 0, 0, 0]"
  by (simp add: be_bytes_def upt_rec)

lemma toy_ghash_lengths:
  "gf_mult toy_key [0, 0, 0, 0, 0, 0, 0, 0, 0, 0, 0, 1, 0, 0, 0, 0] =
     [14, 29, 157, 18, 128, 63, 191, 48, 190, 33, 161, 47, 188, 2, 4, 6]"
  by (simp add: gf_mult_def coefficients_unfold horner_step_def mul_x_def toy_key_def
      zero_block_def replicate_16)

lemma ghash_zero_iv:
  assumes "16 dvd n"
  shows "GHASH h (zero_pad (replicate n 0) @ replicate 8 0 @ be_bytes 8 (w :: u64))
           = gf_mult h (replicate 8 0 @ be_bytes 8 w)"
proof -
  have z: "zero_pad (replicate n (0 :: u8)) = replicate n 0"
    using assms(1) by (simp add: zero_pad_def)
  have l: "length (replicate 8 (0 :: u8) @ be_bytes 8 w) = 16" by simp
  have x: "xor_bytes zero_block b = b" if "length b = 16" for b
    using that by simp
  have d: "16 dvd length (replicate n (0 :: u8))" using assms(1) by simp
  show ?thesis
    unfolding z GHASH_def ghash_bytes_append [OF d] ghash_bytes_zeros
      ghash_bytes_block [OF l] x [OF l] ..
qed

text \<open>
  C4, on a build whose \<open>size_t\<close> has 32 bits: for an initialisation vector of 2^29 zero
  bytes the product \<open>ivlen * 8\<close> wraps to zero, so the lengths block that \<open>gcm_setiv\<close>
  hashes says 0 bits and the counter block comes out as the zero block, where
  GHASH(H, IV || 0^64 || [2^32]_64) is the block 0e 1d 9d 12 80 3f bf 30 be 21 a1 2f bc 02 04 06.
\<close>

theorem gcm_setiv_bit_length_wraps:
  "ctx_ctr (fst (gcm_setiv LittleEndian 32 4096 (fst toy_keyed, snd toy_keyed, zero_memory)
       8192 536870912)) = replicate 16 0
   \<and> GHASH toy_key (zero_pad (read_bytes zero_memory 8192 536870912) @ replicate 8 0
         @ be_bytes 8 (of_nat (536870912 * 8) :: u64))
       = [14, 29, 157, 18, 128, 63, 191, 48, 190, 33, 161, 47, 188, 2, 4, 6]
   \<and> ctx_ctr (fst (gcm_setiv LittleEndian 32 4096 (fst toy_keyed, snd toy_keyed, zero_memory)
       8192 536870912))
     \<noteq> GHASH (ctx_key (fst toy_keyed))
         (zero_pad (read_bytes zero_memory 8192 536870912) @ replicate 8 0
            @ be_bytes 8 (of_nat (536870912 * 8) :: u64))"
proof -
  have n: "(536870912 :: nat) \<noteq> 12" "(8192 :: nat) \<noteq> 0" by simp_all
  have d: "16 dvd (536870912 :: nat)" by simp
  have m: "size_t_mult 32 536870912 8 = 0" by (simp add: size_t_mult_def)
  have k: "ctx_key (fst toy_keyed) = toy_key" by (simp add: toy_keyed_ctx)
  from gcm_setiv_hashed_state [OF toy_keyed_session n, of 32 zero_memory] obtain st' where
    "gcm_setiv LittleEndian 32 4096 (fst toy_keyed, snd toy_keyed, zero_memory) 8192 536870912 =
       ((fst toy_keyed)\<lparr>ctx_hash := zero_block, ctx_len_add := 0, ctx_len_data := 0,
          ctx_ctr := GHASH (ctx_key (fst toy_keyed))
             (zero_pad (read_bytes zero_memory 8192 536870912) @ replicate 8 0
                @ be_bytes 8 (of_nat (size_t_mult 32 536870912 8) :: u64))\<rparr>, st', zero_memory)"
    by blast
  then have c: "ctx_ctr (fst (gcm_setiv LittleEndian 32 4096 (fst toy_keyed, snd toy_keyed, zero_memory)
       8192 536870912)) = GHASH toy_key
             (zero_pad (replicate 536870912 0) @ replicate 8 0 @ be_bytes 8 (0 :: u64))"
    unfolding m k read_bytes_zero_memory by simp
  have r8: "replicate 8 (0 :: u8) = [0, 0, 0, 0, 0, 0, 0, 0]" by (simp add: numeral_eq_Suc)
  have "gf_mult toy_key (replicate 8 0 @ be_bytes 8 (0 :: u64)) = replicate 16 0"
    using gf_mult_zero_block [of toy_key]
    by (simp add: be_bytes_8_0 r8 zero_block_def replicate_16)
  then have code: "ctx_ctr (fst (gcm_setiv LittleEndian 32 4096 (fst toy_keyed, snd toy_keyed, zero_memory)
       8192 536870912)) = replicate 16 0"
    unfolding c ghash_zero_iv [OF d] .
  have w: "(of_nat (536870912 * 8) :: u64) = 4294967296" by simp
  have "gf_mult toy_key (replicate 8 0 @ be_bytes 8 (4294967296 :: u64))
      = [14, 29, 157, 18, 128, 63, 191, 48, 190, 33, 161, 47, 188, 2, 4, 6]"
    unfolding r8 be_bytes_8_2_32 using toy_ghash_lengths by simp
  then have claim: "GHASH toy_key (zero_pad (read_bytes zero_memory 8192 536870912) @ replicate 8 0
         @ be_bytes 8 (of_nat (536870912 * 8) :: u64))
       = [14, 29, 157, 18, 128, 63, 191, 48, 190, 33, 161, 47, 188, 2, 4, 6]"
    unfolding read_bytes_zero_memory w ghash_zero_iv [OF d] .
  show ?thesis
    unfolding k claim code by (simp add: replicate_16)
qed

section \<open>The tag\<close>

lemma gcm_tag_spec:
  assumes "session_ok e context ctx st" "length buf = 16"
  shows "\<exists>st'. gcm_tag e context (ctx, st) buf =
           (ctx, st',
            xor_bytes
              (cipher_encrypt (raw_cipher ctx) (raw_ctx ctx)
                 (gcm_count e (ctx_ctr ctx) (ucast ((- ctx_len_data ctx) div 128))))
              (gf_mult (ctx_key ctx)
                 (xor_bytes (ctx_hash ctx)
                    (be_bytes 8 (ctx_len_add ctx) @ be_bytes 8 (ctx_len_data ctx)))))
         \<and> cache_ok e (key_ptr context) (ctx_key ctx) st'"
proof -
  define y where "y = gf_mult (ctx_key ctx)
                 (xor_bytes (ctx_hash ctx)
                    (be_bytes 8 (ctx_len_add ctx) @ be_bytes 8 (ctx_len_data ctx)))"
  define j where "j = gcm_count e (ctx_ctr ctx) (ucast ((- ctx_len_data ctx) div 128))"
  from gcm_hash_spec [OF assms] obtain st' where
    h: "gcm_hash e context (ctx, st) buf = (ctx, st', y)"
    and ok: "cache_ok e (key_ptr context) (ctx_key ctx) st'"
    unfolding y_def by blast
  have wf: "context_wf ctx" using assms(1) by (simp add: session_ok_def)
  have ly: "length y = 16" using wf by (simp add: y_def context_wf_def)
  have lj: "length j = 16" using wf by (simp add: j_def context_wf_def gcm_count_bytes)
  have le: "length (cipher_encrypt (raw_cipher ctx) (raw_ctx ctx) j) = 16"
    using wf lj by (simp add: context_wf_def block_cipher_def)
  have "gcm_tag e context (ctx, st) buf =
      (ctx, st', xor_bytes (cipher_encrypt (raw_cipher ctx) (raw_ctx ctx) j) y)"
    by (simp add: gcm_tag_def h Let_def j_def [symmetric] gcm_xor_block_bytes [OF le ly])
  then show ?thesis using ok unfolding y_def j_def by blast
qed

lemma gcm_multiply_key_again:
  "gcm_multiply_key e (snd (gcm_multiply_key e st kp key poly)) kp key poly =
     gcm_multiply_key e st kp key poly"
  by (simp add: gcm_multiply_key_def Let_def)

lemma gcm_hash_again:
  assumes "length buf = 16" "length buf' = 16"
  shows "gcm_hash e context (fst (gcm_hash e context (ctx, st) buf),
            fst (snd (gcm_hash e context (ctx, st) buf))) buf' = gcm_hash e context (ctx, st) buf"
proof -
  define x where "x = gcm_xor_block e (ctx_hash ctx)
           (be_bytes 8 (ctx_len_add ctx) @ be_bytes 8 (ctx_len_data ctx))"
  obtain h st1 where m: "gcm_multiply_key e st (key_ptr context) (ctx_key ctx) x = (h, st1)"
    by (cases "gcm_multiply_key e st (key_ptr context) (ctx_key ctx) x")
  have m': "gcm_multiply_key e st1 (key_ptr context) (ctx_key ctx) x = (h, st1)"
    using gcm_multiply_key_again [of e st "key_ptr context" "ctx_key ctx" x] by (simp add: m)
  have 1: "gcm_hash e context (ctx, st) buf = (ctx, st1, h)"
    by (simp add: gcm_hash_def Let_def lengths_block [OF assms(1)] x_def [symmetric] m)
  have 2: "gcm_hash e context (ctx, st1) buf' = (ctx, st1, h)"
    by (simp add: gcm_hash_def Let_def lengths_block [OF assms(2)] x_def [symmetric] m')
  show ?thesis by (simp add: 1 2)
qed

lemma toy_tag_after_setkey:
  "snd (snd (gcm_tag LittleEndian 4096 (fst toy_keyed, snd toy_keyed) (replicate 16 0)))
     = [0x81, 1, 2, 3, 4, 5, 6, 7, 8, 9, 10, 11, 12, 13, 14, 15]"
proof -
  define ctx where "ctx = fst toy_keyed"
  have l: "length (replicate 16 (0 :: u8)) = 16" by simp
  have r8: "replicate 8 (0 :: u8) = [0, 0, 0, 0, 0, 0, 0, 0]" by (simp add: numeral_eq_Suc)
  have f: "ctx_hash ctx = zero_block" "ctx_len_add ctx = 0" "ctx_len_data ctx = 0"
    "ctx_ctr ctx = replicate 12 0 @ [0, 0, 0, 1]" "ctx_key ctx = toy_key"
    "raw_cipher ctx = toy_cipher" "raw_ctx ctx = toy_schedule"
    by (simp_all add: ctx_def toy_keyed_ctx)
  have x: "xor_bytes zero_block (be_bytes 8 (0 :: u64) @ be_bytes 8 (0 :: u64)) = zero_block"
    by (simp add: be_bytes_8_0 r8 zero_block_def replicate_16 xor_bytes_def)
  have z: "gf_mult toy_key (xor_bytes zero_block (be_bytes 8 (0 :: u64) @ be_bytes 8 (0 :: u64)))
      = zero_block"
    unfolding x by (rule gf_mult_zero_block)
  have c: "gcm_count LittleEndian (replicate 12 0 @ [0, 0, 0, 1]) 0 = replicate 12 0 @ [0, 0, 0, 1]"
    by (simp add: gcm_count_bytes be_bytes_4_1 be_word_def)
  have en: "cipher_encrypt toy_cipher toy_schedule (replicate 12 0 @ [0, 0, 0, 1])
      = [0x81, 1, 2, 3, 4, 5, 6, 7, 8, 9, 10, 11, 12, 13, 14, 15]"
    by (simp add: toy_cipher_def toy_schedule_def replicate_12)
  have t: "xor_bytes [0x81, 1, 2, 3, 4, 5, 6, 7, 8, 9, 10, 11, 12, 13, 14, 15] zero_block
      = [0x81, 1, 2, 3, 4, 5, 6, 7, 8, 9, 10, 11, 12, 13, 14, 15]"
    by (simp add: xor_bytes_def zero_block_def replicate_16)
  from gcm_tag_spec [OF toy_keyed_session l] obtain st' where
    "gcm_tag LittleEndian 4096 (ctx, snd toy_keyed) (replicate 16 0) =
       (ctx, st',
        xor_bytes
          (cipher_encrypt (raw_cipher ctx) (raw_ctx ctx)
             (gcm_count LittleEndian (ctx_ctr ctx) (ucast ((- ctx_len_data ctx) div 128))))
          (gf_mult (ctx_key ctx)
             (xor_bytes (ctx_hash ctx) (be_bytes 8 (ctx_len_add ctx) @ be_bytes 8 (ctx_len_data ctx)))))"
    unfolding ctx_def by blast
  then have "snd (snd (gcm_tag LittleEndian 4096 (ctx, snd toy_keyed) (replicate 16 0)))
      = [0x81, 1, 2, 3, 4, 5, 6, 7, 8, 9, 10, 11, 12, 13, 14, 15]"
    unfolding f z by (simp add: c en t)
  then show ?thesis unfolding ctx_def .
qed

text \<open>
  C10: \<open>gcm_tag\<close> returns the context it was given, with the hash, both lengths, the
  counter block, the hash key and the cipher as they were; and a second \<open>gcm_tag\<close> on what
  the first one left, into the same tag buffer or any other, returns the same context, the
  same tables and the same 16-byte tag.
\<close>

theorem gcm_tag_leaves_context:
  "fst (gcm_tag e context (ctx, st) tag) = ctx
   \<and> (length tag = 16 \<longrightarrow> length tag' = 16 \<longrightarrow>
        gcm_tag e context (fst (gcm_tag e context (ctx, st) tag),
           fst (snd (gcm_tag e context (ctx, st) tag))) tag' = gcm_tag e context (ctx, st) tag)"
proof -
  have f: "fst (gcm_hash e context (ctx, st) b) = ctx" for b
    by (simp add: gcm_hash_def Let_def split: prod.splits)
  have a: "fst (gcm_tag e context (ctx, st) tag) = ctx"
    using f [of tag] by (auto simp add: gcm_tag_def Let_def split: prod.splits)
  have s: "fst (snd (gcm_tag e context (ctx, st) tag)) = fst (snd (gcm_hash e context (ctx, st) tag))"
    by (simp add: gcm_tag_def Let_def split: prod.splits)
  have b: "gcm_tag e context (fst (gcm_tag e context (ctx, st) tag),
           fst (snd (gcm_tag e context (ctx, st) tag))) tag' = gcm_tag e context (ctx, st) tag"
    if l: "length tag = 16" "length tag' = 16"
  proof -
    have "gcm_hash e context (ctx, fst (snd (gcm_hash e context (ctx, st) tag))) tag'
        = gcm_hash e context (ctx, st) tag"
      using gcm_hash_again [OF l, of e "context" ctx st] by (simp add: f)
    then show ?thesis
      unfolding a s by (simp add: gcm_tag_def)
  qed
  show ?thesis using a b by blast
qed

theorem gcm_tag_leaves_context_witness:
  "length (replicate 16 (0 :: u8)) = 16
   \<and> length [0x81 :: u8, 1, 2, 3, 4, 5, 6, 7, 8, 9, 10, 11, 12, 13, 14, 15] = 16
   \<and> fst (gcm_tag LittleEndian 4096 (fst toy_keyed, snd toy_keyed) (replicate 16 0)) = fst toy_keyed
   \<and> snd (snd (gcm_tag LittleEndian 4096 (fst toy_keyed, snd toy_keyed) (replicate 16 0)))
       = [0x81, 1, 2, 3, 4, 5, 6, 7, 8, 9, 10, 11, 12, 13, 14, 15]
   \<and> gcm_tag LittleEndian 4096
         (fst (gcm_tag LittleEndian 4096 (fst toy_keyed, snd toy_keyed) (replicate 16 0)),
          fst (snd (gcm_tag LittleEndian 4096 (fst toy_keyed, snd toy_keyed) (replicate 16 0))))
         [0x81, 1, 2, 3, 4, 5, 6, 7, 8, 9, 10, 11, 12, 13, 14, 15]
       = gcm_tag LittleEndian 4096 (fst toy_keyed, snd toy_keyed) (replicate 16 0)"
proof -
  have l1: "length (replicate 16 (0 :: u8)) = 16" by simp
  have l2: "length [0x81 :: u8, 1, 2, 3, 4, 5, 6, 7, 8, 9, 10, 11, 12, 13, 14, 15] = 16" by simp
  have t: "snd (snd (gcm_tag LittleEndian 4096 (fst toy_keyed, snd toy_keyed) (replicate 16 0)))
       = [0x81, 1, 2, 3, 4, 5, 6, 7, 8, 9, 10, 11, 12, 13, 14, 15]"
    by (rule toy_tag_after_setkey)
  note w = gcm_tag_leaves_context [of LittleEndian 4096 "fst toy_keyed" "snd toy_keyed"
      "replicate 16 0" "[0x81, 1, 2, 3, 4, 5, 6, 7, 8, 9, 10, 11, 12, 13, 14, 15]"]
  from w l1 l2 t show ?thesis by blast
qed

section \<open>The tag of a session\<close>

lemma gcm_process_loop_frame:
  assumes "session_ok e context ctx st"
  shows "\<exists>h st' mem'. gcm_process_loop e context (ctx, st, mem) src dst hash len =
           (ctx\<lparr>ctx_ctr := (if dst \<noteq> 0 then (inc32 ^^ ((len + 15) div 16)) (ctx_ctr ctx)
                             else ctx_ctr ctx),
                ctx_hash := h\<rparr>, st', mem')
         \<and> length h = 16 \<and> cache_ok e (key_ptr context) (ctx_key ctx) st'"
  using assms
proof (induction len arbitrary: ctx st mem src dst hash rule: less_induct)
  case (less len)
  show ?case
  proof (cases "len = 0")
    case True
    have "gcm_process_loop e context (ctx, st, mem) src dst hash len =
        (ctx\<lparr>ctx_ctr := (if dst \<noteq> 0 then (inc32 ^^ ((len + 15) div 16)) (ctx_ctr ctx)
                             else ctx_ctr ctx), ctx_hash := ctx_hash ctx\<rparr>, st, mem)"
      using True by simp
    moreover have "length (ctx_hash ctx) = 16" "cache_ok e (key_ptr context) (ctx_key ctx) st"
      using less.prems by (simp_all add: session_ok_def context_wf_def)
    ultimately show ?thesis by blast
  next
    case False
    define f where "f = (if len > 16 then 16 else len)"
    have f: "0 < f" "f \<le> 16" "f \<le> len" "f = min 16 len" using False by (auto simp: f_def)
    define key where "key = ctx_key ctx"
    define y where "y = ctx_hash ctx"
    define c1 where "c1 = (if dst \<noteq> 0 then gcm_count e (ctx_ctr ctx) 1 else ctx_ctr ctx)"
    define mem1 where "mem1 = (if dst \<noteq> 0
        then gcm_xor_mem mem src (cipher_encrypt (raw_cipher ctx) (raw_ctx ctx) c1) dst f else mem)"
    define src1 where "src1 = (if dst \<noteq> 0 then src + f else src)"
    define dst1 where "dst1 = (if dst \<noteq> 0 then dst + f else dst)"
    define frag where "frag = read_bytes mem1 hash f"
    define h1 where "h1 = gcm_xor frag y y f"
    have lk: "length key = 16" and ly: "length y = 16" and lc: "length (ctx_ctr ctx) = 16"
      and ok: "cache_ok e (key_ptr context) key st"
      using less.prems by (simp_all add: session_ok_def context_wf_def key_def y_def)
    have c1: "c1 = (if dst \<noteq> 0 then inc32 (ctx_ctr ctx) else ctx_ctr ctx)"
      using lc by (simp add: c1_def gcm_count_1_inc32)
    have lc1: "length c1 = 16" using lc by (simp add: c1)
    have h1: "h1 = xor_bytes y (pad_block frag)"
      unfolding h1_def using f ly by (intro gcm_xor_pad) (simp_all add: frag_def)
    have lh1: "length h1 = 16" using f ly by (simp add: h1 frag_def)
    obtain st1 where m: "gcm_multiply_key e st (key_ptr context) key h1 = (gf_mult key h1, st1)"
      and ok1: "cache_ok e (key_ptr context) key st1"
      using gcm_multiply_key_eq [OF ok lk lh1] by blast
    define ctx1 where "ctx1 = ctx\<lparr>ctx_ctr := c1, ctx_hash := gf_mult key h1\<rparr>"
    have s1: "session_ok e context ctx1 st1"
      unfolding ctx1_def using less.prems ok1 lk lc1
      by (intro session_ok_step) (simp_all add: key_def)
    have unfold: "gcm_process_loop e context (ctx, st, mem) src dst hash len =
        gcm_process_loop e context (ctx1, st1, mem1) src1 dst1 (hash + f) (len - f)"
    proof (cases "dst = 0")
      case True
      have m': "gcm_multiply_key e st (key_ptr context) key (gcm_xor (read_bytes mem hash f) y y f)
          = (gf_mult key h1, st1)"
        using m True by (simp add: h1_def frag_def mem1_def)
      show ?thesis
        using False True m'
        by (subst gcm_process_loop.simps)
          (simp add: Let_def f_def [symmetric] c1_def mem1_def src1_def dst1_def
            y_def [symmetric] key_def [symmetric] ctx1_def)
    next
      case d: False
      have m': "gcm_multiply_key e st (key_ptr context) key
          (gcm_xor (read_bytes (gcm_xor_mem mem src
             (cipher_encrypt (raw_cipher ctx) (raw_ctx ctx) (gcm_count e (ctx_ctr ctx) 1)) dst f) hash f)
             y y f) = (gf_mult key h1, st1)"
        using m d by (simp add: h1_def frag_def mem1_def c1_def)
      show ?thesis
        using False d m'
        by (subst gcm_process_loop.simps)
          (simp add: Let_def f_def [symmetric] c1_def mem1_def src1_def dst1_def
            y_def [symmetric] key_def [symmetric] ctx1_def h1_def frag_def)
    qed
    have lt: "len - f < len" using f by simp
    from less.IH [OF lt s1, of mem1 src1 dst1 "hash + f"] obtain h st' mem' where
      r: "gcm_process_loop e context (ctx1, st1, mem1) src1 dst1 (hash + f) (len - f) =
            (ctx1\<lparr>ctx_ctr := (if dst1 \<noteq> 0 then (inc32 ^^ ((len - f + 15) div 16)) (ctx_ctr ctx1)
                                else ctx_ctr ctx1), ctx_hash := h\<rparr>, st', mem')"
      and lh: "length h = 16"
      and ok': "cache_ok e (key_ptr context) (ctx_key ctx1) st'" by blast
    have d1: "dst1 \<noteq> 0 \<longleftrightarrow> dst \<noteq> 0" using f by (simp add: dst1_def)
    have cc: "(if dst1 \<noteq> 0 then (inc32 ^^ ((len - f + 15) div 16)) (ctx_ctr ctx1) else ctx_ctr ctx1)
        = (if dst \<noteq> 0 then (inc32 ^^ ((len + 15) div 16)) (ctx_ctr ctx) else ctx_ctr ctx)"
    proof (cases "dst = 0")
      case True
      then show ?thesis by (simp add: dst1_def ctx1_def c1)
    next
      case d: False
      then have "dst1 \<noteq> 0" by (simp add: dst1_def)
      then show ?thesis
        using False d funpow_inc32_blocks [of len "ctx_ctr ctx"]
        by (simp add: ctx1_def c1 f(4))
    qed
    have "gcm_process_loop e context (ctx, st, mem) src dst hash len =
        (ctx\<lparr>ctx_ctr := (if dst \<noteq> 0 then (inc32 ^^ ((len + 15) div 16)) (ctx_ctr ctx)
                             else ctx_ctr ctx), ctx_hash := h\<rparr>, st', mem')"
      unfolding unfold r cc by (simp add: ctx1_def)
    then show ?thesis using lh ok' by (auto simp: ctx1_def key_def)
  qed
qed

lemma gcm_process_frame:
  assumes "session_ok e context ctx st" "dst \<noteq> 0 \<longrightarrow> src \<noteq> 0"
  shows "\<exists>ctx' st' mem'. gcm_process e sz context (ctx, st, mem) src dst hash len = (ctx', st', mem')
         \<and> session_ok e context ctx' st'
         \<and> ctx_key ctx' = ctx_key ctx \<and> raw_cipher ctx' = raw_cipher ctx \<and> raw_ctx ctx' = raw_ctx ctx
         \<and> ctx_len_data ctx' = ctx_len_data ctx + (if src \<noteq> 0 then of_nat (size_t_mult sz len 8) else 0)
         \<and> ctx_len_add ctx' = ctx_len_add ctx + (if src = 0 then of_nat (size_t_mult sz len 8) else 0)
         \<and> ctx_ctr ctx' = (if dst \<noteq> 0 then (inc32 ^^ ((len + 15) div 16)) (ctx_ctr ctx)
                             else ctx_ctr ctx)"
proof -
  define ctx1 where "ctx1 = (if src \<noteq> 0
                     then ctx\<lparr>ctx_len_data := ctx_len_data ctx + of_nat (size_t_mult sz len 8)\<rparr>
                     else ctx\<lparr>ctx_len_add := ctx_len_add ctx + of_nat (size_t_mult sz len 8)\<rparr>)"
  have s1: "session_ok e context ctx1 st"
    using assms(1) by (simp add: ctx1_def session_ok_def context_wf_def)
  from gcm_process_loop_frame [OF s1, of mem src dst hash len] obtain h st' mem' where
    r: "gcm_process_loop e context (ctx1, st, mem) src dst hash len =
           (ctx1\<lparr>ctx_ctr := (if dst \<noteq> 0 then (inc32 ^^ ((len + 15) div 16)) (ctx_ctr ctx1)
                             else ctx_ctr ctx1),
                ctx_hash := h\<rparr>, st', mem')"
    and lh: "length h = 16" and ok: "cache_ok e (key_ptr context) (ctx_key ctx1) st'"
    by blast
  define ctx' where "ctx' = ctx1\<lparr>ctx_ctr := (if dst \<noteq> 0 then (inc32 ^^ ((len + 15) div 16)) (ctx_ctr ctx1)
                             else ctx_ctr ctx1), ctx_hash := h\<rparr>"
  have "gcm_process e sz context (ctx, st, mem) src dst hash len =
      gcm_process_loop e context (ctx1, st, mem) src dst hash len"
    by (simp add: gcm_process_def ctx1_def Let_def)
  then have p: "gcm_process e sz context (ctx, st, mem) src dst hash len = (ctx', st', mem')"
    unfolding r ctx'_def .
  have lc: "length (ctx_ctr ctx1) = 16" using s1 by (simp add: session_ok_def context_wf_def)
  have s': "session_ok e context ctx' st'"
    using s1 lh ok lc unfolding ctx'_def
    by (intro session_ok_step) simp_all
  have rest: "ctx_key ctx' = ctx_key ctx" "raw_cipher ctx' = raw_cipher ctx" "raw_ctx ctx' = raw_ctx ctx"
     "ctx_len_data ctx' = ctx_len_data ctx + (if src \<noteq> 0 then of_nat (size_t_mult sz len 8) else 0)"
     "ctx_len_add ctx' = ctx_len_add ctx + (if src = 0 then of_nat (size_t_mult sz len 8) else 0)"
     "ctx_ctr ctx' = (if dst \<noteq> 0 then (inc32 ^^ ((len + 15) div 16)) (ctx_ctr ctx)
                             else ctx_ctr ctx)"
    by (simp_all add: ctx'_def ctx1_def)
  show ?thesis using p s' rest by blast
qed

lemma gcm_step_frame:
  assumes "session_ok e context ctx st" "is_data c \<longrightarrow> has_source c"
  shows "\<exists>ctx' st' mem'. gcm_step e sz context (ctx, st, mem) c = (ctx', st', mem')
         \<and> session_ok e context ctx' st'
         \<and> ctx_key ctx' = ctx_key ctx \<and> raw_cipher ctx' = raw_cipher ctx \<and> raw_ctx ctx' = raw_ctx ctx
         \<and> ctx_len_data ctx' = ctx_len_data ctx + of_nat (size_t_mult sz (data_bytes c) 8)
         \<and> ctx_len_add ctx' = ctx_len_add ctx + of_nat (size_t_mult sz (aad_bytes c) 8)
         \<and> ctx_ctr ctx' = (inc32 ^^ ((data_bytes c + 15) div 16)) (ctx_ctr ctx)"
proof (cases c)
  case (Encrypt src dst len)
  show ?thesis
  proof (cases "dst = 0")
    case True
    from gcm_process_frame [OF assms(1), where dst = 0 and src = 0 and sz = sz and mem = mem and hash = src and len = len]
    show ?thesis using True by (simp add: Encrypt gcm_encrypt_def size_t_mult_def)
  next
    case False
    then have "src \<noteq> 0" using assms(2) Encrypt by simp
    with gcm_process_frame [OF assms(1), where dst = dst and src = src and sz = sz and mem = mem and hash = dst and len = len]
    show ?thesis using False by (simp add: Encrypt gcm_encrypt_def size_t_mult_def)
  qed
next
  case (Decrypt src dst len)
  show ?thesis
  proof (cases "dst = 0")
    case True
    from gcm_process_frame [OF assms(1), where dst = 0 and src = 0 and sz = sz and mem = mem and hash = src and len = len]
    show ?thesis using True by (simp add: Decrypt gcm_decrypt_def size_t_mult_def)
  next
    case False
    then have "src \<noteq> 0" using assms(2) Decrypt by simp
    with gcm_process_frame [OF assms(1), where dst = dst and src = src and sz = sz and mem = mem and hash = src and len = len]
    show ?thesis using False by (simp add: Decrypt gcm_decrypt_def size_t_mult_def)
  qed
next
  case (Caller_Writes p bs)
  then show ?thesis using assms(1) by (simp add: size_t_mult_def)
qed

lemma blocks_add: "16 dvd (d :: nat) \<Longrightarrow> (d + 15) div 16 + (n + 15) div 16 = (d + n + 15) div 16"
  by (elim dvdE) simp

lemma gcm_run_frame:
  assumes "session_ok e context ctx st" "well_formed_calls cs"
    "16 dvd d \<or> \<not> list_ex is_data cs"
    "ctx_ctr ctx = (inc32 ^^ ((d + 15) div 16)) j" "calls_fit sz cs"
  shows "\<exists>ctx' st' mem'. gcm_run e sz context (ctx, st, mem) cs = (ctx', st', mem')
         \<and> session_ok e context ctx' st'
         \<and> ctx_key ctx' = ctx_key ctx \<and> raw_cipher ctx' = raw_cipher ctx \<and> raw_ctx ctx' = raw_ctx ctx
         \<and> ctx_len_data ctx' = ctx_len_data ctx + of_nat (data_length cs) * 8
         \<and> ctx_len_add ctx' = ctx_len_add ctx + of_nat (aad_length cs) * 8
         \<and> ctx_ctr ctx' = (inc32 ^^ ((d + data_length cs + 15) div 16)) j"
  using assms
proof (induction cs arbitrary: ctx st mem d)
  case Nil
  then show ?case by (simp add: gcm_run_def data_length_def aad_length_def)
next
  case (Cons c cs)
  have src: "is_data c \<longrightarrow> has_source c" using Cons.prems(2) by (simp split: if_splits)
  from gcm_step_frame [OF Cons.prems(1) src, where mem = mem and sz = sz] obtain ctx1 st1 mem1 where
    step: "gcm_step e sz context (ctx, st, mem) c = (ctx1, st1, mem1)"
    and s1: "session_ok e context ctx1 st1"
    and k1: "ctx_key ctx1 = ctx_key ctx" "raw_cipher ctx1 = raw_cipher ctx" "raw_ctx ctx1 = raw_ctx ctx"
    and ld1: "ctx_len_data ctx1 = ctx_len_data ctx + of_nat (size_t_mult sz (data_bytes c) 8)"
    and la1: "ctx_len_add ctx1 = ctx_len_add ctx + of_nat (size_t_mult sz (aad_bytes c) 8)"
    and c1: "ctx_ctr ctx1 = (inc32 ^^ ((data_bytes c + 15) div 16)) (ctx_ctr ctx)"
    by blast
  have wf: "well_formed_calls cs" using Cons.prems(2) by simp
  have fit: "calls_fit sz cs" using Cons.prems(5) by (simp add: calls_fit_def)
  have "(data_bytes c + aad_bytes c) * 8 < 2 ^ sz" using Cons.prems(5) by (simp add: calls_fit_def)
  then have fd: "size_t_mult sz (data_bytes c) 8 = data_bytes c * 8"
    and fa: "size_t_mult sz (aad_bytes c) 8 = aad_bytes c * 8"
    by (simp_all add: size_t_mult_def)
  have nd: "\<not> is_data c \<Longrightarrow> data_bytes c = 0" by (cases c) simp_all
  have al: "16 dvd (d + data_bytes c) \<or> \<not> list_ex is_data cs"
  proof (cases "is_data c")
    case True
    then have "16 dvd d" using Cons.prems(3) by simp
    moreover have "16 dvd data_bytes c \<or> \<not> list_ex is_data cs" using Cons.prems(2) True by simp
    ultimately show ?thesis by auto
  next
    case False
    then show ?thesis using Cons.prems(3) nd by auto
  qed
  have ctr: "ctx_ctr ctx1 = (inc32 ^^ ((d + data_bytes c + 15) div 16)) j"
  proof (cases "is_data c")
    case True
    then have dd: "16 dvd d" using Cons.prems(3) by simp
    show ?thesis
      unfolding c1 Cons.prems(4) funpow_add [symmetric, unfolded o_def, THEN fun_cong]
      by (simp add: funpow_add [symmetric] blocks_add [OF dd, symmetric] add.commute)
  next
    case False
    then show ?thesis using c1 Cons.prems(4) nd by simp
  qed
  from Cons.IH [OF s1 wf al ctr fit, where mem = mem1] obtain ctx' st' mem' where
    r: "gcm_run e sz context (ctx1, st1, mem1) cs = (ctx', st', mem')"
    and s': "session_ok e context ctx' st'"
    and k': "ctx_key ctx' = ctx_key ctx1" "raw_cipher ctx' = raw_cipher ctx1" "raw_ctx ctx' = raw_ctx ctx1"
    and ld': "ctx_len_data ctx' = ctx_len_data ctx1 + of_nat (data_length cs) * 8"
    and la': "ctx_len_add ctx' = ctx_len_add ctx1 + of_nat (aad_length cs) * 8"
    and c': "ctx_ctr ctx' = (inc32 ^^ ((d + data_bytes c + data_length cs + 15) div 16)) j"
    by blast
  have run: "gcm_run e sz context (ctx, st, mem) (c # cs) = (ctx', st', mem')"
    using r step by (simp add: gcm_run_def)
  have "ctx_len_data ctx' = ctx_len_data ctx + of_nat (data_length (c # cs)) * 8"
    "ctx_len_add ctx' = ctx_len_add ctx + of_nat (aad_length (c # cs)) * 8"
    "ctx_ctr ctx' = (inc32 ^^ ((d + data_length (c # cs) + 15) div 16)) j"
    using ld' la' c' ld1 la1
    by (simp_all add: data_length_def aad_length_def fd fa algebra_simps)
  then show ?case using run s' k' k1 by simp
qed

lemma funpow_inc32_bytes:
  assumes "length c = 16"
  shows "(inc32 ^^ n) c = take 12 c @ be_bytes 4 ((be_word (drop 12 c) :: u32) + of_nat n)"
proof (induction n)
  case 0
  have "be_bytes 4 (be_word (drop 12 c) :: u32) = drop 12 c"
    using assms by (intro be_bytes_be_word) simp_all
  then show ?case by simp
next
  case (Suc n)
  have w: "be_word (be_bytes 4 (w :: u32)) = w" for w
    by (rule be_word_be_bytes) simp
  have "(inc32 ^^ Suc n) c = inc32 (take 12 c @ be_bytes 4 ((be_word (drop 12 c) :: u32) + of_nat n))"
    by (simp add: Suc)
  also have "\<dots> = take 12 c @ be_bytes 4 ((be_word (drop 12 c) :: u32) + of_nat n + 1)"
    using assms unfolding inc32_def by (simp add: w)
  finally show ?case by (simp add: ac_simps)
qed

lemma gcm_count_funpow_inc32:
  assumes "length c = 16" "of_nat n + delta = (0 :: u32)"
  shows "gcm_count e ((inc32 ^^ n) c) delta = c"
proof -
  have w: "be_word (be_bytes 4 (w :: u32)) = w" for w
    by (rule be_word_be_bytes) simp
  have "gcm_count e ((inc32 ^^ n) c) delta =
      take 12 c @ be_bytes 4 ((be_word (drop 12 c) :: u32) + (of_nat n + delta))"
    using assms(1) by (simp add: funpow_inc32_bytes gcm_count_bytes w add.assoc)
  also have "\<dots> = take 12 c @ be_bytes 4 (be_word (drop 12 c) :: u32)"
    by (simp add: assms(2))
  also have "be_bytes 4 (be_word (drop 12 c) :: u32) = drop 12 c"
    using assms(1) by (intro be_bytes_be_word) simp_all
  finally show ?thesis by simp
qed

lemma rewind_blocks:
  fixes d a :: nat
  assumes "d \<le> 16 * a"
  shows "(128 * a - 8 * d) div 128 = a - (d + 15) div 16" "(d + 15) div 16 \<le> a"
proof -
  define q where "q = (d + 15) div 16"
  have q: "16 * q \<le> d + 15" "d < 16 * q + 1"
    unfolding q_def by presburger+
  have qa: "q \<le> a" using assms q by linarith
  then show "(d + 15) div 16 \<le> a" by (simp add: q_def)
  have "128 * a - 8 * d = 128 * (a - q) + (128 * q - 8 * d)"
    using q qa assms by (simp add: algebra_simps)
  moreover have "128 * q - 8 * d < 128" using q by linarith
  ultimately have "(128 * a - 8 * d) div 128 = a - q"
    by simp
  then show "(128 * a - 8 * d) div 128 = a - (d + 15) div 16" by (simp add: q_def)
qed

lemma rewind_arith:
  fixes d :: nat
  assumes "d < 2305843009213693952"
  shows "(18446744073709551616 - 8 * d) div 128 = 144115188075855872 - (d + 15) div 16"
    and "(d + 15) div 16 \<le> 144115188075855872"
  using assms rewind_blocks [of d 144115188075855872] by simp_all

lemma offset_cancels:
  assumes "8 * d < (2 :: nat) ^ 64"
  shows "of_nat ((d + 15) div 16) + ucast ((- (of_nat d * 8 :: u64)) div 128) = (0 :: u32)"
proof (cases "d = 0")
  case True
  then show ?thesis by simp
next
  case False
  define x where "x = (of_nat d * 8 :: u64)"
  have d: "0 < d" "d < 2305843009213693952" using False assms by simp_all
  have d2: "d < 2305843009213693952" by (rule d(2))
  have ux: "unat x = 8 * d"
  proof -
    have "x = of_nat (8 * d)" by (simp add: x_def)
    then show ?thesis using assms by (simp only: unat_of_nat) simp
  qed
  have x0: "x \<noteq> 0" using ux d by (metis mult_is_0 not_less0 unat_0 zero_neq_numeral)
  have "x + of_nat (18446744073709551616 - 8 * d) = (of_nat 18446744073709551616 :: u64)"
    unfolding x_def using d by (simp add: of_nat_diff)
  also have "\<dots> = 0" by simp
  finally have "- x = of_nat (18446744073709551616 - 8 * d)"
    by (rule minus_unique)
  then have um: "unat (- x) = 18446744073709551616 - 8 * d"
    using d by (simp only: unat_of_nat) simp
  have "unat ((- x) div 128) = unat (- x) div 128"
    by (simp add: unat_div)
  then have uq: "unat ((- x) div 128) = 144115188075855872 - (d + 15) div 16"
    using rewind_arith(1) [OF d2] um by simp
  have "(ucast ((- x) div 128) :: u32) = of_nat (unat ((- x) div 128))"
    by simp
  then have "of_nat ((d + 15) div 16) + (ucast ((- x) div 128) :: u32)
      = of_nat ((d + 15) div 16 + (144115188075855872 - (d + 15) div 16))"
    by (simp add: uq)
  also have "(d + 15) div 16 + (144115188075855872 - (d + 15) div 16) = 144115188075855872"
    using rewind_arith(2) [OF d2] by simp
  also have "(of_nat 144115188075855872 :: u32) = 0"
    by simp
  finally show ?thesis by (simp add: x_def)
qed

lemma gcm_started_ok:
  assumes "cipher_setkey cipher (raw_ctx ctx0) key = (0, rk)" "block_cipher cipher rk"
    "statics_wf st0" "iv \<noteq> 0"
  shows "\<exists>ctx st. gcm_started e sz context (ctx0, st0) mem key cipher iv ivlen = (ctx, st, mem)
         \<and> session_ok e context ctx st
         \<and> ctx_key ctx = cipher_encrypt cipher rk zero_block
         \<and> raw_cipher ctx = cipher \<and> raw_ctx ctx = rk
         \<and> ctx_len_add ctx = 0 \<and> ctx_len_data ctx = 0 \<and> ctx_hash ctx = zero_block"
proof -
  define ctx1 where "ctx1 = fst (snd (gcm_setkey e context (ctx0, st0) key cipher))"
  define st1 where "st1 = snd (snd (gcm_setkey e context (ctx0, st0) key cipher))"
  have rc: "fst (gcm_setkey e context (ctx0, st0) key cipher) = 0"
    using assms(1) by (simp add: gcm_setkey_rc)
  have sk: "gcm_setkey e context (ctx0, st0) key cipher = (0, ctx1, st1)"
    using rc unfolding ctx1_def st1_def by (metis prod.collapse)
  have s1: "session_ok e context ctx1 st1"
    unfolding ctx1_def st1_def by (rule gcm_setkey_session [OF assms(1-3)])
  have c1: "ctx_key ctx1 = cipher_encrypt cipher rk zero_block" "raw_cipher ctx1 = cipher"
    "raw_ctx ctx1 = rk"
    unfolding ctx1_def gcm_setkey_ctx [OF assms(1)] by simp_all
  have st: "gcm_started e sz context (ctx0, st0) mem key cipher iv ivlen =
      gcm_setiv e sz context (ctx1, st1, mem) iv ivlen"
    by (simp add: gcm_started_def sk)
  show ?thesis
  proof (cases "ivlen = 12")
    case True
    define c where "c = read_bytes mem iv 12 @ [0, 0, 0, 1 :: u8]"
    have lc: "length c = 16" by (simp add: c_def)
    have "gcm_setiv e sz context (ctx1, st1, mem) iv ivlen =
        (ctx1\<lparr>ctx_hash := zero_block, ctx_len_add := 0, ctx_len_data := 0, ctx_ctr := c\<rparr>, st1, mem)"
      unfolding True c_def by (rule gcm_setiv_12)
    moreover have "session_ok e context
        (ctx1\<lparr>ctx_hash := zero_block, ctx_len_add := 0, ctx_len_data := 0, ctx_ctr := c\<rparr>) st1"
      using s1 lc by (rule session_ok_reset)
    ultimately show ?thesis unfolding st using c1 by simp
  next
    case False
    from gcm_setiv_hashed_state [OF s1 False assms(4), of sz mem] obtain st' c where
      "gcm_setiv e sz context (ctx1, st1, mem) iv ivlen =
         (ctx1\<lparr>ctx_hash := zero_block, ctx_len_add := 0, ctx_len_data := 0, ctx_ctr := c\<rparr>, st', mem)"
      "session_ok e context
         (ctx1\<lparr>ctx_hash := zero_block, ctx_len_add := 0, ctx_len_data := 0, ctx_ctr := c\<rparr>) st'"
      by blast
    then show ?thesis unfolding st using c1 by simp
  qed
qed

text \<open>
  The tag of a session: after \<open>gcm_setkey\<close>, \<open>gcm_setiv\<close> and a sequence of calls in which
  only the last data call carries a partial block and every length in bits fits \<open>size_t\<close>,
  \<open>gcm_tag\<close> writes (Y xor (aad_bits || data_bits)) * H xor E_K(J0), where Y is the hash of the
  context, H the hash key and J0 the counter block that \<open>gcm_setiv\<close> left; and adding the
  offset to the counter field of the current counter block gives J0 back.
\<close>

lemma gcm_tag_value:
  assumes "cipher_setkey cipher (raw_ctx ctx0) key = (0, rk)" "block_cipher cipher rk"
    "statics_wf st0" "iv \<noteq> 0"
    and "well_formed_calls calls" "calls_fit sz calls" "data_length calls * 8 < 2 ^ 64"
    and "length buf = 16"
  shows "gcm_tag_of e context (gcm_session e sz context (ctx0, st0) mem key cipher iv ivlen calls) buf
           = xor_bytes
               (cipher_encrypt cipher rk
                  (ctx_ctr (fst (gcm_started e sz context (ctx0, st0) mem key cipher iv ivlen))))
               (gf_mult (cipher_encrypt cipher rk zero_block)
                  (xor_bytes
                     (ctx_hash (fst (gcm_session e sz context (ctx0, st0) mem key cipher iv ivlen calls)))
                     (be_bytes 8 (of_nat (aad_length calls * 8) :: u64)
                        @ be_bytes 8 (of_nat (data_length calls * 8) :: u64))))
       \<and> gcm_count e
            (ctx_ctr (fst (gcm_session e sz context (ctx0, st0) mem key cipher iv ivlen calls)))
            (ucast ((- ctx_len_data
                 (fst (gcm_session e sz context (ctx0, st0) mem key cipher iv ivlen calls))) div 128))
           = ctx_ctr (fst (gcm_started e sz context (ctx0, st0) mem key cipher iv ivlen))"
proof -
  from gcm_started_ok [OF assms(1-4), of e sz "context" mem ivlen] obtain ctx st where
    st: "gcm_started e sz context (ctx0, st0) mem key cipher iv ivlen = (ctx, st, mem)"
    and s: "session_ok e context ctx st"
    and k: "ctx_key ctx = cipher_encrypt cipher rk zero_block" "raw_cipher ctx = cipher"
      "raw_ctx ctx = rk"
    and z: "ctx_len_add ctx = 0" "ctx_len_data ctx = 0"
    by blast
  have al: "16 dvd (0 :: nat) \<or> \<not> list_ex is_data calls" by simp
  have j: "ctx_ctr ctx = (inc32 ^^ ((0 + 15) div 16)) (ctx_ctr ctx)" by simp
  from gcm_run_frame [OF s assms(5) al j assms(6), where mem = mem] obtain ctx' st' mem' where
    r: "gcm_run e sz context (ctx, st, mem) calls = (ctx', st', mem')"
    and s': "session_ok e context ctx' st'"
    and k': "ctx_key ctx' = ctx_key ctx" "raw_cipher ctx' = raw_cipher ctx" "raw_ctx ctx' = raw_ctx ctx"
    and ld: "ctx_len_data ctx' = ctx_len_data ctx + of_nat (data_length calls) * 8"
    and la: "ctx_len_add ctx' = ctx_len_add ctx + of_nat (aad_length calls) * 8"
    and c: "ctx_ctr ctx' = (inc32 ^^ ((0 + data_length calls + 15) div 16)) (ctx_ctr ctx)"
    by blast
  have se: "gcm_session e sz context (ctx0, st0) mem key cipher iv ivlen calls = (ctx', st', mem')"
    by (simp add: gcm_session_def st r)
  have lj: "length (ctx_ctr ctx) = 16" using s by (simp add: session_ok_def context_wf_def)
  have b: "8 * data_length calls < 2 ^ 64" using assms(7) by (simp add: mult.commute)
  have rw: "gcm_count e (ctx_ctr ctx') (ucast ((- ctx_len_data ctx') div 128)) = ctx_ctr ctx"
    unfolding c ld z using offset_cancels [OF b]
    by (intro gcm_count_funpow_inc32 [OF lj]) simp
  have rw2: "gcm_count e (ctx_ctr ctx') (ucast ((- (of_nat (data_length calls) * 8 :: u64)) div 128))
      = ctx_ctr ctx"
    using rw by (simp add: ld z)
  from gcm_tag_spec [OF s' assms(8)] obtain st'' where
    t: "gcm_tag e context (ctx', st') buf =
           (ctx', st'',
            xor_bytes
              (cipher_encrypt (raw_cipher ctx') (raw_ctx ctx')
                 (gcm_count e (ctx_ctr ctx') (ucast ((- ctx_len_data ctx') div 128))))
              (gf_mult (ctx_key ctx')
                 (xor_bytes (ctx_hash ctx')
                    (be_bytes 8 (ctx_len_add ctx') @ be_bytes 8 (ctx_len_data ctx')))))"
    by blast
  have "gcm_tag_of e context (ctx', st', mem') buf =
      xor_bytes (cipher_encrypt cipher rk (ctx_ctr ctx))
        (gf_mult (cipher_encrypt cipher rk zero_block)
           (xor_bytes (ctx_hash ctx')
              (be_bytes 8 (of_nat (aad_length calls * 8) :: u64)
                 @ be_bytes 8 (of_nat (data_length calls * 8) :: u64))))"
    unfolding gcm_tag_of_def by (simp add: t rw2 k' k la ld z)
  then show ?thesis unfolding se st using rw by simp
qed

lemma toy_started_state:
  "\<exists>st. toy_started =
     ((fst toy_keyed)\<lparr>ctx_ctr := [16, 17, 18, 19, 20, 21, 22, 23, 24, 25, 26, 27, 0, 0, 0, 1]\<rparr>,
      st, toy_memory)
    \<and> session_ok LittleEndian 4096
         ((fst toy_keyed)\<lparr>ctx_ctr := [16, 17, 18, 19, 20, 21, 22, 23, 24, 25, 26, 27, 0, 0, 0, 1]\<rparr>) st"
proof -
  have r: "read_bytes toy_memory 16 12 = [16, 17, 18, 19, 20, 21, 22, 23, 24, 25, 26, 27]"
    by (simp add: read_bytes_def toy_memory_def upt_rec)
  have k: "gcm_setkey LittleEndian 4096 (toy_context, initial_statics) toy_key toy_cipher
      = (0, fst toy_keyed, snd toy_keyed)"
    unfolding toy_keyed_def
    using gcm_setkey_rc [of LittleEndian 4096 toy_context initial_statics toy_key toy_cipher]
      toy_setkey
    by (metis fst_conv prod.collapse)
  have c: "(fst toy_keyed)\<lparr>ctx_hash := zero_block, ctx_len_add := 0, ctx_len_data := 0,
        ctx_ctr := [16, 17, 18, 19, 20, 21, 22, 23, 24, 25, 26, 27, 0, 0, 0, 1]\<rparr>
      = (fst toy_keyed)\<lparr>ctx_ctr := [16, 17, 18, 19, 20, 21, 22, 23, 24, 25, 26, 27, 0, 0, 0, 1]\<rparr>"
    by (simp add: toy_keyed_ctx)
  have "toy_started =
     ((fst toy_keyed)\<lparr>ctx_ctr := [16, 17, 18, 19, 20, 21, 22, 23, 24, 25, 26, 27, 0, 0, 0, 1]\<rparr>,
      snd toy_keyed, toy_memory)"
    by (simp add: toy_started_def gcm_started_def k gcm_setiv_12 r c case_prod_beta)
  moreover have "session_ok LittleEndian 4096
      ((fst toy_keyed)\<lparr>ctx_ctr := [16, 17, 18, 19, 20, 21, 22, 23, 24, 25, 26, 27, 0, 0, 0, 1]\<rparr>)
      (snd toy_keyed)"
    using toy_keyed_session by (simp add: session_ok_def context_wf_def)
  ultimately show ?thesis by blast
qed

text \<open>
  C1, on a build whose \<open>size_t\<close> has 32 bits: after one call encrypting 2^29 bytes the
  count of data bits in the context is 0, because \<open>len * 8\<close> wrapped, while the counter has
  advanced by 2^25 blocks.  \<open>gcm_tag\<close> then adds the offset 0: the block it encrypts is
  J0 with the counter field 02 00 00 01 in place of 00 00 00 01, and the lengths block it
  hashes says 0 bits of data.
\<close>

theorem gcm_tag_rewinds_by_wrapped_length:
  "ctx_ctr (fst toy_started) = [16, 17, 18, 19, 20, 21, 22, 23, 24, 25, 26, 27, 0, 0, 0, 1]
   \<and> ctx_len_data (fst toy_long_session) = 0
   \<and> ctx_ctr (fst toy_long_session) = [16, 17, 18, 19, 20, 21, 22, 23, 24, 25, 26, 27, 2, 0, 0, 1]
   \<and> gcm_count LittleEndian (ctx_ctr (fst toy_long_session))
        (ucast ((- ctx_len_data (fst toy_long_session)) div 128))
       = [16, 17, 18, 19, 20, 21, 22, 23, 24, 25, 26, 27, 2, 0, 0, 1]
   \<and> gcm_tag_of LittleEndian 4096 toy_long_session (replicate 16 0)
       = xor_bytes
           (cipher_encrypt toy_cipher toy_schedule
              [16, 17, 18, 19, 20, 21, 22, 23, 24, 25, 26, 27, 2, 0, 0, 1])
           (gf_mult toy_key
              (xor_bytes (ctx_hash (fst toy_long_session))
                 (be_bytes 8 (0 :: u64) @ be_bytes 8 (0 :: u64))))"
proof -
  define j0 :: block where "j0 = [16, 17, 18, 19, 20, 21, 22, 23, 24, 25, 26, 27, 0, 0, 0, 1]"
  define j1 :: block where "j1 = [16, 17, 18, 19, 20, 21, 22, 23, 24, 25, 26, 27, 2, 0, 0, 1]"
  define ctx where "ctx = (fst toy_keyed)\<lparr>ctx_ctr := j0\<rparr>"
  from toy_started_state obtain st where
    ts: "toy_started = (ctx, st, toy_memory)" and s: "session_ok LittleEndian 4096 ctx st"
    unfolding ctx_def j0_def by blast
  have f: "ctx_len_data ctx = 0" "ctx_len_add ctx = 0" "ctx_ctr ctx = j0" "ctx_key ctx = toy_key"
    "raw_cipher ctx = toy_cipher" "raw_ctx ctx = toy_schedule"
    by (simp_all add: ctx_def toy_keyed_ctx)
  have src: "is_data (Encrypt 65536 1073741824 536870912) \<longrightarrow>
      has_source (Encrypt 65536 1073741824 536870912)" by simp
  from gcm_step_frame [OF s src, where mem = toy_memory and sz = 32] obtain ctx' st' mem' where
    step: "gcm_step LittleEndian 32 4096 (ctx, st, toy_memory) (Encrypt 65536 1073741824 536870912)
        = (ctx', st', mem')"
    and s': "session_ok LittleEndian 4096 ctx' st'"
    and k': "ctx_key ctx' = ctx_key ctx" "raw_cipher ctx' = raw_cipher ctx" "raw_ctx ctx' = raw_ctx ctx"
    and ld: "ctx_len_data ctx' = ctx_len_data ctx
        + of_nat (size_t_mult 32 (data_bytes (Encrypt 65536 1073741824 536870912)) 8)"
    and la: "ctx_len_add ctx' = ctx_len_add ctx
        + of_nat (size_t_mult 32 (aad_bytes (Encrypt 65536 1073741824 536870912)) 8)"
    and c: "ctx_ctr ctx' =
        (inc32 ^^ ((data_bytes (Encrypt 65536 1073741824 536870912) + 15) div 16)) (ctx_ctr ctx)"
    by blast
  have tl: "toy_long_session = (ctx', st', mem')"
    using step by (simp add: toy_long_session_def gcm_run_def ts)
  have ld0: "ctx_len_data ctx' = 0" unfolding ld f by (simp add: size_t_mult_def)
  have la0: "ctx_len_add ctx' = 0" unfolding la f by (simp add: size_t_mult_def)
  have lj: "length j0 = 16" by (simp add: j0_def)
  have n: "(data_bytes (Encrypt 65536 1073741824 536870912) + 15) div 16 = 33554432" by simp
  have w: "(be_word (drop 12 j0) :: u32) + of_nat 33554432 = 33554433"
    by (simp add: j0_def be_word_def)
  have b: "be_bytes 4 (33554433 :: u32) = [2, 0, 0, 1]"
    by (simp add: be_bytes_def upt_rec)
  have c1: "ctx_ctr ctx' = j1"
    unfolding c n f funpow_inc32_bytes [OF lj] w b by (simp add: j0_def j1_def)
  have lj1: "length j1 = 16" by (simp add: j1_def)
  have "gcm_count LittleEndian ((inc32 ^^ 0) j1) 0 = j1"
    by (rule gcm_count_funpow_inc32 [OF lj1]) simp
  then have g: "gcm_count LittleEndian j1 0 = j1" by simp
  have l: "length (replicate 16 (0 :: u8)) = 16" by simp
  from gcm_tag_spec [OF s' l] obtain st'' where
    t: "gcm_tag LittleEndian 4096 (ctx', st') (replicate 16 0) =
           (ctx', st'',
            xor_bytes
              (cipher_encrypt (raw_cipher ctx') (raw_ctx ctx')
                 (gcm_count LittleEndian (ctx_ctr ctx') (ucast ((- ctx_len_data ctx') div 128))))
              (gf_mult (ctx_key ctx')
                 (xor_bytes (ctx_hash ctx')
                    (be_bytes 8 (ctx_len_add ctx') @ be_bytes 8 (ctx_len_data ctx')))))"
    by blast
  have tag: "gcm_tag_of LittleEndian 4096 (ctx', st', mem') (replicate 16 0) =
      xor_bytes (cipher_encrypt toy_cipher toy_schedule j1)
        (gf_mult toy_key (xor_bytes (ctx_hash ctx') (be_bytes 8 (0 :: u64) @ be_bytes 8 (0 :: u64))))"
    unfolding gcm_tag_of_def by (simp add: t k' f ld0 la0 c1 g)
  show ?thesis
    unfolding tl ts using tag by (simp add: f c1 ld0 g) (simp add: j0_def j1_def)
qed

section \<open>Calls split at block boundaries\<close>

lemma gcm_process_loop_block:
  assumes "16 \<le> len"
  shows "gcm_process_loop e context (ctx, st, mem) src dst hash len =
           gcm_process_loop e context (gcm_process_loop e context (ctx, st, mem) src dst hash 16)
             (if dst \<noteq> 0 then src + 16 else src) (if dst \<noteq> 0 then dst + 16 else dst)
             (hash + 16) (len - 16)"
proof -
  define c1 where "c1 = (if dst \<noteq> 0 then gcm_count e (ctx_ctr ctx) 1 else ctx_ctr ctx)"
  define mem1 where "mem1 = (if dst \<noteq> 0
        then gcm_xor_mem mem src (cipher_encrypt (raw_cipher ctx) (raw_ctx ctx) c1) dst 16 else mem)"
  define h1 where "h1 = gcm_xor (read_bytes mem1 hash 16) (ctx_hash ctx) (ctx_hash ctx) 16"
  obtain h2 st1 where m: "gcm_multiply_key e st (key_ptr context) (ctx_key ctx) h1 = (h2, st1)"
    by (cases "gcm_multiply_key e st (key_ptr context) (ctx_key ctx) h1")
  define s1 where "s1 = (ctx\<lparr>ctx_ctr := c1, ctx_hash := h2\<rparr>, st1, mem1)"
  have step: "gcm_process_loop e context (ctx, st, mem) src dst hash n =
      gcm_process_loop e context s1
        (if dst \<noteq> 0 then src + 16 else src) (if dst \<noteq> 0 then dst + 16 else dst)
        (hash + 16) (n - 16)" if "16 \<le> n" for n
  proof (cases "dst = 0")
    case True
    have m': "gcm_multiply_key e st (key_ptr context) (ctx_key ctx)
        (gcm_xor (read_bytes mem hash 16) (ctx_hash ctx) (ctx_hash ctx) 16) = (h2, st1)"
      using m True by (simp add: h1_def mem1_def)
    have f: "(if 16 < n then 16 else n) = 16" using that by simp
    show ?thesis
      using that True m'
      by (subst gcm_process_loop.simps) (simp add: Let_def f s1_def c1_def mem1_def)
  next
    case False
    have m': "gcm_multiply_key e st (key_ptr context) (ctx_key ctx)
        (gcm_xor (read_bytes (gcm_xor_mem mem src
             (cipher_encrypt (raw_cipher ctx) (raw_ctx ctx) (gcm_count e (ctx_ctr ctx) 1)) dst 16)
            hash 16) (ctx_hash ctx) (ctx_hash ctx) 16) = (h2, st1)"
      using m False by (simp add: h1_def mem1_def c1_def)
    have f: "(if 16 < n then 16 else n) = 16" using that by simp
    show ?thesis
      using that False m'
      by (subst gcm_process_loop.simps) (simp add: Let_def f s1_def c1_def mem1_def)
  qed
  have "gcm_process_loop e context (ctx, st, mem) src dst hash 16 = s1"
    using step [of 16] by (cases s1) simp
  then show ?thesis using step [OF assms] by simp
qed

lemma gcm_process_loop_split:
  assumes "16 dvd m"
  shows "gcm_process_loop e context s src dst hash (m + n) =
           gcm_process_loop e context (gcm_process_loop e context s src dst hash m)
             (if dst \<noteq> 0 then src + m else src) (if dst \<noteq> 0 then dst + m else dst)
             (hash + m) n"
  using assms
proof (induction m arbitrary: s src dst hash rule: less_induct)
  case (less m)
  obtain ctx st mem where s: "s = (ctx, st, mem)" by (cases s)
  show ?case
  proof (cases "m = 0")
    case True
    then show ?thesis by (simp add: s)
  next
    case False
    with less.prems have m16: "16 \<le> m" by (auto dest: dvd_imp_le)
    then have d: "16 dvd (m - 16)" using less.prems by (simp add: dvd_diff_nat)
    have lt: "m - 16 < m" using m16 by simp
    define s1 where "s1 = gcm_process_loop e context (ctx, st, mem) src dst hash 16"
    define src1 where "src1 = (if dst \<noteq> 0 then src + 16 else src)"
    define dst1 where "dst1 = (if dst \<noteq> 0 then dst + 16 else dst)"
    have a: "gcm_process_loop e context (ctx, st, mem) src dst hash (m + n) =
        gcm_process_loop e context s1 src1 dst1 (hash + 16) (m - 16 + n)"
      using gcm_process_loop_block [of "m + n" e "context" ctx st mem src dst hash] m16
      by (simp add: s1_def src1_def dst1_def)
    have b: "gcm_process_loop e context (ctx, st, mem) src dst hash m =
        gcm_process_loop e context s1 src1 dst1 (hash + 16) (m - 16)"
      using gcm_process_loop_block [OF m16, of e "context" ctx st mem src dst hash]
      by (simp add: s1_def src1_def dst1_def)
    have p: "(if dst1 \<noteq> 0 then src1 + (m - 16) else src1) = (if dst \<noteq> 0 then src + m else src)"
      "(if dst1 \<noteq> 0 then dst1 + (m - 16) else dst1) = (if dst \<noteq> 0 then dst + m else dst)"
      "hash + 16 + (m - 16) = hash + m"
      using m16 by (auto simp: src1_def dst1_def)
    show ?thesis
      unfolding s a b less.IH [OF lt d, of s1 src1 dst1 "hash + 16"] p ..
  qed
qed

lemma gcm_process_loop_round:
  assumes "0 < len"
  shows "gcm_process_loop e context s src dst hash len =
           gcm_process_loop e context
             (gcm_process_round e context s src dst hash (if len > 16 then 16 else len))
             (if dst \<noteq> 0 then src + (if len > 16 then 16 else len) else src)
             (if dst \<noteq> 0 then dst + (if len > 16 then 16 else len) else dst)
             (hash + (if len > 16 then 16 else len))
             (len - (if len > 16 then 16 else len))"
proof -
  obtain ctx st mem where s: "s = (ctx, st, mem)" by (cases s)
  show ?thesis
    unfolding s using assms
    by (subst gcm_process_loop.simps)
      (simp add: gcm_process_round_def Let_def split: prod.splits)
qed

lemma gcm_process_round_lengths:
  "gcm_process_round e context (with_lengths a d s) src dst hash f
     = with_lengths a d (gcm_process_round e context s src dst hash f)"
proof -
  obtain ctx st mem where s: "s = (ctx, st, mem)" by (cases s)
  show ?thesis
    unfolding s
    by (simp add: gcm_process_round_def with_lengths_def Let_def split: prod.splits)
qed

lemma gcm_process_loop_lengths:
  "gcm_process_loop e context (with_lengths a d s) src dst hash len
     = with_lengths a d (gcm_process_loop e context s src dst hash len)"
proof (induction len arbitrary: s src dst hash rule: less_induct)
  case (less len)
  obtain ctx st mem where s: "s = (ctx, st, mem)" by (cases s)
  show ?case
  proof (cases "len = 0")
    case True
    then show ?thesis by (simp add: s with_lengths_def)
  next
    case False
    then have p: "0 < len" by simp
    define f where "f = (if len > 16 then 16 else len)"
    have lt: "len - f < len" using p by (simp add: f_def)
    show ?thesis
      unfolding gcm_process_loop_round [OF p, of e "context" "with_lengths a d s"]
        gcm_process_loop_round [OF p, of e "context" s] f_def [symmetric]
        gcm_process_round_lengths less.IH [OF lt] ..
  qed
qed

lemma gcm_process_round_keeps_lengths:
  "ctx_len_add (fst (gcm_process_round e context (ctx, st, mem) src dst hash f)) = ctx_len_add ctx"
  "ctx_len_data (fst (gcm_process_round e context (ctx, st, mem) src dst hash f)) = ctx_len_data ctx"
  by (simp_all add: gcm_process_round_def Let_def split: prod.splits)

lemma gcm_process_loop_keeps_lengths:
  "ctx_len_add (fst (gcm_process_loop e context (ctx, st, mem) src dst hash len)) = ctx_len_add ctx
   \<and> ctx_len_data (fst (gcm_process_loop e context (ctx, st, mem) src dst hash len)) = ctx_len_data ctx"
proof (induction len arbitrary: ctx st mem src dst hash rule: less_induct)
  case (less len)
  show ?case
  proof (cases "len = 0")
    case True
    then show ?thesis by simp
  next
    case False
    then have p: "0 < len" by simp
    define f where "f = (if len > 16 then 16 else len)"
    have lt: "len - f < len" using p by (simp add: f_def)
    obtain ctx1 st1 mem1 where r: "gcm_process_round e context (ctx, st, mem) src dst hash f
        = (ctx1, st1, mem1)" by (cases "gcm_process_round e context (ctx, st, mem) src dst hash f")
    have k: "ctx_len_add ctx1 = ctx_len_add ctx" "ctx_len_data ctx1 = ctx_len_data ctx"
      using gcm_process_round_keeps_lengths [of e "context" ctx st mem src dst hash f]
      by (simp_all add: r)
    show ?thesis
      unfolding gcm_process_loop_round [OF p, of e "context" "(ctx, st, mem)"] f_def [symmetric] r
      using less.IH [OF lt, of ctx1 st1 mem1] k by simp
  qed
qed

lemma with_lengths_twice [simp]: "with_lengths a d (with_lengths a' d' s) = with_lengths a d s"
  by (cases s) (simp add: with_lengths_def)

lemma with_lengths_fields [simp]:
  "ctx_len_add (fst (with_lengths a d s)) = a" "ctx_len_data (fst (with_lengths a d s)) = d"
  by (cases s; simp add: with_lengths_def)+

lemma with_lengths_same:
  "ctx_len_add (fst s) = a \<Longrightarrow> ctx_len_data (fst s) = d \<Longrightarrow> with_lengths a d s = s"
  by (cases s) (simp add: with_lengths_def)

lemma gcm_process_loop_form:
  "gcm_process e sz context s src dst hash len =
     with_lengths
       (ctx_len_add (fst s) + (if src = 0 then of_nat (size_t_mult sz len 8) else 0))
       (ctx_len_data (fst s) + (if src \<noteq> 0 then of_nat (size_t_mult sz len 8) else 0))
       (gcm_process_loop e context s src dst hash len)"
proof -
  obtain ctx st mem where s: "s = (ctx, st, mem)" by (cases s)
  have u: "(if src \<noteq> 0
            then ctx\<lparr>ctx_len_data := ctx_len_data ctx + of_nat (size_t_mult sz len 8)\<rparr>
            else ctx\<lparr>ctx_len_add := ctx_len_add ctx + of_nat (size_t_mult sz len 8)\<rparr>, st, mem)
      = with_lengths
         (ctx_len_add ctx + (if src = 0 then of_nat (size_t_mult sz len 8) else 0))
         (ctx_len_data ctx + (if src \<noteq> 0 then of_nat (size_t_mult sz len 8) else 0)) (ctx, st, mem)"
    by (simp add: with_lengths_def)
  have "gcm_process e sz context (ctx, st, mem) src dst hash len =
      gcm_process_loop e context
        (if src \<noteq> 0
            then ctx\<lparr>ctx_len_data := ctx_len_data ctx + of_nat (size_t_mult sz len 8)\<rparr>
            else ctx\<lparr>ctx_len_add := ctx_len_add ctx + of_nat (size_t_mult sz len 8)\<rparr>, st, mem)
        src dst hash len"
    by (simp add: gcm_process_def Let_def)
  then show ?thesis unfolding s u gcm_process_loop_lengths by simp
qed

lemma gcm_process_nothing: "gcm_process e sz context s src dst hash 0 = s"
proof -
  obtain ctx st mem where s: "s = (ctx, st, mem)" by (cases s)
  show ?thesis
    unfolding gcm_process_loop_form s by (simp add: size_t_mult_def with_lengths_def)
qed

lemma gcm_process_split:
  assumes "16 dvd m" "(m + n) * 8 < 2 ^ sz" "dst \<noteq> 0 \<longrightarrow> src \<noteq> 0"
  shows "gcm_process e sz context s src dst hash (m + n) =
           gcm_process e sz context (gcm_process e sz context s src dst hash m)
             (if dst \<noteq> 0 then src + m else src) (if dst \<noteq> 0 then dst + m else dst)
             (hash + m) n"
proof -
  define src' where "src' = (if dst \<noteq> 0 then src + m else src)"
  define dst' where "dst' = (if dst \<noteq> 0 then dst + m else dst)"
  define L where "L = gcm_process_loop e context s src dst hash m"
  have z: "src' = 0 \<longleftrightarrow> src = 0" using assms(3) by (auto simp: src'_def)
  have fm: "size_t_mult sz m 8 = m * 8" and fn: "size_t_mult sz n 8 = n * 8"
    and fmn: "size_t_mult sz (m + n) 8 = m * 8 + n * 8"
    using assms(2) by (simp_all add: size_t_mult_def)
  obtain ctx st mem where s: "s = (ctx, st, mem)" by (cases s)
  have kl: "ctx_len_add (fst L) = ctx_len_add (fst s)" "ctx_len_data (fst L) = ctx_len_data (fst s)"
    unfolding L_def s using gcm_process_loop_keeps_lengths [of e "context" ctx st mem src dst hash m]
    by simp_all
  have sp: "gcm_process_loop e context s src dst hash (m + n) =
      gcm_process_loop e context L src' dst' (hash + m) n"
    unfolding L_def src'_def dst'_def by (rule gcm_process_loop_split [OF assms(1)])
  have "gcm_process e sz context (gcm_process e sz context s src dst hash m) src' dst' (hash + m) n
      = with_lengths
          (ctx_len_add (fst s) + (if src = 0 then of_nat (m * 8) else 0)
             + (if src = 0 then of_nat (n * 8) else 0))
          (ctx_len_data (fst s) + (if src \<noteq> 0 then of_nat (m * 8) else 0)
             + (if src \<noteq> 0 then of_nat (n * 8) else 0))
          (gcm_process_loop e context L src' dst' (hash + m) n)"
    unfolding gcm_process_loop_form [of e sz "context" _ src' dst' "hash + m" n]
    unfolding gcm_process_loop_form [of e sz "context" s src dst hash m] L_def [symmetric]
    by (simp add: gcm_process_loop_lengths z fm fn)
  also have "\<dots> = gcm_process e sz context s src dst hash (m + n)"
    unfolding gcm_process_loop_form [of e sz "context" s src dst hash "m + n"] sp fmn
    by (simp add: add.assoc)
  finally show ?thesis unfolding src'_def dst'_def by simp
qed

lemma gcm_step_split:
  assumes "mk = Encrypt \<or> mk = Decrypt" "16 dvd m" "(m + n) * 8 < 2 ^ sz" "dst = 0 \<or> src \<noteq> 0"
  shows "gcm_step e sz context (gcm_step e sz context s (mk src dst m))
           (mk (src + m) (if dst = 0 then 0 else dst + m) n)
         = gcm_step e sz context s (mk src dst (m + n))"
proof (cases "dst = 0")
  case True
  have "0 \<noteq> (0 :: nat) \<longrightarrow> (0 :: nat) \<noteq> 0" by simp
  from gcm_process_split [OF assms(2,3) this, of e "context" s src]
  show ?thesis using assms(1) True
    by (auto simp: gcm_encrypt_def gcm_decrypt_def)
next
  case False
  then have "dst \<noteq> 0 \<longrightarrow> src \<noteq> 0" using assms(4) by simp
  from gcm_process_split [OF assms(2,3) this, of e "context" s dst]
    gcm_process_split [OF assms(2,3) this, of e "context" s src]
  show ?thesis using assms(1) False
    by (auto simp: gcm_encrypt_def gcm_decrypt_def)
qed

lemma gcm_step_nothing:
  assumes "mk = Encrypt \<or> mk = Decrypt"
  shows "gcm_step e sz context s (mk src dst 0) = s"
  using assms by (auto simp: gcm_encrypt_def gcm_decrypt_def gcm_process_nothing)

lemma gcm_run_fragments:
  assumes "mk = Encrypt \<or> mk = Decrypt"
    and "list_all (\<lambda>n. 16 dvd n) (butlast lens)"
    and "sum_list lens * 8 < 2 ^ sz" "dst = 0 \<or> src \<noteq> 0"
  shows "gcm_run e sz context s (fragments mk src dst lens)
           = gcm_step e sz context s (mk src dst (sum_list lens))"
  using assms(2-4)
proof (induction lens arbitrary: s src dst)
  case Nil
  show ?case by (simp add: gcm_run_def gcm_step_nothing [OF assms(1)])
next
  case (Cons n ns)
  show ?case
  proof (cases "ns = []")
    case True
    then show ?thesis by (simp add: gcm_run_def)
  next
    case False
    then have d: "16 dvd n" and r: "list_all (\<lambda>n. 16 dvd n) (butlast ns)"
      using Cons.prems(1) by simp_all
    have f: "(n + sum_list ns) * 8 < 2 ^ sz" using Cons.prems(2) by simp
    then have f2: "sum_list ns * 8 < 2 ^ sz" by simp
    have o: "(if dst = 0 then 0 else dst + n) = 0 \<or> src + n \<noteq> 0"
      using Cons.prems(3) by auto
    have "gcm_run e sz context s (fragments mk src dst (n # ns))
        = gcm_run e sz context (gcm_step e sz context s (mk src dst n))
            (fragments mk (src + n) (if dst = 0 then 0 else dst + n) ns)"
      by (simp add: gcm_run_def)
    also have "\<dots> = gcm_step e sz context (gcm_step e sz context s (mk src dst n))
        (mk (src + n) (if dst = 0 then 0 else dst + n) (sum_list ns))"
      by (rule Cons.IH [OF r f2 o])
    also have "\<dots> = gcm_step e sz context s (mk src dst (n + sum_list ns))"
      by (rule gcm_step_split [OF assms(1) d f Cons.prems(3)])
    finally show ?thesis by simp
  qed
qed

lemma gcm_run_append:
  "gcm_run e sz context s (xs @ ys) = gcm_run e sz context (gcm_run e sz context s xs) ys"
  by (simp add: gcm_run_def)

text \<open>
  C3, as the code has it: additional data and data may each be delivered as successive
  calls, provided every call but the last of its kind is a multiple of sixteen bytes long
  (the lengths in bits fitting \<open>size_t\<close>, and a data call having a source).  The state after
  the calls, that is the context, the tables and the memory, and with it the ciphertext, is
  the state after one call for the additional data followed by one call for the data, and so
  is the tag.  This holds for every state and every placement of the buffers.
\<close>

theorem gcm_fragments_on_block_boundaries:
  assumes "mka = Encrypt \<or> mka = Decrypt" "mkd = Encrypt \<or> mkd = Decrypt"
    and "list_all (\<lambda>n. 16 dvd n) (butlast alens)" "list_all (\<lambda>n. 16 dvd n) (butlast dlens)"
    and "sum_list alens * 8 < 2 ^ sz" "sum_list dlens * 8 < 2 ^ sz"
    and "dst = 0 \<or> src \<noteq> 0"
  shows "gcm_run e sz context s (fragments mka aad 0 alens @ fragments mkd src dst dlens)
           = gcm_run e sz context s [mka aad 0 (sum_list alens), mkd src dst (sum_list dlens)]
       \<and> gcm_tag_of e context
            (gcm_run e sz context s (fragments mka aad 0 alens @ fragments mkd src dst dlens)) buf
           = gcm_tag_of e context
               (gcm_run e sz context s [mka aad 0 (sum_list alens), mkd src dst (sum_list dlens)])
               buf"
proof -
  have a: "(0 :: nat) = 0 \<or> aad \<noteq> 0" by simp
  have "gcm_run e sz context s (fragments mka aad 0 alens @ fragments mkd src dst dlens)
      = gcm_run e sz context s [mka aad 0 (sum_list alens), mkd src dst (sum_list dlens)]"
    unfolding gcm_run_append gcm_run_fragments [OF assms(1,3,5) a]
      gcm_run_fragments [OF assms(2,4,6,7)]
    by (simp add: gcm_run_def)
  then show ?thesis by simp
qed

theorem gcm_fragments_on_block_boundaries_witness:
  "list_all (\<lambda>n. 16 dvd n) (butlast [16, 4 :: nat])
   \<and> list_all (\<lambda>n. 16 dvd n) (butlast [16, 16, 5 :: nat])
   \<and> sum_list [16, 4 :: nat] * 8 < 2 ^ 32 \<and> sum_list [16, 16, 5 :: nat] * 8 < 2 ^ 32
   \<and> gcm_run LittleEndian 32 4096 toy_started
        (fragments Encrypt 32 0 [16, 4] @ fragments Encrypt 64 256 [16, 16, 5])
       = gcm_run LittleEndian 32 4096 toy_started [Encrypt 32 0 20, Encrypt 64 256 37]
   \<and> gcm_tag_of LittleEndian 4096 (gcm_run LittleEndian 32 4096 toy_started
            (fragments Encrypt 32 0 [16, 4] @ fragments Encrypt 64 256 [16, 16, 5])) (replicate 16 0)
       = gcm_tag_of LittleEndian 4096
           (gcm_run LittleEndian 32 4096 toy_started [Encrypt 32 0 20, Encrypt 64 256 37])
           (replicate 16 0)"
proof -
  have h: "Encrypt = Encrypt \<or> Encrypt = Decrypt"
    "list_all (\<lambda>n. 16 dvd n) (butlast [16, 4 :: nat])"
    "list_all (\<lambda>n. 16 dvd n) (butlast [16, 16, 5 :: nat])"
    "sum_list [16, 4 :: nat] * 8 < 2 ^ 32" "sum_list [16, 16, 5 :: nat] * 8 < 2 ^ 32"
    "(256 :: nat) = 0 \<or> (64 :: nat) \<noteq> 0"
    by simp_all
  note w = gcm_fragments_on_block_boundaries [OF h(1) h(1) h(2-6),
      of LittleEndian 4096 toy_started 32 "replicate 16 0"]
  show ?thesis
    using w h by simp
qed

section \<open>The effect of a call on well-placed buffers\<close>

lemma ctr_crypt_append:
  assumes "16 dvd length a"
  shows "ctr_crypt c k ctr (a @ b) =
           ctr_crypt c k ctr a @ ctr_crypt c k ((inc32 ^^ (length a div 16)) ctr) b"
  using assms
proof (induction c k ctr a rule: ctr_crypt.induct)
  case (1 c k ctr a)
  show ?case
  proof (cases "a = []")
    case True
    then show ?thesis by simp
  next
    case False
    from False have "0 < length a" by simp
    with "1.prems" have la: "16 \<le> length a" by (rule dvd_imp_le)
    then have d: "16 dvd length (drop 16 a)" using "1.prems" by (simp add: dvd_diff_nat)
    have n: "length a div 16 = Suc (length (drop 16 a) div 16)"
      using la by (simp add: le_div_geq)
    have ab: "a @ b \<noteq> []" using False by simp
    have t: "take 16 (a @ b) = take 16 a" "drop 16 (a @ b) = drop 16 a @ b" using la by simp_all
    show ?thesis
      unfolding ctr_crypt_step [OF ab] ctr_crypt_step [OF False] t "1.IH" [OF False d] n
      by (simp add: funpow_swap1)
  qed
qed

lemma xor_bytes_twice: "length a \<le> length b \<Longrightarrow> xor_bytes (xor_bytes a b) b = a"
proof (induction a arbitrary: b)
  case Nil
  show ?case by (simp add: xor_bytes_def)
next
  case (Cons x xs)
  then obtain y ys where b: "b = y # ys" by (cases b) auto
  with Cons show ?case by (simp add: xor_bytes_def xor.assoc)
qed

lemma ctr_crypt_twice:
  assumes "block_cipher c k" "length ctr = 16"
  shows "ctr_crypt c k ctr (ctr_crypt c k ctr bs) = bs"
  using assms
proof (induction c k ctr bs rule: ctr_crypt.induct)
  case (1 c k ctr bs)
  show ?case
  proof (cases "bs = []")
    case True
    then show ?thesis by simp
  next
    case False
    define ks where "ks = cipher_encrypt c k (inc32 ctr)"
    have lk: "length ks = 16" using "1.prems" by (simp add: ks_def block_cipher_def)
    define x where "x = xor_bytes (take 16 bs) ks"
    define rest where "rest = ctr_crypt c k (inc32 ctr) (drop 16 bs)"
    have lx: "length x = min 16 (length bs)" using lk by (simp add: x_def xor_bytes_def)
    have ne: "x @ rest \<noteq> []"
      using False lx by (cases bs) auto
    have lc: "length rest = length bs - 16"
      using "1.prems" by (simp add: rest_def)
    have t: "take 16 (x @ rest) = x"
      using lx lc by (cases "length bs \<ge> 16") simp_all
    have d: "drop 16 (x @ rest) = rest"
      using lx lc by (cases "length bs \<ge> 16") simp_all
    have xx: "xor_bytes x ks = take 16 bs"
      unfolding x_def using lk by (intro xor_bytes_twice) simp
    have ih: "ctr_crypt c k (inc32 ctr) rest = drop 16 bs"
      unfolding rest_def using "1.IH" [OF False] "1.prems" by simp
    have s1: "ctr_crypt c k ctr bs = x @ rest"
      by (simp add: ctr_crypt_step [OF False] x_def ks_def rest_def)
    have s2: "ctr_crypt c k ctr (x @ rest) =
        xor_bytes (take 16 (x @ rest)) ks @ ctr_crypt c k (inc32 ctr) (drop 16 (x @ rest))"
      unfolding ks_def by (rule ctr_crypt_step [OF ne])
    show ?thesis
      unfolding s1 s2 t d xx ih by simp
  qed
qed

lemma call_effect_wf:
  assumes "context_wf ctx"
  shows "context_wf (fst (call_effect sz (ctx, mem) c))"
  using assms by (simp add: call_effect_def context_wf_def)

lemma gcm_step_effect:
  assumes "session_ok e context ctx st" "buffers_ok c"
  shows "\<exists>st'. gcm_step e sz context (ctx, st, mem) c =
           (fst (call_effect sz (ctx, mem) c), st', snd (call_effect sz (ctx, mem) c))
         \<and> session_ok e context (fst (call_effect sz (ctx, mem) c)) st'"
proof -
  have wf: "context_wf ctx" using assms(1) by (simp add: session_ok_def)
  have wf': "context_wf (fst (call_effect sz (ctx, mem) c))" using wf by (rule call_effect_wf)
  have k: "ctx_key (fst (call_effect sz (ctx, mem) c)) = ctx_key ctx" by (simp add: call_effect_def)
  have fin: "\<exists>st'. gcm_step e sz context (ctx, st, mem) c =
           (fst (call_effect sz (ctx, mem) c), st', snd (call_effect sz (ctx, mem) c))
         \<and> session_ok e context (fst (call_effect sz (ctx, mem) c)) st'"
    if "gcm_step e sz context (ctx, st, mem) c =
           (fst (call_effect sz (ctx, mem) c), st', snd (call_effect sz (ctx, mem) c))"
      "cache_ok e (key_ptr context) (ctx_key ctx) st'" for st'
    using that wf' k by (auto simp: session_ok_def)
  show ?thesis
  proof (cases c)
    case (Encrypt src dst len)
    show ?thesis
    proof (cases "dst = 0")
      case True
      from gcm_process_hash_only [OF assms(1), of sz mem src len] obtain st' where
        "gcm_process e sz context (ctx, st, mem) 0 0 src len =
           (ctx\<lparr>ctx_len_add := ctx_len_add ctx + of_nat (size_t_mult sz len 8),
                ctx_hash := ghash_bytes (ctx_key ctx) (ctx_hash ctx) (read_bytes mem src len)\<rparr>,
            st', mem)" "cache_ok e (key_ptr context) (ctx_key ctx) st'" by blast
      then show ?thesis
        using True by (intro fin [of st']) (simp_all add: Encrypt gcm_encrypt_def call_effect_def size_t_mult_def)
    next
      case False
      then have b: "src \<noteq> 0" "dst \<le> src \<or> src + len \<le> dst" using assms(2) Encrypt by simp_all
      have h: "dst = dst \<or> (dst = src \<and> (src + len \<le> dst \<or> dst + len \<le> src))" by simp
      from gcm_process_data [OF assms(1) False b h, of sz mem] obtain st' where
        "gcm_process e sz context (ctx, st, mem) src dst dst len =
           (ctx\<lparr>ctx_len_data := ctx_len_data ctx + of_nat (size_t_mult sz len 8),
                ctx_ctr := (inc32 ^^ ((len + 15) div 16)) (ctx_ctr ctx),
                ctx_hash := ghash_bytes (ctx_key ctx) (ctx_hash ctx)
                  (if dst = dst
                   then ctr_crypt (raw_cipher ctx) (raw_ctx ctx) (ctx_ctr ctx) (read_bytes mem src len)
                   else read_bytes mem src len)\<rparr>,
            st',
            write_bytes mem dst
              (ctr_crypt (raw_cipher ctx) (raw_ctx ctx) (ctx_ctr ctx) (read_bytes mem src len)))"
        "cache_ok e (key_ptr context) (ctx_key ctx) st'" by blast
      then show ?thesis
        using False by (intro fin [of st']) (simp_all add: Encrypt gcm_encrypt_def call_effect_def size_t_mult_def)
    qed
  next
    case (Decrypt src dst len)
    show ?thesis
    proof (cases "dst = 0")
      case True
      from gcm_process_hash_only [OF assms(1), of sz mem src len] obtain st' where
        "gcm_process e sz context (ctx, st, mem) 0 0 src len =
           (ctx\<lparr>ctx_len_add := ctx_len_add ctx + of_nat (size_t_mult sz len 8),
                ctx_hash := ghash_bytes (ctx_key ctx) (ctx_hash ctx) (read_bytes mem src len)\<rparr>,
            st', mem)" "cache_ok e (key_ptr context) (ctx_key ctx) st'" by blast
      then show ?thesis
        using True by (intro fin [of st']) (simp_all add: Decrypt gcm_decrypt_def call_effect_def size_t_mult_def)
    next
      case False
      then have b: "src \<noteq> 0" "src + len \<le> dst \<or> dst + len \<le> src" using assms(2) Decrypt by simp_all
      have b2: "dst \<le> src \<or> src + len \<le> dst" using b(2) by auto
      have h: "src = dst \<or> (src = src \<and> (src + len \<le> dst \<or> dst + len \<le> src))" using b(2) by simp
      have ne: "src \<noteq> dst \<or> len = 0" using b(2) False b(1) by auto
      from gcm_process_data [OF assms(1) False b(1) b2 h, of sz mem] obtain st' where
        p: "gcm_process e sz context (ctx, st, mem) src dst src len =
           (ctx\<lparr>ctx_len_data := ctx_len_data ctx + of_nat (size_t_mult sz len 8),
                ctx_ctr := (inc32 ^^ ((len + 15) div 16)) (ctx_ctr ctx),
                ctx_hash := ghash_bytes (ctx_key ctx) (ctx_hash ctx)
                  (if src = dst
                   then ctr_crypt (raw_cipher ctx) (raw_ctx ctx) (ctx_ctr ctx) (read_bytes mem src len)
                   else read_bytes mem src len)\<rparr>,
            st',
            write_bytes mem dst
              (ctr_crypt (raw_cipher ctx) (raw_ctx ctx) (ctx_ctr ctx) (read_bytes mem src len)))"
        and ok: "cache_ok e (key_ptr context) (ctx_key ctx) st'" by blast
      have hh: "(if src = dst
                   then ctr_crypt (raw_cipher ctx) (raw_ctx ctx) (ctx_ctr ctx) (read_bytes mem src len)
                   else read_bytes mem src len) = read_bytes mem src len"
        using ne by auto
      show ?thesis
        using False p ok unfolding hh
        by (intro fin [of st']) (simp_all add: Decrypt gcm_decrypt_def call_effect_def size_t_mult_def)
    qed
  next
    case (Caller_Writes p bs)
    have "fst (call_effect sz (ctx, mem) c) = ctx"
      by (simp add: Caller_Writes call_effect_def size_t_mult_def)
    moreover have "snd (call_effect sz (ctx, mem) c) = write_bytes mem p bs"
      by (simp add: Caller_Writes call_effect_def)
    ultimately show ?thesis using assms(1) by (simp add: Caller_Writes)
  qed
qed

lemma gcm_run_effect:
  assumes "session_ok e context ctx st" "list_all buffers_ok cs"
  shows "\<exists>st'. gcm_run e sz context (ctx, st, mem) cs =
           (fst (foldl (call_effect sz) (ctx, mem) cs), st', snd (foldl (call_effect sz) (ctx, mem) cs))
         \<and> session_ok e context (fst (foldl (call_effect sz) (ctx, mem) cs)) st'"
  using assms
proof (induction cs arbitrary: ctx st mem)
  case Nil
  then show ?case by (simp add: gcm_run_def)
next
  case (Cons c cs)
  from gcm_step_effect [OF Cons.prems(1), of c sz mem] Cons.prems(2) obtain st1 where
    s: "gcm_step e sz context (ctx, st, mem) c =
           (fst (call_effect sz (ctx, mem) c), st1, snd (call_effect sz (ctx, mem) c))"
    and ok: "session_ok e context (fst (call_effect sz (ctx, mem) c)) st1" by auto
  have r: "list_all buffers_ok cs" using Cons.prems(2) by simp
  from Cons.IH [OF ok r, of "snd (call_effect sz (ctx, mem) c)"]
  show ?case by (simp add: gcm_run_def s)
qed

lemma size_t_mult_fits: "a * b < 2 ^ sz \<Longrightarrow> size_t_mult sz a b = a * b"
  by (simp add: size_t_mult_def)

lemma size_t_mult_0 [simp]: "size_t_mult sz 0 b = 0"
  by (simp add: size_t_mult_def)

lemma call_effect_data:
  assumes "dst \<noteq> 0" "mk = Encrypt \<or> mk = Decrypt"
  shows "call_effect sz (ctx, mem) (mk src dst len) =
     (ctx\<lparr>ctx_len_add := ctx_len_add ctx,
          ctx_len_data := ctx_len_data ctx + of_nat (size_t_mult sz len 8),
          ctx_ctr := (inc32 ^^ ((len + 15) div 16)) (ctx_ctr ctx),
          ctx_hash := ghash_bytes (ctx_key ctx) (ctx_hash ctx)
             (if mk = Encrypt
              then ctr_crypt (raw_cipher ctx) (raw_ctx ctx) (ctx_ctr ctx) (read_bytes mem src len)
              else read_bytes mem src len)\<rparr>,
      write_bytes mem dst
        (ctr_crypt (raw_cipher ctx) (raw_ctx ctx) (ctx_ctr ctx) (read_bytes mem src len)))"
  using assms by (auto simp: call_effect_def)

lemma call_effect_aad:
  assumes "mk = Encrypt \<or> mk = Decrypt"
  shows "call_effect sz (ctx, mem) (mk src 0 len) =
     (ctx\<lparr>ctx_len_add := ctx_len_add ctx + of_nat (size_t_mult sz len 8),
          ctx_len_data := ctx_len_data ctx,
          ctx_ctr := ctx_ctr ctx,
          ctx_hash := ghash_bytes (ctx_key ctx) (ctx_hash ctx) (read_bytes mem src len)\<rparr>,
      mem)"
  using assms by (auto simp: call_effect_def)

lemma toy_started_session:
  "session_ok LittleEndian 4096 (fst toy_started) (fst (snd toy_started))"
  "snd (snd toy_started) = toy_memory"
  "fst toy_started
     = (fst toy_keyed)\<lparr>ctx_ctr := [16, 17, 18, 19, 20, 21, 22, 23, 24, 25, 26, 27, 0, 0, 0, 1]\<rparr>"
proof -
  from toy_started_state obtain st where
    ts: "toy_started =
       ((fst toy_keyed)\<lparr>ctx_ctr := [16, 17, 18, 19, 20, 21, 22, 23, 24, 25, 26, 27, 0, 0, 0, 1]\<rparr>,
        st, toy_memory)"
    and s: "session_ok LittleEndian 4096
       ((fst toy_keyed)\<lparr>ctx_ctr := [16, 17, 18, 19, 20, 21, 22, 23, 24, 25, 26, 27, 0, 0, 0, 1]\<rparr>) st"
    by blast
  show "session_ok LittleEndian 4096 (fst toy_started) (fst (snd toy_started))"
    unfolding ts using s by simp
  show "snd (snd toy_started) = toy_memory" unfolding ts by simp
  show "fst toy_started
     = (fst toy_keyed)\<lparr>ctx_ctr := [16, 17, 18, 19, 20, 21, 22, 23, 24, 25, 26, 27, 0, 0, 0, 1]\<rparr>"
    unfolding ts by simp
qed

lemma toy_inc32:
  "inc32 [16, 17, 18, 19, 20, 21, 22, 23, 24, 25, 26, 27, 0, 0, 0, 1]
     = [16, 17, 18, 19, 20, 21, 22, 23, 24, 25, 26, 27, 0, 0, 0, 2]"
  "inc32 [16, 17, 18, 19, 20, 21, 22, 23, 24, 25, 26, 27, 0, 0, 0, 2]
     = [16, 17, 18, 19, 20, 21, 22, 23, 24, 25, 26, 27, 0, 0, 0, 3]"
  by (simp_all add: inc32_def be_word_def be_bytes_def upt_rec)

lemma toy_keystream:
  "cipher_encrypt toy_cipher toy_schedule [16, 17, 18, 19, 20, 21, 22, 23, 24, 25, 26, 27, 0, 0, 0, 2]
     = [0x82, 1, 2, 3, 31, 31, 31, 31, 31, 31, 31, 31, 31, 31, 31, 31]"
  "cipher_encrypt toy_cipher toy_schedule [16, 17, 18, 19, 20, 21, 22, 23, 24, 25, 26, 27, 0, 0, 0, 3]
     = [0x83, 1, 2, 3, 31, 31, 31, 31, 31, 31, 31, 31, 31, 31, 31, 31]"
  by (simp_all add: toy_cipher_def toy_schedule_def)

text \<open>
  C3, as it is stated, fails: two bytes encrypted by one call and the same two bytes
  encrypted by two calls of one byte give different ciphertexts, because the second call
  starts a new keystream block.
\<close>

theorem gcm_encrypt_byte_fragments_differ:
  "read_bytes (snd (snd (gcm_run LittleEndian 32 4096 toy_started [Encrypt 64 256 2]))) 256 2
     = [0xc2, 0x40]
   \<and> read_bytes (snd (snd (gcm_run LittleEndian 32 4096 toy_started
          (fragments Encrypt 64 256 [1, 1])))) 256 2
     = [0xc2, 0xc2]
   \<and> read_bytes (snd (snd (gcm_run LittleEndian 32 4096 toy_started [Encrypt 64 256 2]))) 256 2
     \<noteq> read_bytes (snd (snd (gcm_run LittleEndian 32 4096 toy_started
          (fragments Encrypt 64 256 [1, 1])))) 256 2"
proof -
  define j0 :: block where "j0 = [16, 17, 18, 19, 20, 21, 22, 23, 24, 25, 26, 27, 0, 0, 0, 1]"
  define ctx where "ctx = fst toy_started"
  define st where "st = fst (snd toy_started)"
  have ts: "toy_started = (ctx, st, toy_memory)"
    using toy_started_session(2) unfolding ctx_def st_def by (metis prod.collapse)
  have s: "session_ok LittleEndian 4096 ctx st"
    unfolding ctx_def st_def by (rule toy_started_session(1))
  have f: "ctx_ctr ctx = j0" "raw_cipher ctx = toy_cipher" "raw_ctx ctx = toy_schedule"
    unfolding ctx_def toy_started_session(3) by (simp_all add: toy_keyed_ctx j0_def)
  have p2: "read_bytes toy_memory 64 2 = [0x40, 0x41]"
    by (simp add: read_bytes_def toy_memory_def upt_rec)
  have p1: "read_bytes toy_memory 64 (Suc 0) = [0x40]" "read_bytes toy_memory 65 (Suc 0) = [0x41]"
    by (simp_all add: read_bytes_def toy_memory_def)
  have c2: "ctr_crypt toy_cipher toy_schedule j0 [0x40, 0x41] = [0xc2, 0x40]"
    unfolding j0_def
    by (subst ctr_crypt_step) (simp_all add: toy_inc32 toy_keystream xor_bytes_def)
  have c1: "ctr_crypt toy_cipher toy_schedule j0 [0x40] = [0xc2]"
    unfolding j0_def
    by (subst ctr_crypt_step) (simp_all add: toy_inc32 toy_keystream xor_bytes_def)
  have c1': "ctr_crypt toy_cipher toy_schedule (inc32 j0) [0x41] = [0xc2]"
    unfolding j0_def
    by (subst ctr_crypt_step) (simp_all add: toy_inc32 toy_keystream xor_bytes_def)
  have b1: "list_all buffers_ok [Encrypt 64 256 2]" by simp
  have b2: "list_all buffers_ok (fragments Encrypt 64 256 [1, 1])" by simp
  have e1: "snd (foldl (call_effect 32) (ctx, toy_memory) [Encrypt 64 256 2])
      = write_bytes toy_memory 256 [0xc2, 0x40]"
    by (simp add: call_effect_def f p2 c2)
  have r1: "read_bytes toy_memory 65 (Suc 0) = read_bytes (write_bytes toy_memory 256 [0xc2]) 65 (Suc 0)"
    by (rule read_write_disjoint [symmetric]) simp
  have e2: "snd (foldl (call_effect 32) (ctx, toy_memory) (fragments Encrypt 64 256 [1, 1]))
      = write_bytes (write_bytes toy_memory 256 [0xc2]) 257 [0xc2]"
    by (simp add: call_effect_def f p1 c1 r1 [symmetric] c1')
  have w: "write_bytes (write_bytes toy_memory 256 [0xc2]) 257 [0xc2]
      = write_bytes toy_memory 256 [0xc2, 0xc2]"
    using write_bytes_append [of toy_memory 256 "[0xc2]" "[0xc2]"] by simp
  from gcm_run_effect [OF s b1, of 32 toy_memory] obtain st1 where
    "gcm_run LittleEndian 32 4096 (ctx, st, toy_memory) [Encrypt 64 256 2] =
        (fst (foldl (call_effect 32) (ctx, toy_memory) [Encrypt 64 256 2]), st1,
         snd (foldl (call_effect 32) (ctx, toy_memory) [Encrypt 64 256 2]))" by blast
  then have m1: "snd (snd (gcm_run LittleEndian 32 4096 toy_started [Encrypt 64 256 2]))
      = write_bytes toy_memory 256 [0xc2, 0x40]"
    unfolding ts e1 by simp
  from gcm_run_effect [OF s b2, of 32 toy_memory] obtain st2 where
    "gcm_run LittleEndian 32 4096 (ctx, st, toy_memory) (fragments Encrypt 64 256 [1, 1]) =
        (fst (foldl (call_effect 32) (ctx, toy_memory) (fragments Encrypt 64 256 [1, 1])), st2,
         snd (foldl (call_effect 32) (ctx, toy_memory) (fragments Encrypt 64 256 [1, 1])))" by blast
  then have m2: "snd (snd (gcm_run LittleEndian 32 4096 toy_started (fragments Encrypt 64 256 [1, 1])))
      = write_bytes toy_memory 256 [0xc2, 0xc2]"
    unfolding ts e2 w by simp
  have v1: "read_bytes (write_bytes toy_memory 256 [0xc2, 0x40]) 256 2 = [0xc2, 0x40]"
    using read_write_same [of toy_memory 256 "[0xc2, 0x40]"] by (simp add: numeral_2_eq_2)
  have v2: "read_bytes (write_bytes toy_memory 256 [0xc2, 0xc2]) 256 2 = [0xc2, 0xc2]"
    using read_write_same [of toy_memory 256 "[0xc2, 0xc2]"] by (simp add: numeral_2_eq_2)
  show ?thesis unfolding m1 m2 v1 v2 by simp
qed

section \<open>Encrypting and decrypting\<close>

lemma gcm_started_state:
  assumes "cipher_setkey cipher (raw_ctx ctx0) key = (0, rk)" "block_cipher cipher rk"
    "statics_wf st0" "iv \<noteq> 0"
  shows "\<exists>st. gcm_started e sz context (ctx0, st0) mem key cipher iv ivlen
              = (started_context sz cipher rk (read_bytes mem iv ivlen), st, mem)
         \<and> session_ok e context (started_context sz cipher rk (read_bytes mem iv ivlen)) st"
proof -
  define ctx1 where "ctx1 = fst (snd (gcm_setkey e context (ctx0, st0) key cipher))"
  define st1 where "st1 = snd (snd (gcm_setkey e context (ctx0, st0) key cipher))"
  define H where "H = cipher_encrypt cipher rk zero_block"
  have rc: "fst (gcm_setkey e context (ctx0, st0) key cipher) = 0"
    using assms(1) by (simp add: gcm_setkey_rc)
  have sk: "gcm_setkey e context (ctx0, st0) key cipher = (0, ctx1, st1)"
    using rc unfolding ctx1_def st1_def by (metis prod.collapse)
  have s1: "session_ok e context ctx1 st1"
    unfolding ctx1_def st1_def by (rule gcm_setkey_session [OF assms(1-3)])
  have c1: "ctx1 = \<lparr>ctx_hash = zero_block, ctx_len_add = 0, ctx_len_data = 0,
            ctx_ctr = replicate 12 0 @ [0, 0, 0, 1], ctx_key = H, raw_cipher = cipher, raw_ctx = rk\<rparr>"
    unfolding ctx1_def H_def by (rule gcm_setkey_ctx [OF assms(1)])
  have st: "gcm_started e sz context (ctx0, st0) mem key cipher iv ivlen =
      gcm_setiv e sz context (ctx1, st1, mem) iv ivlen"
    by (simp add: gcm_started_def sk)
  show ?thesis
  proof (cases "ivlen = 12")
    case True
    define c where "c = read_bytes mem iv 12 @ [0, 0, 0, 1 :: u8]"
    have lc: "length c = 16" by (simp add: c_def)
    have r: "gcm_setiv e sz context (ctx1, st1, mem) iv ivlen =
        (ctx1\<lparr>ctx_hash := zero_block, ctx_len_add := 0, ctx_len_data := 0, ctx_ctr := c\<rparr>, st1, mem)"
      unfolding True c_def by (rule gcm_setiv_12)
    have o: "session_ok e context
        (ctx1\<lparr>ctx_hash := zero_block, ctx_len_add := 0, ctx_len_data := 0, ctx_ctr := c\<rparr>) st1"
      using s1 lc by (rule session_ok_reset)
    have e: "ctx1\<lparr>ctx_hash := zero_block, ctx_len_add := 0, ctx_len_data := 0, ctx_ctr := c\<rparr>
        = started_context sz cipher rk (read_bytes mem iv ivlen)"
      unfolding c1 by (simp add: started_context_def True c_def H_def)
    show ?thesis unfolding st r using o unfolding e by blast
  next
    case False
    define c where "c = GHASH (ctx_key ctx1) (zero_pad (read_bytes mem iv ivlen) @ replicate 8 0
                     @ be_bytes 8 (of_nat (size_t_mult sz ivlen 8) :: u64))"
    from gcm_setiv_hashed_state [OF s1 False assms(4), of sz mem] obtain st' where
      r: "gcm_setiv e sz context (ctx1, st1, mem) iv ivlen =
         (ctx1\<lparr>ctx_hash := zero_block, ctx_len_add := 0, ctx_len_data := 0, ctx_ctr := c\<rparr>, st', mem)"
      and o: "session_ok e context
         (ctx1\<lparr>ctx_hash := zero_block, ctx_len_add := 0, ctx_len_data := 0, ctx_ctr := c\<rparr>) st'"
      unfolding c_def by blast
    have kk: "ctx_key ctx1 = H" by (simp add: c1)
    have e: "ctx1\<lparr>ctx_hash := zero_block, ctx_len_add := 0, ctx_len_data := 0, ctx_ctr := c\<rparr>
        = started_context sz cipher rk (read_bytes mem iv ivlen)"
      unfolding c_def kk unfolding c1 using False by (simp add: started_context_def H_def)
    show ?thesis unfolding st r using o unfolding e by blast
  qed
qed

lemma gcm_tag_of_context:
  assumes "session_ok e context ctx st1" "session_ok e context' ctx st2"
    "length buf = 16" "length buf' = 16"
  shows "gcm_tag_of e context (ctx, st1, mem1) buf = gcm_tag_of e context' (ctx, st2, mem2) buf'"
  using gcm_tag_spec [OF assms(1,3)] gcm_tag_spec [OF assms(2,4)]
  by (auto simp: gcm_tag_of_def)

text \<open>
  The round trip on buffers that do not overlap: a session that decrypts, after the same
  key, the same initialisation vector and the same additional data, the ciphertext that an
  encrypting session produced, writes the plaintext again, and \<open>gcm_tag\<close> gives the same tag
  in both sessions.
\<close>

lemma gcm_round_trip:
  assumes "cipher_setkey cipher (raw_ctx ctx0) key = (0, rk)"
    and "cipher_setkey cipher (raw_ctx ctx0') key = (0, rk)"
    and "block_cipher cipher rk" "statics_wf st0" "statics_wf st0'" "iv \<noteq> 0" "iv' \<noteq> 0"
    and "read_bytes mem' iv' ivlen = read_bytes mem iv ivlen"
    and "read_bytes mem' a' alen = read_bytes mem a alen"
    and "buffers_ok (Encrypt p c len)" "c \<noteq> 0" "buffers_ok (Decrypt c' p' len)" "p' \<noteq> 0"
    and "read_bytes mem' c' len
           = read_bytes (snd (snd (gcm_session e sz context (ctx0, st0) mem key cipher iv ivlen
                [Encrypt a 0 alen, Encrypt p c len]))) c len"
    and "length buf = 16" "length buf' = 16"
  shows "read_bytes (snd (snd (gcm_session e sz context' (ctx0', st0') mem' key cipher iv' ivlen
            [Decrypt a' 0 alen, Decrypt c' p' len]))) p' len = read_bytes mem p len
       \<and> gcm_tag_of e context' (gcm_session e sz context' (ctx0', st0') mem' key cipher iv' ivlen
            [Decrypt a' 0 alen, Decrypt c' p' len]) buf'
         = gcm_tag_of e context (gcm_session e sz context (ctx0, st0) mem key cipher iv ivlen
            [Encrypt a 0 alen, Encrypt p c len]) buf"
proof -
  define ctx where "ctx = started_context sz cipher rk (read_bytes mem iv ivlen)"
  from gcm_started_state [OF assms(1,3,4,6), of e sz "context" mem ivlen] obtain st where
    se: "gcm_started e sz context (ctx0, st0) mem key cipher iv ivlen = (ctx, st, mem)"
    and oe: "session_ok e context ctx st" unfolding ctx_def by blast
  from gcm_started_state [OF assms(2,3,5,7), of e sz context' mem' ivlen] obtain st' where
    sd: "gcm_started e sz context' (ctx0', st0') mem' key cipher iv' ivlen = (ctx, st', mem')"
    and od: "session_ok e context' ctx st'" unfolding ctx_def assms(8) by blast
  have wf: "context_wf ctx" using oe by (simp add: session_ok_def)
  define k where "k = raw_ctx ctx"
  define ctr where "ctr = ctx_ctr ctx"
  define h where "h = ctx_key ctx"
  define A where "A = read_bytes mem a alen"
  define P where "P = read_bytes mem p len"
  define C where "C = ctr_crypt (raw_cipher ctx) k ctr P"
  have lc: "length ctr = 16" and bc: "block_cipher (raw_cipher ctx) k"
    using wf by (simp_all add: context_wf_def ctr_def k_def)
  have lC: "length C = len" using bc lc by (simp add: C_def P_def)
  have be: "list_all buffers_ok [Encrypt a 0 alen, Encrypt p c len]" using assms(10) by simp
  have bd: "list_all buffers_ok [Decrypt a' 0 alen, Decrypt c' p' len]" using assms(12) by simp
  define ce where "ce = ctx\<lparr>ctx_len_add := of_nat (size_t_mult sz alen 8),
      ctx_len_data := of_nat (size_t_mult sz len 8),
      ctx_ctr := (inc32 ^^ ((len + 15) div 16)) ctr,
      ctx_hash := ghash_bytes h (ghash_bytes h (ctx_hash ctx) A) C\<rparr>"
  have z: "ctx_len_add ctx = 0" "ctx_len_data ctx = 0" by (simp_all add: ctx_def started_context_def)
  have fe: "foldl (call_effect sz) (ctx, mem) [Encrypt a 0 alen, Encrypt p c len]
      = (ce, write_bytes mem c C)"
    using assms(11) by (simp add: call_effect_def ce_def z A_def P_def C_def k_def ctr_def h_def)
  from gcm_run_effect [OF oe be, of sz mem] obtain st1 where
    re: "gcm_run e sz context (ctx, st, mem) [Encrypt a 0 alen, Encrypt p c len]
        = (ce, st1, write_bytes mem c C)"
    and o1: "session_ok e context ce st1"
    unfolding fe by auto
  have ee: "gcm_session e sz context (ctx0, st0) mem key cipher iv ivlen
                [Encrypt a 0 alen, Encrypt p c len] = (ce, st1, write_bytes mem c C)"
    by (simp add: gcm_session_def se re)
  have "read_bytes (write_bytes mem c C) c (length C) = C" by (rule read_write_same)
  then have rc: "read_bytes mem' c' len = C" using assms(14) unfolding ee by (simp add: lC)
  have tw: "ctr_crypt (raw_cipher ctx) k ctr C = P"
    unfolding C_def using bc lc by (rule ctr_crypt_twice)
  have fd: "foldl (call_effect sz) (ctx, mem') [Decrypt a' 0 alen, Decrypt c' p' len]
      = (ce, write_bytes mem' p' P)"
    using assms(13)
    by (simp add: call_effect_def ce_def z assms(9) rc tw A_def k_def [symmetric] ctr_def [symmetric]
        h_def)
  from gcm_run_effect [OF od bd, of sz mem'] obtain st2 where
    rd: "gcm_run e sz context' (ctx, st', mem') [Decrypt a' 0 alen, Decrypt c' p' len]
        = (ce, st2, write_bytes mem' p' P)"
    and o2: "session_ok e context' ce st2"
    unfolding fd by auto
  have dd: "gcm_session e sz context' (ctx0', st0') mem' key cipher iv' ivlen
                [Decrypt a' 0 alen, Decrypt c' p' len] = (ce, st2, write_bytes mem' p' P)"
    by (simp add: gcm_session_def sd rd)
  have lP: "length P = len" by (simp add: P_def)
  have "read_bytes (write_bytes mem' p' P) p' (length P) = P" by (rule read_write_same)
  then have rp: "read_bytes (write_bytes mem' p' P) p' len = read_bytes mem p len"
    by (simp add: lP) (simp add: P_def)
  show ?thesis
    unfolding ee dd using rp gcm_tag_of_context [OF o2 o1 assms(16,15)] by simp
qed

lemma toy_started_fields:
  "ctx_hash (fst toy_started) = zero_block" "ctx_len_add (fst toy_started) = 0"
  "ctx_len_data (fst toy_started) = 0" "ctx_ctr (fst toy_started) = toy_j0"
  "ctx_key (fst toy_started) = toy_key" "raw_cipher (fst toy_started) = toy_cipher"
  "raw_ctx (fst toy_started) = toy_schedule"
  unfolding toy_started_session(3) by (simp_all add: toy_keyed_ctx toy_j0_def)

lemma toy_ctr_crypt:
  "ctr_crypt toy_cipher toy_schedule toy_j0 toy_plain = toy_cipher_text"
  "ctr_crypt toy_cipher toy_schedule toy_j0 toy_cipher_text = toy_plain"
  unfolding toy_j0_def toy_plain_def toy_cipher_text_def
  by (subst ctr_crypt_step; simp add: toy_inc32 toy_keystream xor_bytes_def)+

lemma toy_data_call:
  assumes "session_ok LittleEndian 4096 (fst toy_started) st" "buffers_ok (mk src dst 16)"
    "mk = Encrypt \<or> mk = Decrypt" "dst \<noteq> 0"
  shows "\<exists>st'. gcm_run LittleEndian 32 4096 (fst toy_started, st, mem) [mk src dst 16]
            = (toy_after (if mk = Encrypt
                          then ctr_crypt toy_cipher toy_schedule toy_j0 (read_bytes mem src 16)
                          else read_bytes mem src 16), st',
               write_bytes mem dst (ctr_crypt toy_cipher toy_schedule toy_j0 (read_bytes mem src 16)))
          \<and> session_ok LittleEndian 4096
               (toy_after (if mk = Encrypt
                          then ctr_crypt toy_cipher toy_schedule toy_j0 (read_bytes mem src 16)
                          else read_bytes mem src 16)) st'"
proof -
  have b: "list_all buffers_ok [mk src dst 16]" using assms(2) by simp
  have m: "size_t_mult 32 16 8 = 128" by (simp add: size_t_mult_def)
  have e: "foldl (call_effect 32) (fst toy_started, mem) [mk src dst 16]
      = (toy_after (if mk = Encrypt
                          then ctr_crypt toy_cipher toy_schedule toy_j0 (read_bytes mem src 16)
                          else read_bytes mem src 16),
         write_bytes mem dst (ctr_crypt toy_cipher toy_schedule toy_j0 (read_bytes mem src 16)))"
    unfolding foldl.simps call_effect_data [OF assms(4,3)] m
    by (simp add: toy_started_fields toy_after_def)
  from gcm_run_effect [OF assms(1) b, of 32 mem] show ?thesis unfolding e by simp
qed

lemma gcm_decrypt_in_place:
  "gcm_decrypt e sz context s p p len = gcm_encrypt e sz context s p p len"
  by (simp add: gcm_decrypt_def gcm_encrypt_def Let_def)

lemma gcm_run_decrypt_in_place:
  "gcm_run e sz context s [Decrypt p p len] = gcm_run e sz context s [Encrypt p p len]"
  by (simp add: gcm_run_def gcm_decrypt_in_place)

lemma Decrypt_not_Encrypt: "Decrypt \<noteq> Encrypt"
proof
  assume "Decrypt = Encrypt"
  then have "Decrypt 0 0 0 = Encrypt 0 0 0" by simp
  then show False by simp
qed

lemma toy_started_triple:
  "toy_started = (fst toy_started, fst (snd toy_started), toy_memory)"
  using toy_started_session(2) by (metis prod.collapse)

lemma toy_encrypted_state:
  "\<exists>st. toy_encrypted
          = (toy_after toy_cipher_text, st, write_bytes toy_memory 256 toy_cipher_text)
        \<and> session_ok LittleEndian 4096 (toy_after toy_cipher_text) st"
proof -
  have r: "read_bytes toy_memory 64 16 = toy_plain"
    by (simp add: read_bytes_def toy_memory_def toy_plain_def upt_rec)
  have b: "buffers_ok (Encrypt 64 256 16)" "Encrypt = Encrypt \<or> Encrypt = Decrypt" "(256 :: nat) \<noteq> 0"
    by simp_all
  from toy_data_call [OF toy_started_session(1) b, of toy_memory]
  show ?thesis
    unfolding toy_encrypted_def by (subst toy_started_triple) (simp add: r toy_ctr_crypt)
qed

lemma toy_restarted_state:
  "\<exists>st. toy_restarted = (fst toy_started, st, snd (snd toy_encrypted))
        \<and> session_ok LittleEndian 4096 (fst toy_started) st"
proof -
  from toy_encrypted_state obtain st0 where
    e: "toy_encrypted = (toy_after toy_cipher_text, st0, write_bytes toy_memory 256 toy_cipher_text)"
    by blast
  have "read_bytes (write_bytes toy_memory 256 toy_cipher_text) 16 12 = read_bytes toy_memory 16 12"
    by (rule read_write_disjoint) simp
  also have "\<dots> = [16, 17, 18, 19, 20, 21, 22, 23, 24, 25, 26, 27]"
    by (simp add: read_bytes_def toy_memory_def upt_rec)
  finally have r: "read_bytes (snd (snd toy_encrypted)) 16 12
      = [16, 17, 18, 19, 20, 21, 22, 23, 24, 25, 26, 27]"
    by (simp add: e)
  have h: "cipher_encrypt toy_cipher toy_schedule zero_block = toy_key"
    by (simp add: toy_cipher_def toy_key_def toy_schedule_def zero_block_def replicate_16)
  have c: "started_context 32 toy_cipher toy_schedule [16, 17, 18, 19, 20, 21, 22, 23, 24, 25, 26, 27]
      = fst toy_started"
    unfolding toy_started_session(3) by (simp add: started_context_def h toy_keyed_ctx)
  have n: "(16 :: nat) \<noteq> 0" by simp
  from gcm_started_state [OF toy_setkey toy_block_cipher statics_wf_initial n,
      of LittleEndian 32 4096 "snd (snd toy_encrypted)" 12]
  show ?thesis unfolding toy_restarted_def r c .
qed

lemma toy_decrypted_state:
  "\<exists>st. toy_decrypted
          = (toy_after toy_cipher_text, st, write_bytes (snd (snd toy_encrypted)) 512 toy_plain)
        \<and> session_ok LittleEndian 4096 (toy_after toy_cipher_text) st"
proof -
  from toy_encrypted_state obtain st0 where
    e: "toy_encrypted = (toy_after toy_cipher_text, st0, write_bytes toy_memory 256 toy_cipher_text)"
    by blast
  from toy_restarted_state obtain st where
    t: "toy_restarted = (fst toy_started, st, snd (snd toy_encrypted))"
    and s: "session_ok LittleEndian 4096 (fst toy_started) st" by blast
  have lc: "length toy_cipher_text = 16" by (simp add: toy_cipher_text_def)
  have r: "read_bytes (snd (snd toy_encrypted)) 256 16 = toy_cipher_text"
    unfolding e using read_write_same [of toy_memory 256 toy_cipher_text] by (simp add: lc)
  have b: "buffers_ok (Decrypt 256 512 16)" "Decrypt = Encrypt \<or> Decrypt = Decrypt" "(512 :: nat) \<noteq> 0"
    by simp_all
  from toy_data_call [OF s b, of "snd (snd toy_encrypted)"]
  show ?thesis
    unfolding toy_decrypted_def t by (simp add: r toy_ctr_crypt Decrypt_not_Encrypt)
qed

lemma toy_decrypted_in_place_state:
  "\<exists>st. toy_decrypted_in_place
          = (toy_after toy_plain, st, write_bytes (snd (snd toy_encrypted)) 256 toy_plain)
        \<and> session_ok LittleEndian 4096 (toy_after toy_plain) st"
proof -
  from toy_encrypted_state obtain st0 where
    e: "toy_encrypted = (toy_after toy_cipher_text, st0, write_bytes toy_memory 256 toy_cipher_text)"
    by blast
  from toy_restarted_state obtain st where
    t: "toy_restarted = (fst toy_started, st, snd (snd toy_encrypted))"
    and s: "session_ok LittleEndian 4096 (fst toy_started) st" by blast
  have lc: "length toy_cipher_text = 16" by (simp add: toy_cipher_text_def)
  have r: "read_bytes (snd (snd toy_encrypted)) 256 16 = toy_cipher_text"
    unfolding e using read_write_same [of toy_memory 256 toy_cipher_text] by (simp add: lc)
  have b: "buffers_ok (Encrypt 256 256 16)" "Encrypt = Encrypt \<or> Encrypt = Decrypt" "(256 :: nat) \<noteq> 0"
    by simp_all
  from toy_data_call [OF s b, of "snd (snd toy_encrypted)"]
  show ?thesis
    unfolding toy_decrypted_in_place_def gcm_run_decrypt_in_place t by (simp add: r toy_ctr_crypt)
qed

lemma toy_tag_after:
  assumes "session_ok LittleEndian 4096 (toy_after x) st"
  shows "gcm_tag_of LittleEndian 4096 (toy_after x, st, mem) (replicate 16 0)
           = xor_bytes [129, 1, 2, 3, 31, 31, 31, 31, 31, 31, 31, 31, 31, 31, 31, 31]
               (gf_mult toy_key
                  (xor_bytes (ghash_bytes toy_key zero_block x)
                     [0, 0, 0, 0, 0, 0, 0, 0, 0, 0, 0, 0, 0, 0, 0, 128]))"
proof -
  have l: "length (replicate 16 (0 :: u8)) = 16" by simp
  have f: "ctx_len_add (toy_after x) = 0" "ctx_len_data (toy_after x) = 128"
    "ctx_ctr (toy_after x) = (inc32 ^^ ((16 + 15) div 16)) toy_j0"
    "ctx_hash (toy_after x) = ghash_bytes toy_key zero_block x"
    "ctx_key (toy_after x) = toy_key" "raw_cipher (toy_after x) = toy_cipher"
    "raw_ctx (toy_after x) = toy_schedule"
    by (simp_all add: toy_after_def toy_started_fields)
  have lj: "length toy_j0 = 16" by (simp add: toy_j0_def)
  have b: "8 * (16 :: nat) < 2 ^ 64" by simp
  have "of_nat ((16 + 15) div 16) + ucast ((- (of_nat 16 * 8 :: u64)) div 128) = (0 :: u32)"
    by (rule offset_cancels [OF b])
  then have o: "of_nat ((16 + 15) div 16) + ucast ((- (128 :: u64)) div 128) = (0 :: u32)"
    by simp
  have g: "gcm_count LittleEndian ((inc32 ^^ ((16 + 15) div 16)) toy_j0) (ucast ((- (128 :: u64)) div 128))
      = toy_j0"
    by (rule gcm_count_funpow_inc32 [OF lj o])
  have en: "cipher_encrypt toy_cipher toy_schedule toy_j0
      = [129, 1, 2, 3, 31, 31, 31, 31, 31, 31, 31, 31, 31, 31, 31, 31]"
    by (simp add: toy_cipher_def toy_schedule_def toy_j0_def)
  have lb: "be_bytes 8 (0 :: u64) @ be_bytes 8 (128 :: u64)
      = [0, 0, 0, 0, 0, 0, 0, 0, 0, 0, 0, 0, 0, 0, 0, 128]"
    by (simp add: be_bytes_def upt_rec)
  from gcm_tag_spec [OF assms l] obtain st' where
    "gcm_tag LittleEndian 4096 (toy_after x, st) (replicate 16 0) =
       (toy_after x, st',
        xor_bytes
          (cipher_encrypt (raw_cipher (toy_after x)) (raw_ctx (toy_after x))
             (gcm_count LittleEndian (ctx_ctr (toy_after x))
                (ucast ((- ctx_len_data (toy_after x)) div 128))))
          (gf_mult (ctx_key (toy_after x))
             (xor_bytes (ctx_hash (toy_after x))
                (be_bytes 8 (ctx_len_add (toy_after x)) @ be_bytes 8 (ctx_len_data (toy_after x))))))"
    by blast
  then show ?thesis
    unfolding f g en lb gcm_tag_of_def by simp
qed

lemma toy_hashes:
  "gf_mult toy_key toy_cipher_text
     = [127, 154, 52, 205, 2, 159, 211, 224, 33, 9, 176, 70, 81, 40, 80, 87]"
  "gf_mult toy_key toy_plain
     = [202, 8, 35, 0, 193, 38, 54, 134, 223, 184, 104, 24, 138, 62, 125, 158]"
  "gf_mult toy_key [127, 154, 52, 205, 2, 159, 211, 224, 33, 9, 176, 70, 81, 40, 80, 215]
     = [35, 164, 153, 40, 114, 116, 49, 59, 189, 64, 253, 134, 76, 52, 120, 167]"
  "gf_mult toy_key [202, 8, 35, 0, 193, 38, 54, 134, 223, 184, 104, 24, 138, 62, 125, 30]
     = [215, 9, 36, 60, 51, 213, 127, 222, 184, 205, 24, 20, 168, 45, 251, 168]"
  by (simp_all add: gf_mult_def coefficients_unfold horner_step_def mul_x_def toy_key_def
      toy_cipher_text_def toy_plain_def zero_block_def replicate_16)

lemma toy_tags:
  "xor_bytes [129, 1, 2, 3, 31, 31, 31, 31, 31, 31, 31, 31, 31, 31, 31, 31]
     (gf_mult toy_key
        (xor_bytes (ghash_bytes toy_key zero_block toy_cipher_text)
           [0, 0, 0, 0, 0, 0, 0, 0, 0, 0, 0, 0, 0, 0, 0, 128]))
     = [162, 165, 155, 43, 109, 107, 46, 36, 162, 95, 226, 153, 83, 43, 103, 184]"
  "xor_bytes [129, 1, 2, 3, 31, 31, 31, 31, 31, 31, 31, 31, 31, 31, 31, 31]
     (gf_mult toy_key
        (xor_bytes (ghash_bytes toy_key zero_block toy_plain)
           [0, 0, 0, 0, 0, 0, 0, 0, 0, 0, 0, 0, 0, 0, 0, 128]))
     = [86, 8, 38, 63, 44, 202, 96, 193, 167, 210, 7, 11, 183, 50, 228, 183]"
proof -
  have lc: "length toy_cipher_text = 16" and lp: "length toy_plain = 16"
    by (simp_all add: toy_cipher_text_def toy_plain_def)
  have z: "xor_bytes zero_block b = b" if "length b = 16" for b :: "u8 list"
    using that by simp
  have gc: "ghash_bytes toy_key zero_block toy_cipher_text
      = [127, 154, 52, 205, 2, 159, 211, 224, 33, 9, 176, 70, 81, 40, 80, 87]"
    unfolding ghash_bytes_block [OF lc] z [OF lc] by (rule toy_hashes(1))
  have gp: "ghash_bytes toy_key zero_block toy_plain
      = [202, 8, 35, 0, 193, 38, 54, 134, 223, 184, 104, 24, 138, 62, 125, 158]"
    unfolding ghash_bytes_block [OF lp] z [OF lp] by (rule toy_hashes(2))
  have x1: "xor_bytes [127, 154, 52, 205, 2, 159, 211, 224, 33, 9, 176, 70, 81, 40, 80, 87]
      [0, 0, 0, 0, 0, 0, 0, 0, 0, 0, 0, 0, 0, 0, 0, 128 :: u8]
      = [127, 154, 52, 205, 2, 159, 211, 224, 33, 9, 176, 70, 81, 40, 80, 215]"
    by (simp add: xor_bytes_def)
  have x2: "xor_bytes [202, 8, 35, 0, 193, 38, 54, 134, 223, 184, 104, 24, 138, 62, 125, 158]
      [0, 0, 0, 0, 0, 0, 0, 0, 0, 0, 0, 0, 0, 0, 0, 128 :: u8]
      = [202, 8, 35, 0, 193, 38, 54, 134, 223, 184, 104, 24, 138, 62, 125, 30]"
    by (simp add: xor_bytes_def)
  show "xor_bytes [129, 1, 2, 3, 31, 31, 31, 31, 31, 31, 31, 31, 31, 31, 31, 31]
     (gf_mult toy_key
        (xor_bytes (ghash_bytes toy_key zero_block toy_cipher_text)
           [0, 0, 0, 0, 0, 0, 0, 0, 0, 0, 0, 0, 0, 0, 0, 128]))
     = [162, 165, 155, 43, 109, 107, 46, 36, 162, 95, 226, 153, 83, 43, 103, 184]"
    unfolding gc x1 toy_hashes(3) by (simp add: xor_bytes_def)
  show "xor_bytes [129, 1, 2, 3, 31, 31, 31, 31, 31, 31, 31, 31, 31, 31, 31, 31]
     (gf_mult toy_key
        (xor_bytes (ghash_bytes toy_key zero_block toy_plain)
           [0, 0, 0, 0, 0, 0, 0, 0, 0, 0, 0, 0, 0, 0, 0, 128]))
     = [86, 8, 38, 63, 44, 202, 96, 193, 167, 210, 7, 11, 183, 50, 228, 183]"
    unfolding gp x2 toy_hashes(4) by (simp add: xor_bytes_def)
qed

text \<open>
  C2, where the ciphertext is decrypted in place: \<open>gcm_process\<close> writes the destination
  before it reads the hash input, and for \<open>gcm_decrypt\<close> the hash input is the source, so
  with the destination equal to the source the hash absorbs the plaintext just written.
  Sixteen bytes are encrypted with tag a2 a5 9b 2b ...; decrypted to another buffer they give
  the plaintext and the same tag; decrypted in place they give the plaintext and the tag
  56 08 26 3f ....
\<close>

theorem gcm_decrypt_in_place_hashes_plaintext:
  "read_bytes (snd (snd toy_encrypted)) 256 16 = toy_cipher_text
   \<and> gcm_tag_of LittleEndian 4096 toy_encrypted (replicate 16 0)
       = [162, 165, 155, 43, 109, 107, 46, 36, 162, 95, 226, 153, 83, 43, 103, 184]
   \<and> read_bytes (snd (snd toy_decrypted)) 512 16 = toy_plain
   \<and> gcm_tag_of LittleEndian 4096 toy_decrypted (replicate 16 0)
       = [162, 165, 155, 43, 109, 107, 46, 36, 162, 95, 226, 153, 83, 43, 103, 184]
   \<and> read_bytes (snd (snd toy_decrypted_in_place)) 256 16 = toy_plain
   \<and> gcm_tag_of LittleEndian 4096 toy_decrypted_in_place (replicate 16 0)
       = [86, 8, 38, 63, 44, 202, 96, 193, 167, 210, 7, 11, 183, 50, 228, 183]
   \<and> gcm_tag_of LittleEndian 4096 toy_decrypted_in_place (replicate 16 0)
       \<noteq> gcm_tag_of LittleEndian 4096 toy_encrypted (replicate 16 0)"
proof -
  from toy_encrypted_state obtain st1 where
    e: "toy_encrypted = (toy_after toy_cipher_text, st1, write_bytes toy_memory 256 toy_cipher_text)"
    and se: "session_ok LittleEndian 4096 (toy_after toy_cipher_text) st1" by blast
  from toy_decrypted_state obtain st2 where
    d: "toy_decrypted
          = (toy_after toy_cipher_text, st2, write_bytes (snd (snd toy_encrypted)) 512 toy_plain)"
    and sd: "session_ok LittleEndian 4096 (toy_after toy_cipher_text) st2" by blast
  from toy_decrypted_in_place_state obtain st3 where
    i: "toy_decrypted_in_place
          = (toy_after toy_plain, st3, write_bytes (snd (snd toy_encrypted)) 256 toy_plain)"
    and si: "session_ok LittleEndian 4096 (toy_after toy_plain) st3" by blast
  have lc: "length toy_cipher_text = 16" and lp: "length toy_plain = 16"
    by (simp_all add: toy_cipher_text_def toy_plain_def)
  have r1: "read_bytes (snd (snd toy_encrypted)) 256 16 = toy_cipher_text"
    unfolding e using read_write_same [of toy_memory 256 toy_cipher_text] by (simp add: lc)
  have r2: "read_bytes (snd (snd toy_decrypted)) 512 16 = toy_plain"
    unfolding d using read_write_same [of "snd (snd toy_encrypted)" 512 toy_plain] by (simp add: lp)
  have r3: "read_bytes (snd (snd toy_decrypted_in_place)) 256 16 = toy_plain"
    unfolding i using read_write_same [of "snd (snd toy_encrypted)" 256 toy_plain] by (simp add: lp)
  have t1: "gcm_tag_of LittleEndian 4096 toy_encrypted (replicate 16 0)
       = [162, 165, 155, 43, 109, 107, 46, 36, 162, 95, 226, 153, 83, 43, 103, 184]"
    unfolding e toy_tag_after [OF se] by (rule toy_tags(1))
  have t2: "gcm_tag_of LittleEndian 4096 toy_decrypted (replicate 16 0)
       = [162, 165, 155, 43, 109, 107, 46, 36, 162, 95, 226, 153, 83, 43, 103, 184]"
    unfolding d toy_tag_after [OF sd] by (rule toy_tags(1))
  have t3: "gcm_tag_of LittleEndian 4096 toy_decrypted_in_place (replicate 16 0)
       = [86, 8, 38, 63, 44, 202, 96, 193, 167, 210, 7, 11, 183, 50, 228, 183]"
    unfolding i toy_tag_after [OF si] by (rule toy_tags(2))
  show ?thesis unfolding r1 r2 r3 t1 t2 t3 by simp
qed

end
